(* ===== verification/Kernel_Base.thy ===== *)
theory Kernel_Base
  imports Main "HOL-Library.Word" "HOL-Library.Multiset"
begin

text \<open>
  What the component theories share: the outcome of a kernel routine that can halt the machine,
  unsigned arithmetic at a fixed width written out on natural numbers, the rounding macros of
  \<^verbatim>\<open>include/linux/kernel.h\<close>, array insertion and removal on lists, and the collections of
  rewrite rules the component proofs are run with.
\<close>

unbundle bit_operations_syntax

named_theorems wrap_simps \<open>rules that remove the wrap-around of in-range arithmetic\<close>
named_theorems outcome_simps \<open>inversion rules for sequences of outcomes\<close>
named_theorems array_simps \<open>rules for reading arrays after an insertion or a removal\<close>

subsection \<open>Outcomes\<close>

text \<open>
  A routine returns a value, or stops the machine in \<^verbatim>\<open>BUG()\<close> or \<^verbatim>\<open>panic()\<close>.
  \<open>NoFuel\<close> marks a recursion that was cut off by the model's fuel, which is not an outcome of
  the C code; the theorems about fuelled routines show it does not occur.
\<close>

datatype 'a outcome = Return 'a | Bug | Panic | NoFuel

fun obind :: "'a outcome \<Rightarrow> ('a \<Rightarrow> 'b outcome) \<Rightarrow> 'b outcome" where
  "obind (Return x) f = f x"
| "obind Bug f = Bug"
| "obind Panic f = Panic"
| "obind NoFuel f = NoFuel"

lemma obind_cong [fundef_cong]:
  assumes "m = m'" and "\<And>x. m' = Return x \<Longrightarrow> f x = f' x"
  shows "obind m f = obind m' f'"
  using assms by (cases m') auto

lemma obind_Return_iff [outcome_simps]:
  "obind m f = Return y \<longleftrightarrow> (\<exists>x. m = Return x \<and> f x = Return y)"
  by (cases m) auto

lemma Return_obind_iff [outcome_simps]:
  "Return y = obind m f \<longleftrightarrow> (\<exists>x. m = Return x \<and> f x = Return y)"
  by (cases m) auto

lemma obind_assoc: "obind (obind m f) g = obind m (\<lambda>x. obind (f x) g)"
  by (cases m) auto

subsection \<open>Constants\<close>

definition PAGE_SIZE :: nat where "PAGE_SIZE = 4096"

definition EPERM :: int where "EPERM = 1"
definition EINTR :: int where "EINTR = 4"
definition E2BIG :: int where "E2BIG = 7"
definition EAGAIN :: int where "EAGAIN = 11"
definition ENOMEM :: int where "ENOMEM = 12"
definition EACCES :: int where "EACCES = 13"
definition EFAULT :: int where "EFAULT = 14"
definition EBUSY :: int where "EBUSY = 16"
definition EINVAL :: int where "EINVAL = 22"
definition ERANGE :: int where "ERANGE = 34"

lemmas errno_defs = EPERM_def EINTR_def E2BIG_def EAGAIN_def ENOMEM_def EACCES_def EFAULT_def EBUSY_def EINVAL_def
  ERANGE_def

subsection \<open>Unsigned arithmetic\<close>

abbreviation (input) U64 :: nat where "U64 \<equiv> 2 ^ 64"

definition ULLONG_MAX :: nat where
  "ULLONG_MAX = 2 ^ 64 - 1"

definition add64 :: "nat \<Rightarrow> nat \<Rightarrow> nat" where
  "add64 a b = (a + b) mod 2 ^ 64"

definition sub64 :: "nat \<Rightarrow> nat \<Rightarrow> nat" where
  "sub64 a b = (a + (2 ^ 64 - b mod 2 ^ 64)) mod 2 ^ 64"

definition shl64 :: "nat \<Rightarrow> nat \<Rightarrow> nat" where
  "shl64 a n = (a * 2 ^ n) mod 2 ^ 64"

lemma add64_eq [wrap_simps]: "a + b < 2 ^ 64 \<Longrightarrow> add64 a b = a + b"
  by (simp add: add64_def)

lemma add64_lt [simp]: "add64 a b < 2 ^ 64"
  by (simp add: add64_def)

lemma add64_0 [simp]: "a < 2 ^ 64 \<Longrightarrow> add64 a 0 = a"
  by (simp add: add64_def)

lemma sub64_lt [simp]: "sub64 a b < 2 ^ 64"
  by (simp add: sub64_def)

lemma sub64_eq [wrap_simps]:
  assumes "b \<le> a" and "a < 2 ^ 64"
  shows "sub64 a b = a - b"
proof -
  have b: "b < 2 ^ 64" using assms by (rule le_less_trans)
  then have "a + (2 ^ 64 - b mod 2 ^ 64) = (a - b) + 2 ^ 64"
    using assms by simp
  moreover have "((a - b) + 2 ^ 64) mod 2 ^ 64 = (a - b) mod 2 ^ 64"
    by (rule mod_add_self2)
  moreover have "(a - b) mod 2 ^ 64 = a - b"
    using assms(2) by (intro mod_less) (simp add: less_imp_diff_less)
  ultimately show ?thesis by (simp only: sub64_def)
qed

lemma shl64_eq [wrap_simps]: "a * 2 ^ n < 2 ^ 64 \<Longrightarrow> shl64 a n = a * 2 ^ n"
  unfolding shl64_def by (rule mod_less)

lemma int_add64: "int (add64 a b) = (int a + int b) mod 2 ^ 64"
  by (simp add: add64_def zmod_int)

lemma int_sub64: "int (sub64 a b) = (int a - int b) mod 2 ^ 64"
proof -
  have "b mod 2 ^ 64 < 2 ^ 64" by simp
  then have "int (a + (2 ^ 64 - b mod 2 ^ 64)) = int a - int b mod 2 ^ 64 + 2 ^ 64"
    by (simp add: zmod_int of_nat_diff)
  then have "int (sub64 a b) = (int a - int b mod 2 ^ 64 + 2 ^ 64) mod 2 ^ 64"
    by (simp only: sub64_def zmod_int) simp
  then show ?thesis by (simp add: mod_simps)
qed

lemma add64_sub64_cancel: "add64 b (sub64 c b) = c mod 2 ^ 64"
proof -
  have "int (add64 b (sub64 c b)) = int (c mod 2 ^ 64)"
    by (simp add: int_add64 int_sub64 mod_simps zmod_int)
  then show ?thesis by (simp only: of_nat_eq_iff)
qed

lemma ULLONG_MAX_lt: "a \<le> ULLONG_MAX \<longleftrightarrow> a < 2 ^ 64"
  by (auto simp: ULLONG_MAX_def)

text \<open>
  A C \<^verbatim>\<open>int\<close> is an \<open>int\<close> in range. \<open>s32\<close> reads the low 32 bits of an unsigned value
  as two's complement, \<open>u32\<close> is the cast in the other direction.
\<close>

definition s32 :: "nat \<Rightarrow> int" where
  "s32 n = (if n mod 2 ^ 32 < 2 ^ 31 then int (n mod 2 ^ 32) else int (n mod 2 ^ 32) - 2 ^ 32)"

definition u32 :: "int \<Rightarrow> nat" where
  "u32 i = nat (i mod 2 ^ 32)"

lemma u32_lt: "u32 i < 2 ^ 32"
proof -
  have "i mod 2 ^ 32 < 2 ^ 32" by (rule pos_mod_bound) simp
  then show ?thesis by (simp add: u32_def nat_less_iff)
qed

lemma s32_u32 [wrap_simps]:
  assumes "- (2 ^ 31) \<le> i" and "i < 2 ^ 31"
  shows "s32 (u32 i) = i"
proof (cases "0 \<le> i")
  case True
  then show ?thesis using assms by (simp add: s32_def u32_def nat_less_iff)
next
  case False
  have "i mod 2 ^ 32 = (i + 2 ^ 32) mod 2 ^ 32" by simp
  also have "\<dots> = i + 2 ^ 32"
    using assms False by (intro mod_pos_pos_trivial) auto
  finally have "i mod 2 ^ 32 = i + 2 ^ 32" .
  then show ?thesis using assms False by (simp add: s32_def u32_def nat_less_iff)
qed

text \<open>
  \<^verbatim>\<open>round_up\<close> and \<^verbatim>\<open>round_down\<close> are bit masks: \<^verbatim>\<open>((x) & ~((y)-1))\<close> and
  \<^verbatim>\<open>((((x)-1) | ((y)-1))+1)\<close>. For a power of two they are the usual roundings.
\<close>

definition round_down :: "nat \<Rightarrow> nat \<Rightarrow> nat" where
  "round_down x y = unat ((of_nat x :: 64 word) AND NOT (of_nat y - 1))"

definition round_up :: "nat \<Rightarrow> nat \<Rightarrow> nat" where
  "round_up x y = unat ((((of_nat x :: 64 word) - 1) OR (of_nat y - 1)) + 1)"

lemma word_pow2_mask: "(of_nat (2 ^ k) - 1 :: 'a::len word) = mask k"
  by (simp add: mask_eq_exp_minus_1)

lemma word_and_not_mask: "(w AND NOT (mask k)) = push_bit k (drop_bit k (w :: 'a::len word))"
  by (rule bit_word_eqI) (auto simp: bit_simps)

lemma round_down_pow2:
  assumes "x < 2 ^ 64" and "k < 64"
  shows "round_down x (2 ^ k) = (x div 2 ^ k) * 2 ^ k"
proof -
  have le: "(x div 2 ^ k) * 2 ^ k \<le> x" by simp
  have "round_down x (2 ^ k) = unat (push_bit k (drop_bit k (of_nat x :: 64 word)))"
    by (simp only: round_down_def word_pow2_mask word_and_not_mask)
  also have "\<dots> = take_bit 64 (push_bit k (drop_bit k x))"
    using assms by (simp add: unsigned_push_bit_eq unsigned_drop_bit_eq unsigned_of_nat
        take_bit_nat_eq_self)
  also have "\<dots> = (x div 2 ^ k) * 2 ^ k"
    using le assms by (simp add: push_bit_eq_mult drop_bit_eq_div take_bit_nat_eq_self
        order_le_less_trans [OF le])
  finally show ?thesis .
qed

lemma round_down_le: "x < 2 ^ 64 \<Longrightarrow> k < 64 \<Longrightarrow> round_down x (2 ^ k) \<le> x"
  by (simp add: round_down_pow2)

lemma round_down_dvd: "x < 2 ^ 64 \<Longrightarrow> k < 64 \<Longrightarrow> 2 ^ k dvd round_down x (2 ^ k)"
  by (simp add: round_down_pow2)

lemma word_or_mask: "(w OR mask k) = (w AND NOT (mask k)) + mask k" for w :: "'a::len word"
proof -
  have "(w AND NOT (mask k)) AND mask k = 0"
    by (rule bit_word_eqI) (auto simp: bit_simps)
  moreover have "(w AND NOT (mask k)) OR mask k = w OR mask k"
    by (rule bit_word_eqI) (auto simp: bit_simps)
  ultimately show ?thesis
    using disjunctive_add_eq_or [of "w AND NOT (mask k)" "mask k"] by simp
qed

lemma round_up_pow2:
  assumes "x < 2 ^ 64" and "k < 64"
  shows "round_up x (2 ^ k) = ((x + 2 ^ k - 1) div 2 ^ k * 2 ^ k) mod 2 ^ 64"
proof (cases "x = 0")
  case True
  have "((- 1 :: 64 word) OR mask k) = - 1"
    by (rule bit_word_eqI) (auto simp: bit_simps)
  then show ?thesis
    using True by (simp add: round_up_def word_pow2_mask [simplified])
next
  case False
  let ?w = "of_nat (x - 1) :: 64 word"
  have w: "(of_nat x :: 64 word) - 1 = ?w"
    using False by (simp add: of_nat_diff)
  have "round_up x (2 ^ k) = unat ((?w OR mask k) + 1)"
    unfolding round_up_def w word_pow2_mask ..
  also have "(?w OR mask k) + 1 = (?w AND NOT (mask k)) + (mask k + 1)"
    by (simp only: word_or_mask add.assoc)
  also have "(mask k + 1 :: 64 word) = of_nat (2 ^ k)"
    by (simp add: mask_eq_exp_minus_1)
  also have "?w AND NOT (mask k) = of_nat ((x - 1) div 2 ^ k * 2 ^ k)"
  proof -
    have "unat (?w AND NOT (mask k)) = (x - 1) div 2 ^ k * 2 ^ k"
      using round_down_pow2 [of "x - 1" k] assms
      by (simp only: round_down_def word_pow2_mask)
    then show ?thesis by (metis of_nat_unat ucast_id)
  qed
  also have "unat (of_nat ((x - 1) div 2 ^ k * 2 ^ k) + of_nat (2 ^ k) :: 64 word)
      = ((x - 1) div 2 ^ k * 2 ^ k + 2 ^ k) mod 2 ^ 64"
    unfolding of_nat_add [symmetric] unat_of_nat
    by (simp only: len_num0 len_bit0 len_bit1 len_num1
        mult_2 one_add_one numeral_plus_numeral add_num_simps)
  also have "(x - 1) div 2 ^ k * 2 ^ k + 2 ^ k = ((x - 1 + 2 ^ k) div 2 ^ k) * 2 ^ k"
    using div_add_self2 [of "2 ^ k :: nat" "x - 1"] by (simp add: algebra_simps)
  also have "x - 1 + 2 ^ k = x + 2 ^ k - 1"
    using False by simp
  finally show ?thesis .
qed

lemma round_up_bounds:
  assumes "x + 2 ^ k \<le> 2 ^ 64" and "k < 64"
  shows "x \<le> round_up x (2 ^ k)" and "round_up x (2 ^ k) < x + 2 ^ k"
    and "2 ^ k dvd round_up x (2 ^ k)"
proof -
  let ?m = "x + 2 ^ k - 1"
  have x: "x < 2 ^ 64"
    using assms(1) by (metis le_add1 le_less_trans less_add_same_cancel1 linorder_not_le
        order_le_less zero_less_numeral zero_less_power)
  have split: "?m div 2 ^ k * 2 ^ k + ?m mod 2 ^ k = ?m"
    by (rule div_mult_mod_eq)
  have m: "?m mod 2 ^ k < 2 ^ k" by simp
  have "?m div 2 ^ k * 2 ^ k < 2 ^ 64"
    using split assms(1) zero_less_power [of "2 :: nat" k] by linarith
  then have eq: "round_up x (2 ^ k) = ?m div 2 ^ k * 2 ^ k"
    using round_up_pow2 [OF x assms(2)] by simp
  show "x \<le> round_up x (2 ^ k)" "round_up x (2 ^ k) < x + 2 ^ k"
    using eq split m zero_less_power [of "2 :: nat" k] by linarith+
  show "2 ^ k dvd round_up x (2 ^ k)"
    unfolding eq by simp
qed

subsection \<open>Arrays as lists\<close>

text \<open>
  An array with a separate element count is the list of its live elements. \<^verbatim>\<open>memmove\<close> of the
  tail by one element up or down is \<open>insert_at\<close> or \<open>remove_at\<close>.
\<close>

definition insert_at :: "nat \<Rightarrow> 'a \<Rightarrow> 'a list \<Rightarrow> 'a list" where
  "insert_at i x xs = take i xs @ x # drop i xs"

definition remove_at :: "nat \<Rightarrow> 'a list \<Rightarrow> 'a list" where
  "remove_at i xs = take i xs @ drop (Suc i) xs"

lemma length_insert_at [array_simps, simp]: "length (insert_at i x xs) = Suc (length xs)"
  by (simp add: insert_at_def)

lemma length_remove_at [array_simps, simp]:
  "i < length xs \<Longrightarrow> length (remove_at i xs) = length xs - 1"
  by (simp add: remove_at_def)

lemma nth_insert_at [array_simps]:
  "i \<le> length xs \<Longrightarrow>
    insert_at i x xs ! j = (if j < i then xs ! j else if j = i then x else xs ! (j - 1))"
  by (auto simp: insert_at_def nth_append min_def nth_Cons split: nat.splits
      intro!: arg_cong [where f = "(!) xs"])

lemma take_insert_at [array_simps]:
  "i \<le> length xs \<Longrightarrow> take (Suc i) (insert_at i x xs) = take i xs @ [x]"
  by (simp add: insert_at_def)

lemma drop_insert_at [array_simps]:
  "i \<le> length xs \<Longrightarrow> drop (Suc i) (insert_at i x xs) = drop i xs"
  by (simp add: insert_at_def)

lemma nth_remove_at [array_simps]:
  "i < length xs \<Longrightarrow> j < length xs - 1 \<Longrightarrow>
    remove_at i xs ! j = (if j < i then xs ! j else xs ! Suc j)"
  by (auto simp: remove_at_def nth_append min_def)

lemma insert_at_append [array_simps]:
  "insert_at (length xs) x (xs @ ys) = xs @ x # ys"
  by (simp add: insert_at_def)

lemma remove_at_append [array_simps]:
  "remove_at (length xs) (xs @ y # ys) = xs @ ys"
  by (simp add: remove_at_def)

lemma remove_insert_at: "i \<le> length xs \<Longrightarrow> remove_at i (insert_at i x xs) = xs"
  by (simp add: remove_at_def insert_at_def)

end
