(* ===== verification/Memblock.thy ===== *)
theory Memblock
  imports Kernel_Base
begin

text \<open>
  The boot-time memory allocator, \<^verbatim>\<open>mm/memblock.c\<close>: two sorted arrays of physical address
  ranges, \<^verbatim>\<open>memory\<close> and \<^verbatim>\<open>reserved\<close>, with the operations that add, split, merge and
  remove ranges.

  Configuration, as the source fixes it: 64-bit \<^verbatim>\<open>phys_addr_t\<close>, 4 KiB pages, no
  \<^verbatim>\<open>CONFIG_HAVE_MEMBLOCK_NODE_MAP\<close> (every region is on node 0) and no
  \<^verbatim>\<open>CONFIG_HAVE_MEMBLOCK_PHYS_MAP\<close>. Both settings of \<^verbatim>\<open>CONFIG_MOVABLE_NODE\<close> are covered by
  a field of the state. An array is the list of its first \<^verbatim>\<open>cnt\<close> entries, so \<^verbatim>\<open>cnt\<close> is the
  length of the list; entries past \<^verbatim>\<open>cnt\<close> are never read by the code. Log output, kmemleak
  hooks and the saved stack traces are left out.
\<close>

subsection \<open>State\<close>

definition SMP_CACHE_BYTES :: nat where "SMP_CACHE_BYTES = 64"

definition INIT_MEMBLOCK_REGIONS :: nat where "INIT_MEMBLOCK_REGIONS = 128"

definition MAX_MEMBLOCK_RECORD :: nat where "MAX_MEMBLOCK_RECORD = 100"

definition MEMBLOCK_HOTPLUG :: "64 word" where "MEMBLOCK_HOTPLUG = 1"

definition MEMBLOCK_ALLOC_ANYWHERE :: nat where "MEMBLOCK_ALLOC_ANYWHERE = ULLONG_MAX"

definition MEMBLOCK_ALLOC_ACCESSIBLE :: nat where "MEMBLOCK_ALLOC_ACCESSIBLE = 0"

definition NUMA_NO_NODE :: int where "NUMA_NO_NODE = -1"

definition MAX_NUMNODES :: int where "MAX_NUMNODES = 1"

record memblock_region =
  mr_base :: nat
  mr_size :: nat
  mr_flags :: "64 word"

text \<open>Where the region array lives: one of the two static arrays, or at a physical address.\<close>

datatype region_array = StaticArray | ArrayAt nat

record memblock_type =
  regions :: "memblock_region list"
  max_regions :: nat
  total_size :: nat
  region_array :: region_array

abbreviation cnt :: "memblock_type \<Rightarrow> nat" where
  "cnt t \<equiv> length (regions t)"

record memblock_record =
  rec_base :: nat
  rec_end :: nat
  rec_size :: nat
  rec_flags :: "64 word"
  rec_ip :: nat

record memblock =
  bottom_up :: bool
  current_limit :: nat
  memory :: memblock_type
  reserved :: memblock_type
  movable_node_enabled :: bool
  config_movable_node :: bool
  memblock_can_resize :: bool
  memblock_memory_in_slab :: bool
  memblock_reserved_in_slab :: bool
  memblock_records :: "memblock_record list"
  memblock_not_record :: nat

datatype mtype = Memory | Reserved

fun get_type :: "mtype \<Rightarrow> memblock \<Rightarrow> memblock_type" where
  "get_type Memory mb = memory mb"
| "get_type Reserved mb = reserved mb"

fun set_type :: "mtype \<Rightarrow> memblock_type \<Rightarrow> memblock \<Rightarrow> memblock" where
  "set_type Memory t mb = mb\<lparr>memory := t\<rparr>"
| "set_type Reserved t mb = mb\<lparr>reserved := t\<rparr>"

definition empty_region :: memblock_region where
  "empty_region = \<lparr>mr_base = 0, mr_size = 0, mr_flags = 0\<rparr>"

definition init_type :: memblock_type where
  "init_type = \<lparr>regions = [empty_region], max_regions = INIT_MEMBLOCK_REGIONS, total_size = 0,
     region_array = StaticArray\<rparr>"

definition memblock_init :: "bool \<Rightarrow> memblock" where
  "memblock_init movable =
     \<lparr>bottom_up = False, current_limit = MEMBLOCK_ALLOC_ANYWHERE, memory = init_type,
      reserved = init_type, movable_node_enabled = False, config_movable_node = movable,
      memblock_can_resize = False, memblock_memory_in_slab = False,
      memblock_reserved_in_slab = False, memblock_records = [], memblock_not_record = 0\<rparr>"

text \<open>
  What the allocator takes from the rest of the kernel: whether the slab allocator is up, the
  physical address \<^verbatim>\<open>kmalloc\<close> and \<^verbatim>\<open>kzalloc_node\<close> give for a size (0 on failure), the end of the kernel image
  and the return address that is recorded with a reservation.
\<close>

record memblock_env =
  slab_is_available :: bool
  kmalloc_pa :: "nat \<Rightarrow> nat"
  kzalloc_node_pa :: "nat \<Rightarrow> int \<Rightarrow> nat"
  kernel_end :: nat
  ret_ip :: nat

subsection \<open>Address utilities\<close>

abbreviation region_end :: "memblock_region \<Rightarrow> nat" where
  "region_end r \<equiv> add64 (mr_base r) (mr_size r)"

definition PAGE_ALIGN :: "nat \<Rightarrow> nat" where
  "PAGE_ALIGN a = unat (((of_nat a :: 64 word) + (of_nat PAGE_SIZE - 1)) AND NOT (of_nat PAGE_SIZE - 1))"

definition clamp :: "nat \<Rightarrow> nat \<Rightarrow> nat \<Rightarrow> nat" where
  "clamp val lo hi = min (max val lo) hi"

definition memblock_cap_size :: "nat \<Rightarrow> nat \<Rightarrow> nat" where
  "memblock_cap_size base sz = min sz (sub64 ULLONG_MAX base)"

definition memblock_addrs_overlap :: "nat \<Rightarrow> nat \<Rightarrow> nat \<Rightarrow> nat \<Rightarrow> bool" where
  "memblock_addrs_overlap base1 size1 base2 size2 \<longleftrightarrow>
     base1 < add64 base2 size2 \<and> base2 < add64 base1 size1"

function overlaps_region_loop :: "memblock_region list \<Rightarrow> nat \<Rightarrow> nat \<Rightarrow> nat \<Rightarrow> nat" where
  "overlaps_region_loop rs base sz i =
     (if i < length rs then
        if memblock_addrs_overlap base sz (mr_base (rs ! i)) (mr_size (rs ! i)) then i
        else overlaps_region_loop rs base sz (Suc i)
      else i)"
  by pat_completeness auto
termination
  by (relation "measure (\<lambda>(rs, base, sz, i). length rs - i)") auto

definition memblock_overlaps_region :: "memblock_type \<Rightarrow> nat \<Rightarrow> nat \<Rightarrow> int" where
  "memblock_overlaps_region t base sz =
     (let i = overlaps_region_loop (regions t) base sz 0
      in if i < cnt t then int i else -1)"

definition memblock_get_region_node :: "memblock_region \<Rightarrow> int" where
  "memblock_get_region_node r = 0"

definition memblock_is_hotpluggable :: "memblock \<Rightarrow> memblock_region \<Rightarrow> bool" where
  "memblock_is_hotpluggable mb r \<longleftrightarrow> config_movable_node mb \<and> mr_flags r AND MEMBLOCK_HOTPLUG \<noteq> 0"

definition movable_node_is_enabled :: "memblock \<Rightarrow> bool" where
  "movable_node_is_enabled mb \<longleftrightarrow> config_movable_node mb \<and> movable_node_enabled mb"

definition memblock_bottom_up :: "memblock \<Rightarrow> bool" where
  "memblock_bottom_up mb \<longleftrightarrow> config_movable_node mb \<and> bottom_up mb"

definition memblock_set_region_flags :: "64 word \<Rightarrow> memblock_region \<Rightarrow> memblock_region" where
  "memblock_set_region_flags f r = r\<lparr>mr_flags := mr_flags r OR f\<rparr>"

definition memblock_clear_region_flags :: "64 word \<Rightarrow> memblock_region \<Rightarrow> memblock_region" where
  "memblock_clear_region_flags f r = r\<lparr>mr_flags := mr_flags r AND NOT f\<rparr>"

subsection \<open>Single-region updates\<close>

definition memblock_remove_region :: "nat \<Rightarrow> memblock_type \<Rightarrow> memblock_type" where
  "memblock_remove_region r t =
     (let rs = remove_at r (regions t)
      in t\<lparr>total_size := sub64 (total_size t) (mr_size (regions t ! r)),
           regions := (if rs = [] then [empty_region] else rs)\<rparr>)"

definition memblock_insert_region ::
    "nat \<Rightarrow> nat \<Rightarrow> nat \<Rightarrow> 64 word \<Rightarrow> memblock_type \<Rightarrow> memblock_type outcome" where
  "memblock_insert_region idx base sz flags t =
     (if cnt t \<ge> max_regions t then Bug
      else Return (t\<lparr>regions := insert_at idx \<lparr>mr_base = base, mr_size = sz, mr_flags = flags\<rparr>
                                  (regions t),
                     total_size := add64 (total_size t) sz\<rparr>))"

text \<open>The loop of \<^verbatim>\<open>memblock_merge_regions\<close>.\<close>

function merge_loop :: "nat \<Rightarrow> memblock_region list \<Rightarrow> memblock_region list outcome" where
  "merge_loop i rs =
     (if i < length rs - 1 then
        let this = rs ! i; nxt = rs ! Suc i in
        if region_end this \<noteq> mr_base nxt \<or>
           memblock_get_region_node this \<noteq> memblock_get_region_node nxt \<or>
           mr_flags this \<noteq> mr_flags nxt
        then if region_end this > mr_base nxt then Bug else merge_loop (Suc i) rs
        else merge_loop i (remove_at (Suc i)
               (rs[i := this\<lparr>mr_size := add64 (mr_size this) (mr_size nxt)\<rparr>]))
      else Return rs)"
  by pat_completeness auto
termination
  by (relation "measure (\<lambda>(i, rs). length rs - i)") auto

definition memblock_merge_regions :: "memblock_type \<Rightarrow> memblock_type outcome" where
  "memblock_merge_regions t =
     obind (merge_loop 0 (regions t)) (\<lambda>rs. Return (t\<lparr>regions := rs\<rparr>))"

subsection \<open>Walking the free areas\<close>

text \<open>
  The iterator packs its two array indices into one \<^verbatim>\<open>u64\<close>. A negative \<^verbatim>\<open>int\<close> index compared
  with the \<^verbatim>\<open>unsigned long\<close> count converts to a huge value, so such a test fails.
\<close>

definition pack_idx :: "int \<Rightarrow> int \<Rightarrow> nat" where
  "pack_idx a b = u32 a + u32 b * 2 ^ 32"

definition idx_a_of :: "nat \<Rightarrow> int" where "idx_a_of idx = s32 (idx mod 2 ^ 32)"

definition idx_b_of :: "nat \<Rightarrow> int" where "idx_b_of idx = s32 (idx div 2 ^ 32)"

definition gap_start :: "memblock_region list \<Rightarrow> int \<Rightarrow> nat" where
  "gap_start rs b = (if b \<noteq> 0 then region_end (rs ! nat (b - 1)) else 0)"

definition gap_end :: "memblock_region list \<Rightarrow> int \<Rightarrow> nat" where
  "gap_end rs b = (if b < int (length rs) then mr_base (rs ! nat b) else ULLONG_MAX)"

text \<open>The inner loop: \<open>Some (r_start, r_end)\<close> when an intersecting gap was found.\<close>

function next_scan_b :: "memblock_region list \<Rightarrow> nat \<Rightarrow> nat \<Rightarrow> int \<Rightarrow> int \<times> (nat \<times> nat) option" where
  "next_scan_b rs m_start m_end b =
     (if 0 \<le> b \<and> b < int (length rs) + 1 then
        let r_start = gap_start rs b; r_end = gap_end rs b in
        if r_start \<ge> m_end then (b, None)
        else if m_start < r_end then (b, Some (r_start, r_end))
        else next_scan_b rs m_start m_end (b + 1)
      else (b, None))"
  by pat_completeness auto
termination
  by (relation "measure (\<lambda>(rs, s, e, b). nat (int (length rs) + 1 - b))") auto

function next_loop :: "memblock \<Rightarrow> int \<Rightarrow> memblock_region list \<Rightarrow> memblock_region list option \<Rightarrow>
    int \<Rightarrow> int \<Rightarrow> (nat \<times> nat \<times> nat) option" where
  "next_loop mb nid rsa rsb a b =
     (if 0 \<le> a \<and> a < int (length rsa) then
        let m = rsa ! nat a; m_start = mr_base m; m_end = region_end m in
        if nid \<noteq> NUMA_NO_NODE \<and> nid \<noteq> memblock_get_region_node m then
          next_loop mb nid rsa rsb (a + 1) b
        else if movable_node_is_enabled mb \<and> memblock_is_hotpluggable mb m then
          next_loop mb nid rsa rsb (a + 1) b
        else case rsb of
          None \<Rightarrow> Some (pack_idx (a + 1) b, m_start, m_end)
        | Some rs \<Rightarrow>
           (case next_scan_b rs m_start m_end b of
              (b', Some (r_start, r_end)) \<Rightarrow>
                Some (if m_end \<le> r_end then pack_idx (a + 1) b' else pack_idx a (b' + 1),
                      max m_start r_start, min m_end r_end)
            | (b', None) \<Rightarrow> next_loop mb nid rsa rsb (a + 1) b')
      else None)"
  by pat_completeness auto
termination
  by (relation "measure (\<lambda>(mb, nid, rsa, rsb, a, b). nat (int (length rsa) - a))") auto

text \<open>
  \<^verbatim>\<open>__next_mem_range\<close>: the new index and the range, or \<open>None\<close> where the code sets the index to
  \<^verbatim>\<open>ULLONG_MAX\<close> and leaves the output parameters alone.
\<close>

definition next_mem_range :: "memblock \<Rightarrow> int \<Rightarrow> memblock_type \<Rightarrow> memblock_type option \<Rightarrow> nat \<Rightarrow>
    (nat \<times> nat \<times> nat) option" where
  "next_mem_range mb nid ta tb idx =
     next_loop mb (if nid = MAX_NUMNODES then NUMA_NO_NODE else nid) (regions ta)
       (map_option regions tb) (idx_a_of idx) (idx_b_of idx)"

function next_scan_b_rev :: "memblock_region list \<Rightarrow> nat \<Rightarrow> nat \<Rightarrow> int \<Rightarrow> int \<times> (nat \<times> nat) option" where
  "next_scan_b_rev rs m_start m_end b =
     (if 0 \<le> b then
        let r_start = gap_start rs b; r_end = gap_end rs b in
        if r_end \<le> m_start then (b, None)
        else if m_end > r_start then (b, Some (r_start, r_end))
        else next_scan_b_rev rs m_start m_end (b - 1)
      else (b, None))"
  by pat_completeness auto
termination
  by (relation "measure (\<lambda>(rs, s, e, b). nat (b + 1))") auto

function next_loop_rev :: "memblock \<Rightarrow> int \<Rightarrow> memblock_region list \<Rightarrow> memblock_region list \<Rightarrow>
    int \<Rightarrow> int \<Rightarrow> (nat \<times> nat \<times> nat) option" where
  "next_loop_rev mb nid rsa rs a b =
     (if 0 \<le> a then
        let m = rsa ! nat a; m_start = mr_base m; m_end = region_end m in
        if nid \<noteq> NUMA_NO_NODE \<and> nid \<noteq> memblock_get_region_node m then
          next_loop_rev mb nid rsa rs (a - 1) b
        else if movable_node_is_enabled mb \<and> memblock_is_hotpluggable mb m then
          next_loop_rev mb nid rsa rs (a - 1) b
        else
           (case next_scan_b_rev rs m_start m_end b of
              (b', Some (r_start, r_end)) \<Rightarrow>
                Some (if m_start \<ge> r_start then pack_idx (a - 1) b' else pack_idx a (b' - 1),
                      max m_start r_start, min m_end r_end)
            | (b', None) \<Rightarrow> next_loop_rev mb nid rsa rs (a - 1) b')
      else None)"
  by pat_completeness auto
termination
  by (relation "measure (\<lambda>(mb, nid, rsa, rs, a, b). nat (a + 1))") auto

text \<open>
  \<^verbatim>\<open>__next_mem_range_rev\<close>, for a non-null \<^verbatim>\<open>type_b\<close> (all callers pass one; the code reads
  \<^verbatim>\<open>type_b->cnt\<close> before its own null test).
\<close>

definition next_mem_range_rev :: "memblock \<Rightarrow> int \<Rightarrow> memblock_type \<Rightarrow> memblock_type \<Rightarrow> nat \<Rightarrow>
    (nat \<times> nat \<times> nat) option" where
  "next_mem_range_rev mb nid ta tb idx =
     next_loop_rev mb (if nid = MAX_NUMNODES then NUMA_NO_NODE else nid) (regions ta) (regions tb)
       (if idx = ULLONG_MAX then int (cnt ta) - 1 else idx_a_of idx)
       (if idx = ULLONG_MAX then int (cnt tb) else idx_b_of idx)"

subsection \<open>Finding a free area\<close>

partial_function (option) find_bottom_up_loop :: "memblock \<Rightarrow> nat \<Rightarrow> nat \<Rightarrow> nat \<Rightarrow> nat \<Rightarrow> int \<Rightarrow>
    nat \<Rightarrow> nat option" where
  "find_bottom_up_loop mb start end sz align nid i =
     (case next_mem_range mb nid (memory mb) (Some (reserved mb)) i of
        None \<Rightarrow> Some 0
      | Some (i', s, e) \<Rightarrow>
          if i' = ULLONG_MAX then Some 0
          else let this_start = clamp s start end; this_end = clamp e start end;
                   cand = round_up this_start align
               in if cand < this_end \<and> sub64 this_end cand \<ge> sz then Some cand
                  else find_bottom_up_loop mb start end sz align nid i')"

declare find_bottom_up_loop.simps [code]

definition memblock_find_range_bottom_up ::
    "memblock \<Rightarrow> nat \<Rightarrow> nat \<Rightarrow> nat \<Rightarrow> nat \<Rightarrow> int \<Rightarrow> nat option" where
  "memblock_find_range_bottom_up mb start end sz align nid =
     find_bottom_up_loop mb start end sz align nid 0"

partial_function (option) find_top_down_loop :: "memblock \<Rightarrow> nat \<Rightarrow> nat \<Rightarrow> nat \<Rightarrow> nat \<Rightarrow> int \<Rightarrow>
    nat \<Rightarrow> nat option" where
  "find_top_down_loop mb start end sz align nid i =
     (case next_mem_range_rev mb nid (memory mb) (reserved mb) i of
        None \<Rightarrow> Some 0
      | Some (i', s, e) \<Rightarrow>
          if i' = ULLONG_MAX then Some 0
          else let this_start = clamp s start end; this_end = clamp e start end
               in if this_end < sz then find_top_down_loop mb start end sz align nid i'
                  else let cand = round_down (sub64 this_end sz) align
                       in if cand \<ge> this_start then Some cand
                          else find_top_down_loop mb start end sz align nid i')"

declare find_top_down_loop.simps [code]

definition memblock_find_range_top_down ::
    "memblock \<Rightarrow> nat \<Rightarrow> nat \<Rightarrow> nat \<Rightarrow> nat \<Rightarrow> int \<Rightarrow> nat option" where
  "memblock_find_range_top_down mb start end sz align nid =
     find_top_down_loop mb start end sz align nid ULLONG_MAX"

definition memblock_find_in_range_node ::
    "memblock_env \<Rightarrow> memblock \<Rightarrow> nat \<Rightarrow> nat \<Rightarrow> nat \<Rightarrow> nat \<Rightarrow> int \<Rightarrow> nat option" where
  "memblock_find_in_range_node env mb sz align start0 end0 nid =
     (let end1 = (if end0 = MEMBLOCK_ALLOC_ACCESSIBLE then current_limit mb else end0);
          start = max start0 PAGE_SIZE;
          end = max start end1
      in if memblock_bottom_up mb \<and> end > kernel_end env then
           case memblock_find_range_bottom_up mb (max start (kernel_end env)) end sz align nid of
             None \<Rightarrow> None
           | Some ret \<Rightarrow> if ret \<noteq> 0 then Some ret
                         else memblock_find_range_top_down mb start end sz align nid
         else memblock_find_range_top_down mb start end sz align nid)"

definition memblock_find_in_range ::
    "memblock_env \<Rightarrow> memblock \<Rightarrow> nat \<Rightarrow> nat \<Rightarrow> nat \<Rightarrow> nat \<Rightarrow> nat option" where
  "memblock_find_in_range env mb start end sz align =
     memblock_find_in_range_node env mb sz align start end NUMA_NO_NODE"

subsection \<open>Growing, adding and removing\<close>

text \<open>
  \<^verbatim>\<open>memblock_double_array\<close> calls back into \<^verbatim>\<open>memblock_reserve\<close> and \<^verbatim>\<open>memblock_free\<close>, which
  may need to grow an array themselves. The routines that grow are therefore written over the
  growing routine they call, and the knot is tied with fuel at the end.
\<close>

type_synonym grow = "mtype \<Rightarrow> nat \<Rightarrow> nat \<Rightarrow> memblock \<Rightarrow> (int \<times> memblock) outcome"

text \<open>The size of \<^verbatim>\<open>struct memblock_region\<close>.\<close>

definition sizeof_region :: nat where "sizeof_region = 24"

text \<open>The \<^verbatim>\<open>while (... > type->max) if (memblock_double_array(...) < 0) return -ENOMEM\<close> loops.\<close>

fun make_room :: "nat \<Rightarrow> grow \<Rightarrow> mtype \<Rightarrow> nat \<Rightarrow> nat \<Rightarrow> nat \<Rightarrow> memblock \<Rightarrow> (int \<times> memblock) outcome" where
  "make_room 0 dbl ty nr base sz mb = NoFuel"
| "make_room (Suc fuel) dbl ty nr base sz mb =
     (if cnt (get_type ty mb) + nr > max_regions (get_type ty mb) then
        obind (dbl ty base sz mb)
          (\<lambda>(ret, mb'). if ret < 0 then Return (- ENOMEM, mb')
                         else make_room fuel dbl ty nr base sz mb')
      else Return (0, mb))"

text \<open>The scan of \<^verbatim>\<open>memblock_add_range\<close>: index, remaining base, number of new regions, array.\<close>

function add_loop :: "bool \<Rightarrow> nat \<Rightarrow> 64 word \<Rightarrow> nat \<Rightarrow> nat \<Rightarrow> nat \<Rightarrow> memblock_type \<Rightarrow>
    (nat \<times> nat \<times> nat \<times> memblock_type) outcome" where
  "add_loop ins end flags i base nr t =
     (if i < cnt t then
        let rbase = mr_base (regions t ! i); rend = region_end (regions t ! i) in
        if rbase \<ge> end then Return (i, base, nr, t)
        else if rend \<le> base then add_loop ins end flags (Suc i) base nr t
        else if rbase > base then
          if ins then
            obind (memblock_insert_region i base (sub64 rbase base) flags t)
              (\<lambda>t'. add_loop ins end flags (Suc (Suc i)) (min rend end) (Suc nr) t')
          else add_loop ins end flags (Suc i) (min rend end) (Suc nr) t
        else add_loop ins end flags (Suc i) (min rend end) nr t
      else Return (i, base, nr, t))"
  by pat_completeness auto
termination
  by (relation "measure (\<lambda>(ins, end, flags, i, base, nr, t). cnt t - i)")
    (auto simp: memblock_insert_region_def split: if_splits)

text \<open>One round of the scan, with the insertion of the remaining portion: count and array.\<close>

definition add_round :: "bool \<Rightarrow> nat \<Rightarrow> nat \<Rightarrow> 64 word \<Rightarrow> memblock_type \<Rightarrow>
    (nat \<times> memblock_type) outcome" where
  "add_round ins obase end flags t =
     obind (add_loop ins end flags 0 obase 0 t) (\<lambda>(i, base, nr, t').
       if base < end then
         if ins then obind (memblock_insert_region i base (sub64 end base) flags t')
                       (\<lambda>t''. Return (Suc nr, t''))
         else Return (Suc nr, t')
       else Return (nr, t'))"

definition memblock_add_range_with :: "nat \<Rightarrow> grow \<Rightarrow> mtype \<Rightarrow> nat \<Rightarrow> nat \<Rightarrow> int \<Rightarrow> 64 word \<Rightarrow>
    memblock \<Rightarrow> (int \<times> memblock) outcome" where
  "memblock_add_range_with fuel dbl ty base sz0 nid flags mb =
     (let sz = memblock_cap_size base sz0; end = add64 base sz; t = get_type ty mb in
      if sz = 0 then Return (0, mb)
      else if mr_size (regions t ! 0) = 0 then
        Return (0, set_type ty (t\<lparr>regions := (regions t)[0 := \<lparr>mr_base = base, mr_size = sz,
                                   mr_flags = flags\<rparr>], total_size := sz\<rparr>) mb)
      else
        obind (add_round False base end flags t) (\<lambda>(nr_new, _).
        obind (make_room fuel dbl ty nr_new base sz mb) (\<lambda>(ret, mb1).
          if ret < 0 then Return (ret, mb1)
          else
            obind (add_round True base end flags (get_type ty mb1)) (\<lambda>(_, t1).
            obind (memblock_merge_regions t1) (\<lambda>t2.
            Return (0, set_type ty t2 mb1))))))"

text \<open>
  The scan of \<^verbatim>\<open>memblock_isolate_range\<close>. The weight below bounds the remaining iterations: a
  region that sticks out of the range on either side is split once per side.
\<close>

definition iso_weight :: "nat \<Rightarrow> nat \<Rightarrow> memblock_region \<Rightarrow> nat" where
  "iso_weight base end r =
     1 + (if mr_base r < base then 1 else 0)
       + (if mr_base r < end \<and> region_end r > end then 2 else 0)"

definition iso_lower :: "nat \<Rightarrow> memblock_region \<Rightarrow> memblock_region" where
  "iso_lower c r = \<lparr>mr_base = mr_base r, mr_size = sub64 c (mr_base r), mr_flags = mr_flags r\<rparr>"

definition iso_upper :: "nat \<Rightarrow> memblock_region \<Rightarrow> memblock_region" where
  "iso_upper c r = r\<lparr>mr_base := c, mr_size := sub64 (mr_size r) (sub64 c (mr_base r))\<rparr>"

text \<open>Cut region \<open>i\<close> at \<open>c\<close>: shrink it to its upper part and insert the lower part before it.\<close>

definition iso_split :: "nat \<Rightarrow> nat \<Rightarrow> memblock_type \<Rightarrow> memblock_type outcome" where
  "iso_split i c t =
     (let r = regions t ! i; d = sub64 c (mr_base r)
      in memblock_insert_region i (mr_base r) d (mr_flags r)
           (t\<lparr>regions := (regions t)[i := iso_upper c r], total_size := sub64 (total_size t) d\<rparr>))"

lemma region_end_iso_upper [simp]: "region_end (iso_upper c r) = region_end r"
proof -
  have "int (region_end (iso_upper c r)) = int (region_end r)"
    by (simp add: iso_upper_def int_add64 int_sub64 mod_simps algebra_simps)
  then show ?thesis by (simp only: of_nat_eq_iff)
qed

lemma region_end_iso_lower: "region_end (iso_lower c r) = c mod 2 ^ 64"
  by (simp add: iso_lower_def add64_sub64_cancel)

lemma iso_split_regions:
  assumes "iso_split i c t = Return t'" and "i < cnt t"
  shows "regions t' = take i (regions t) @ iso_lower c (regions t ! i) #
           iso_upper c (regions t ! i) # drop (Suc i) (regions t)"
    and "max_regions t' = max_regions t" and "cnt t < max_regions t"
  using assms
  by (auto simp: iso_split_def Let_def memblock_insert_region_def insert_at_def iso_lower_def
      drop_update_swap Cons_nth_drop_Suc [symmetric] drop_Suc_Cons take_update_swap
      upd_conv_take_nth_drop split: if_splits)

function isolate_loop :: "nat \<Rightarrow> nat \<Rightarrow> nat \<Rightarrow> nat \<Rightarrow> nat \<Rightarrow> memblock_type \<Rightarrow>
    (nat \<times> nat \<times> memblock_type) outcome" where
  "isolate_loop base end i start_rgn end_rgn t =
     (if i < cnt t then
        let rbase = mr_base (regions t ! i); rend = region_end (regions t ! i) in
        if rbase \<ge> end then Return (start_rgn, end_rgn, t)
        else if rend \<le> base then isolate_loop base end (Suc i) start_rgn end_rgn t
        else if rbase < base then
          obind (iso_split i base t) (\<lambda>t'. isolate_loop base end (Suc i) start_rgn end_rgn t')
        else if rend > end then
          obind (iso_split i end t) (\<lambda>t'. isolate_loop base end i start_rgn end_rgn t')
        else isolate_loop base end (Suc i) (if end_rgn = 0 then i else start_rgn) (Suc i) t
      else Return (start_rgn, end_rgn, t))"
  by pat_completeness auto
termination
proof (relation "measure (\<lambda>(base, end, i, s, e, t).
         sum_list (map (iso_weight base end) (drop i (regions t))))", goal_cases)
  case 1
  show ?case by simp
next
  case (2 base "end" i start_rgn end_rgn t)
  then show ?case by (simp add: Cons_nth_drop_Suc [symmetric] iso_weight_def)
next
  case (3 base "end" i start_rgn end_rgn t rbase rend t')
  then show ?case
    by (simp add: Cons_nth_drop_Suc [symmetric] iso_split_regions iso_weight_def)
      (simp add: iso_upper_def)
next
  case (4 base "end" i start_rgn end_rgn t rbase rend t')
  then show ?case
    by (simp add: Cons_nth_drop_Suc [symmetric] iso_split_regions iso_weight_def
        region_end_iso_lower) (simp add: iso_upper_def iso_lower_def not_less)
next
  case (5 base "end" i start_rgn end_rgn t)
  then show ?case by (simp add: Cons_nth_drop_Suc [symmetric] iso_weight_def)
qed

definition memblock_isolate_range_with :: "nat \<Rightarrow> grow \<Rightarrow> mtype \<Rightarrow> nat \<Rightarrow> nat \<Rightarrow> memblock \<Rightarrow>
    (int \<times> nat \<times> nat \<times> memblock) outcome" where
  "memblock_isolate_range_with fuel dbl ty base sz0 mb =
     (let sz = memblock_cap_size base sz0; end = add64 base sz in
      if sz = 0 then Return (0, 0, 0, mb)
      else
        obind (make_room fuel dbl ty 2 base sz mb) (\<lambda>(ret, mb1).
          if ret < 0 then Return (ret, 0, 0, mb1)
          else
            obind (isolate_loop base end 0 0 0 (get_type ty mb1)) (\<lambda>(s, e, t).
            Return (0, s, e, set_type ty t mb1))))"

text \<open>\<open>remove_down n s t\<close> removes the regions \<open>s + n - 1\<close> down to \<open>s\<close>.\<close>

fun remove_down :: "nat \<Rightarrow> nat \<Rightarrow> memblock_type \<Rightarrow> memblock_type" where
  "remove_down 0 s t = t"
| "remove_down (Suc n) s t = remove_down n s (memblock_remove_region (s + n) t)"

definition memblock_remove_range_with :: "nat \<Rightarrow> grow \<Rightarrow> mtype \<Rightarrow> nat \<Rightarrow> nat \<Rightarrow> memblock \<Rightarrow>
    (int \<times> memblock) outcome" where
  "memblock_remove_range_with fuel dbl ty base sz mb =
     obind (memblock_isolate_range_with fuel dbl ty base sz mb) (\<lambda>(ret, s, e, mb1).
       if ret \<noteq> 0 then Return (ret, mb1)
       else Return (0, set_type ty (remove_down (e - s) s (get_type ty mb1)) mb1))"

definition record_reservation :: "memblock_env \<Rightarrow> nat \<Rightarrow> nat \<Rightarrow> 64 word \<Rightarrow> memblock \<Rightarrow> memblock" where
  "record_reservation env base sz flags mb =
     (if length (memblock_records mb) < MAX_MEMBLOCK_RECORD then
        mb\<lparr>memblock_records := memblock_records mb @
             [\<lparr>rec_base = base, rec_end = sub64 (add64 base sz) 1, rec_size = sz,
               rec_flags = flags, rec_ip = ret_ip env\<rparr>]\<rparr>
      else mb\<lparr>memblock_not_record := memblock_not_record mb + 1\<rparr>)"

definition memblock_reserve_region_with :: "memblock_env \<Rightarrow> nat \<Rightarrow> grow \<Rightarrow> nat \<Rightarrow> nat \<Rightarrow> int \<Rightarrow>
    64 word \<Rightarrow> memblock \<Rightarrow> (int \<times> memblock) outcome" where
  "memblock_reserve_region_with env fuel dbl base sz nid flags mb =
     memblock_add_range_with fuel dbl Reserved base sz nid flags
       (record_reservation env base sz flags mb)"

definition outcome_of_find :: "nat option \<Rightarrow> nat outcome" where
  "outcome_of_find r = (case r of None \<Rightarrow> NoFuel | Some a \<Rightarrow> Return a)"

text \<open>The address of the new array, 0 when there is none.\<close>

definition double_find :: "memblock_env \<Rightarrow> mtype \<Rightarrow> nat \<Rightarrow> nat \<Rightarrow> nat \<Rightarrow> nat \<Rightarrow> memblock \<Rightarrow>
    nat outcome" where
  "double_find env ty new_area_start0 new_area_size0 new_size new_alloc_size mb =
     (if slab_is_available env then Return (kmalloc_pa env new_size)
      else
        let new_area_start = (if ty \<noteq> Reserved then 0 else new_area_start0);
            new_area_size = (if ty \<noteq> Reserved then 0 else new_area_size0) in
        obind (outcome_of_find (memblock_find_in_range env mb (add64 new_area_start new_area_size)
                 (current_limit mb) new_alloc_size PAGE_SIZE)) (\<lambda>addr.
          if addr = 0 \<and> new_area_size \<noteq> 0 then
            outcome_of_find (memblock_find_in_range env mb 0
              (min new_area_start (current_limit mb)) new_alloc_size PAGE_SIZE)
          else Return addr))"

definition in_slab :: "mtype \<Rightarrow> memblock \<Rightarrow> bool" where
  "in_slab ty mb = (case ty of Memory \<Rightarrow> memblock_memory_in_slab mb
                             | Reserved \<Rightarrow> memblock_reserved_in_slab mb)"

definition set_in_slab :: "mtype \<Rightarrow> bool \<Rightarrow> memblock \<Rightarrow> memblock" where
  "set_in_slab ty v mb = (case ty of Memory \<Rightarrow> mb\<lparr>memblock_memory_in_slab := v\<rparr>
                                   | Reserved \<Rightarrow> mb\<lparr>memblock_reserved_in_slab := v\<rparr>)"

definition memblock_double_array ::
    "memblock_env \<Rightarrow> (nat \<Rightarrow> nat \<Rightarrow> memblock \<Rightarrow> (int \<times> memblock) outcome) \<Rightarrow>
     (nat \<Rightarrow> nat \<Rightarrow> memblock \<Rightarrow> (int \<times> memblock) outcome) \<Rightarrow> grow" where
  "memblock_double_array env free reserve ty new_area_start new_area_size mb =
     (if \<not> memblock_can_resize mb then Return (-1, mb)
      else
        let t = get_type ty mb;
            old_size = (max_regions t * sizeof_region) mod 2 ^ 64;
            new_size = shl64 old_size 1;
            old_alloc_size = PAGE_ALIGN old_size;
            new_alloc_size = PAGE_ALIGN new_size in
        obind (double_find env ty new_area_start new_area_size new_size new_alloc_size mb) (\<lambda>addr.
          if addr = 0 then Return (-1, mb)
          else
            let mb1 = set_type ty (t\<lparr>region_array := ArrayAt addr,
                                     max_regions := shl64 (max_regions t) 1\<rparr>) mb in
            obind (if in_slab ty mb then Return (0, mb1)
                   else case region_array t of
                          StaticArray \<Rightarrow> Return (0, mb1)
                        | ArrayAt pa \<Rightarrow> free pa old_alloc_size mb1) (\<lambda>(_, mb2).
            obind (if slab_is_available env then Return mb2
                   else obind (reserve addr new_alloc_size mb2) (\<lambda>(ret, mb3).
                          if ret \<noteq> 0 then Bug else Return mb3)) (\<lambda>mb4.
            Return (0, set_in_slab ty (slab_is_available env) mb4)))))"

text \<open>Tying the knot: \<open>fuel\<close> bounds the nesting of array growths and their retries.\<close>

fun double_fuel :: "nat \<Rightarrow> memblock_env \<Rightarrow> grow" where
  "double_fuel 0 env = (\<lambda>ty s z mb. NoFuel)"
| "double_fuel (Suc fuel) env =
     memblock_double_array env
       (memblock_remove_range_with fuel (double_fuel fuel env) Reserved)
       (\<lambda>base sz. memblock_reserve_region_with env fuel (double_fuel fuel env) base sz MAX_NUMNODES 0)"

subsection \<open>The interface\<close>

definition memblock_add_range :: "nat \<Rightarrow> memblock_env \<Rightarrow> mtype \<Rightarrow> nat \<Rightarrow> nat \<Rightarrow> int \<Rightarrow> 64 word \<Rightarrow>
    memblock \<Rightarrow> (int \<times> memblock) outcome" where
  "memblock_add_range fuel env = memblock_add_range_with fuel (double_fuel fuel env)"

definition memblock_add_node where
  "memblock_add_node fuel env base sz nid mb = memblock_add_range fuel env Memory base sz nid 0 mb"

definition memblock_add where
  "memblock_add fuel env base sz mb = memblock_add_range fuel env Memory base sz MAX_NUMNODES 0 mb"

definition memblock_isolate_range where
  "memblock_isolate_range fuel env = memblock_isolate_range_with fuel (double_fuel fuel env)"

definition memblock_remove_range where
  "memblock_remove_range fuel env = memblock_remove_range_with fuel (double_fuel fuel env)"

definition memblock_remove where
  "memblock_remove fuel env base sz mb = memblock_remove_range fuel env Memory base sz mb"

definition memblock_free where
  "memblock_free fuel env base sz mb = memblock_remove_range fuel env Reserved base sz mb"

definition memblock_reserve_region where
  "memblock_reserve_region fuel env = memblock_reserve_region_with env fuel (double_fuel fuel env)"

definition memblock_reserve where
  "memblock_reserve fuel env base sz mb = memblock_reserve_region fuel env base sz MAX_NUMNODES 0 mb"

text \<open>Applying a change to the regions \<open>s\<close> to \<open>e - 1\<close>.\<close>

fun map_range :: "nat \<Rightarrow> nat \<Rightarrow> ('a \<Rightarrow> 'a) \<Rightarrow> 'a list \<Rightarrow> 'a list" where
  "map_range s e f [] = []"
| "map_range s e f (x # xs) =
     (if s = 0 then if e = 0 then x # xs else f x # map_range 0 (e - 1) f xs
      else x # map_range (s - 1) (e - 1) f xs)"

definition memblock_change_flags_with :: "(memblock_region \<Rightarrow> memblock_region) \<Rightarrow> nat \<Rightarrow> grow \<Rightarrow>
    nat \<Rightarrow> nat \<Rightarrow> memblock \<Rightarrow> (int \<times> memblock) outcome" where
  "memblock_change_flags_with f fuel dbl base sz mb =
     obind (memblock_isolate_range_with fuel dbl Memory base sz mb) (\<lambda>(ret, s, e, mb1).
       if ret \<noteq> 0 then Return (ret, mb1)
       else
         let t = memory mb1 in
         obind (memblock_merge_regions (t\<lparr>regions := map_range s e f (regions t)\<rparr>)) (\<lambda>t'.
         Return (0, mb1\<lparr>memory := t'\<rparr>)))"

definition memblock_change_flags :: "(memblock_region \<Rightarrow> memblock_region) \<Rightarrow> nat \<Rightarrow> memblock_env \<Rightarrow>
    nat \<Rightarrow> nat \<Rightarrow> memblock \<Rightarrow> (int \<times> memblock) outcome" where
  "memblock_change_flags f fuel env = memblock_change_flags_with f fuel (double_fuel fuel env)"

definition memblock_mark_hotplug where
  "memblock_mark_hotplug = memblock_change_flags (memblock_set_region_flags MEMBLOCK_HOTPLUG)"

definition memblock_clear_hotplug where
  "memblock_clear_hotplug = memblock_change_flags (memblock_clear_region_flags MEMBLOCK_HOTPLUG)"

definition memblock_alloc_range_nid :: "nat \<Rightarrow> memblock_env \<Rightarrow> nat \<Rightarrow> nat \<Rightarrow> nat \<Rightarrow> nat \<Rightarrow> int \<Rightarrow>
    memblock \<Rightarrow> (nat \<times> memblock) outcome" where
  "memblock_alloc_range_nid fuel env sz align0 start end nid mb =
     (let align = (if align0 = 0 then SMP_CACHE_BYTES else align0) in
      obind (outcome_of_find (memblock_find_in_range_node env mb sz align start end nid)) (\<lambda>found.
        if found \<noteq> 0 then
          obind (memblock_reserve fuel env found sz mb) (\<lambda>(ret, mb').
            if ret = 0 then Return (found, mb') else Return (0, mb'))
        else Return (0, mb)))"

definition memblock_alloc_range where
  "memblock_alloc_range fuel env sz align start end mb =
     memblock_alloc_range_nid fuel env sz align start end NUMA_NO_NODE mb"

definition memblock_alloc_base_nid where
  "memblock_alloc_base_nid fuel env sz align max_addr nid mb =
     memblock_alloc_range_nid fuel env sz align 0 max_addr nid mb"

definition memblock_alloc_nid where
  "memblock_alloc_nid fuel env sz align nid mb =
     memblock_alloc_base_nid fuel env sz align MEMBLOCK_ALLOC_ACCESSIBLE nid mb"

text \<open>\<^verbatim>\<open>__memblock_alloc_base\<close>, then the panicking \<^verbatim>\<open>memblock_alloc_base\<close>.\<close>

definition memblock_alloc_base_quiet :: "nat \<Rightarrow> memblock_env \<Rightarrow> nat \<Rightarrow> nat \<Rightarrow> nat \<Rightarrow> memblock \<Rightarrow>
    (nat \<times> memblock) outcome" where
  "memblock_alloc_base_quiet fuel env sz align max_addr mb =
     memblock_alloc_base_nid fuel env sz align max_addr NUMA_NO_NODE mb"

definition memblock_alloc_base :: "nat \<Rightarrow> memblock_env \<Rightarrow> nat \<Rightarrow> nat \<Rightarrow> nat \<Rightarrow> memblock \<Rightarrow>
    (nat \<times> memblock) outcome" where
  "memblock_alloc_base fuel env sz align max_addr mb =
     obind (memblock_alloc_base_quiet fuel env sz align max_addr mb) (\<lambda>(alloc, mb').
       if alloc = 0 then Panic else Return (alloc, mb'))"

definition memblock_alloc where
  "memblock_alloc fuel env sz align mb = memblock_alloc_base fuel env sz align MEMBLOCK_ALLOC_ACCESSIBLE mb"

definition memblock_alloc_try_nid :: "nat \<Rightarrow> memblock_env \<Rightarrow> nat \<Rightarrow> nat \<Rightarrow> int \<Rightarrow> memblock \<Rightarrow>
    (nat \<times> memblock) outcome" where
  "memblock_alloc_try_nid fuel env sz align nid mb =
     obind (memblock_alloc_nid fuel env sz align nid mb) (\<lambda>(res, mb').
       if res \<noteq> 0 then Return (res, mb')
       else memblock_alloc_base fuel env sz align MEMBLOCK_ALLOC_ACCESSIBLE mb')"

text \<open>
  \<^verbatim>\<open>memblock_virt_alloc_internal\<close>, with the block's physical address for its virtual one (the
  kernel's linear map) and without the clearing of the block's contents. The search tries the
  requested node, then any node, then both again without the lower bound.
\<close>

definition virt_alloc_find :: "memblock_env \<Rightarrow> nat \<Rightarrow> nat \<Rightarrow> nat \<Rightarrow> nat \<Rightarrow> int \<Rightarrow> memblock \<Rightarrow> nat outcome" where
  "virt_alloc_find env sz align min_addr max_addr nid mb =
     obind (outcome_of_find (memblock_find_in_range_node env mb sz align min_addr max_addr nid)) (\<lambda>alloc.
       if alloc \<noteq> 0 then Return alloc
       else if nid \<noteq> NUMA_NO_NODE then
         outcome_of_find (memblock_find_in_range_node env mb sz align min_addr max_addr NUMA_NO_NODE)
       else Return 0)"

definition memblock_virt_alloc_internal :: "nat \<Rightarrow> memblock_env \<Rightarrow> nat \<Rightarrow> nat \<Rightarrow> nat \<Rightarrow> nat \<Rightarrow> int \<Rightarrow>
    memblock \<Rightarrow> (nat \<times> memblock) outcome" where
  "memblock_virt_alloc_internal fuel env sz align0 min_addr max_addr0 nid0 mb =
     (let nid = (if nid0 = MAX_NUMNODES then NUMA_NO_NODE else nid0) in
      if slab_is_available env then Return (kzalloc_node_pa env sz nid, mb)
      else
        let align = (if align0 = 0 then SMP_CACHE_BYTES else align0);
            max_addr = (if max_addr0 > current_limit mb then current_limit mb else max_addr0) in
        obind (virt_alloc_find env sz align min_addr max_addr nid mb) (\<lambda>alloc1.
        obind (if alloc1 = 0 \<and> min_addr \<noteq> 0
               then virt_alloc_find env sz align 0 max_addr nid mb
               else Return alloc1) (\<lambda>alloc.
          if alloc = 0 then Return (0, mb)
          else obind (memblock_reserve fuel env alloc sz mb) (\<lambda>(_, mb'). Return (alloc, mb')))))"

definition memblock_virt_alloc_try_nid_nopanic where
  "memblock_virt_alloc_try_nid_nopanic fuel env sz align min_addr max_addr nid mb =
     memblock_virt_alloc_internal fuel env sz align min_addr max_addr nid mb"

definition memblock_virt_alloc_try_nid :: "nat \<Rightarrow> memblock_env \<Rightarrow> nat \<Rightarrow> nat \<Rightarrow> nat \<Rightarrow> nat \<Rightarrow> int \<Rightarrow>
    memblock \<Rightarrow> (nat \<times> memblock) outcome" where
  "memblock_virt_alloc_try_nid fuel env sz align min_addr max_addr nid mb =
     obind (memblock_virt_alloc_internal fuel env sz align min_addr max_addr nid mb) (\<lambda>(ptr, mb').
       if ptr \<noteq> 0 then Return (ptr, mb') else Panic)"

text \<open>\<^verbatim>\<open>__memblock_free_early\<close>, without the leak tracker's bookkeeping.\<close>

definition memblock_free_early where
  "memblock_free_early fuel env base sz mb =
     obind (memblock_remove_range fuel env Reserved base sz mb) (\<lambda>(_, mb'). Return mb')"

subsection \<open>Queries, limits and trimming\<close>

text \<open>
  \<^verbatim>\<open>get_allocated_memblock_reserved_regions_info\<close> and its twin for the memory array: size and
  address of a region array that is not the static one, the size 0 for the static one.
\<close>

definition get_allocated_memblock_regions_info :: "mtype \<Rightarrow> memblock \<Rightarrow> nat \<times> nat option" where
  "get_allocated_memblock_regions_info ty mb =
     (case region_array (get_type ty mb) of
        StaticArray \<Rightarrow> (0, None)
      | ArrayAt pa \<Rightarrow> (PAGE_ALIGN ((sizeof_region * max_regions (get_type ty mb)) mod 2 ^ 64), Some pa))"

definition memblock_get_current_limit :: "memblock \<Rightarrow> nat" where
  "memblock_get_current_limit mb = current_limit mb"

definition memblock_phys_mem_size :: "memblock \<Rightarrow> nat" where
  "memblock_phys_mem_size mb = total_size (memory mb)"

definition PFN_UP :: "nat \<Rightarrow> nat" where
  "PFN_UP x = add64 x (PAGE_SIZE - 1) div PAGE_SIZE"

definition PFN_DOWN :: "nat \<Rightarrow> nat" where
  "PFN_DOWN x = x div PAGE_SIZE"

definition memblock_mem_size :: "nat \<Rightarrow> memblock \<Rightarrow> nat" where
  "memblock_mem_size limit_pfn mb =
     shl64 (fold (\<lambda>r pages.
               let start_pfn = min (PFN_UP (mr_base r)) limit_pfn;
                   end_pfn = min (PFN_DOWN (region_end r)) limit_pfn
               in add64 pages (sub64 end_pfn start_pfn)) (regions (memory mb)) 0) 12"

definition memblock_start_of_DRAM :: "memblock \<Rightarrow> nat" where
  "memblock_start_of_DRAM mb = mr_base (regions (memory mb) ! 0)"

definition memblock_end_of_DRAM :: "memblock \<Rightarrow> nat" where
  "memblock_end_of_DRAM mb = region_end (regions (memory mb) ! (cnt (memory mb) - 1))"

fun limit_addr :: "nat \<Rightarrow> memblock_region list \<Rightarrow> nat" where
  "limit_addr limit [] = ULLONG_MAX"
| "limit_addr limit (r # rs) =
     (if limit \<le> mr_size r then add64 (mr_base r) limit
      else limit_addr (sub64 limit (mr_size r)) rs)"

definition memblock_enforce_memory_limit :: "nat \<Rightarrow> memblock_env \<Rightarrow> nat \<Rightarrow> memblock \<Rightarrow> memblock outcome" where
  "memblock_enforce_memory_limit fuel env limit mb =
     (if limit = 0 then Return mb
      else
        let max_addr = limit_addr limit (regions (memory mb)) in
        obind (memblock_remove_range fuel env Memory max_addr ULLONG_MAX mb) (\<lambda>(_, mb1).
        obind (memblock_remove_range fuel env Reserved max_addr ULLONG_MAX mb1) (\<lambda>(_, mb2).
        Return mb2)))"

text \<open>
  The binary search. It is a \<^verbatim>\<open>do ... while\<close> loop: the first probe happens before any test. The
  \<^verbatim>\<open>unsigned int\<close> indices do not wrap, since an array of 24-byte entries with \<^verbatim>\<open>2^31\<close> of them
  does not exist.
\<close>

function search_loop :: "memblock_region list \<Rightarrow> nat \<Rightarrow> nat \<Rightarrow> nat \<Rightarrow> int" where
  "search_loop rs addr left right =
     (let mid = (right + left) div 2 in
      if addr < mr_base (rs ! mid) then
        if left < mid then search_loop rs addr left mid else -1
      else if addr \<ge> region_end (rs ! mid) then
        if Suc mid < right then search_loop rs addr (Suc mid) right else -1
      else int mid)"
  by pat_completeness auto
termination
  by (relation "measure (\<lambda>(rs, addr, left, right). right - left)") auto

definition memblock_search :: "memblock_type \<Rightarrow> nat \<Rightarrow> int" where
  "memblock_search t addr = search_loop (regions t) addr 0 (cnt t)"

definition memblock_is_reserved :: "memblock \<Rightarrow> nat \<Rightarrow> bool" where
  "memblock_is_reserved mb addr \<longleftrightarrow> memblock_search (reserved mb) addr \<noteq> -1"

definition memblock_is_memory :: "memblock \<Rightarrow> nat \<Rightarrow> bool" where
  "memblock_is_memory mb addr \<longleftrightarrow> memblock_search (memory mb) addr \<noteq> -1"

definition memblock_is_region_memory :: "memblock \<Rightarrow> nat \<Rightarrow> nat \<Rightarrow> bool" where
  "memblock_is_region_memory mb base sz =
     (let idx = memblock_search (memory mb) base;
          end = add64 base (memblock_cap_size base sz);
          r = regions (memory mb) ! nat idx
      in idx \<noteq> -1 \<and> mr_base r \<le> base \<and> region_end r \<ge> end)"

definition memblock_is_region_reserved :: "memblock \<Rightarrow> nat \<Rightarrow> nat \<Rightarrow> bool" where
  "memblock_is_region_reserved mb base sz \<longleftrightarrow>
     memblock_overlaps_region (reserved mb) base (memblock_cap_size base sz) \<ge> 0"

lemma round_empty [simp]: "round_up 0 align = 0" "round_down 0 align = 0"
proof -
  have "((- 1 :: 64 word) OR w) = - 1" for w
    by (rule bit_word_eqI) (auto simp: bit_simps)
  then show "round_up 0 align = 0" by (simp add: round_up_def)
qed (simp add: round_down_def)

definition trim_weight :: "memblock_region \<Rightarrow> nat" where
  "trim_weight r = (if r = empty_region then 1 else 2)"

function trim_loop :: "nat \<Rightarrow> nat \<Rightarrow> memblock_type \<Rightarrow> memblock_type" where
  "trim_loop align i t =
     (if i < cnt t then
        let r = regions t ! i;
            start = round_up (mr_base r) align; end = round_down (region_end r) align in
        if start = mr_base r \<and> end = region_end r then trim_loop align (Suc i) t
        else if start < end then
          trim_loop align (Suc i)
            (t\<lparr>regions := (regions t)[i := r\<lparr>mr_base := start, mr_size := sub64 end start\<rparr>]\<rparr>)
        else trim_loop align i (memblock_remove_region i t)
      else t)"
  by pat_completeness auto
termination
proof (relation "measure (\<lambda>(align, i, t). sum_list (map trim_weight (drop i (regions t))))", goal_cases)
  case (4 align i t r start "end")
  then have "r \<noteq> empty_region" by (auto simp: empty_region_def add64_def)
  with 4 show ?case
    by (auto simp: memblock_remove_region_def Let_def remove_at_def trim_weight_def
        Cons_nth_drop_Suc [symmetric] drop_Cons' split: if_splits)
qed (auto simp: trim_weight_def Cons_nth_drop_Suc [symmetric])

definition memblock_trim_memory :: "nat \<Rightarrow> memblock \<Rightarrow> memblock" where
  "memblock_trim_memory align mb = mb\<lparr>memory := trim_loop align 0 (memory mb)\<rparr>"

definition memblock_set_current_limit :: "nat \<Rightarrow> memblock \<Rightarrow> memblock" where
  "memblock_set_current_limit limit mb = mb\<lparr>current_limit := limit\<rparr>"

definition memblock_allow_resize :: "memblock \<Rightarrow> memblock" where
  "memblock_allow_resize mb = mb\<lparr>memblock_can_resize := True\<rparr>"

text \<open>The loop equations unfold for ever as rewrite rules; proofs unfold them one step at a time.\<close>

declare overlaps_region_loop.simps [simp del]
declare merge_loop.simps [simp del]
declare next_scan_b.simps [simp del]
declare next_loop.simps [simp del]
declare next_scan_b_rev.simps [simp del]
declare next_loop_rev.simps [simp del]
declare add_loop.simps [simp del]
declare isolate_loop.simps [simp del]
declare search_loop.simps [simp del]
declare trim_loop.simps [simp del]

end
