(* ===== verification/Memblock_Inv.thy ===== *)
theory Memblock_Inv
  imports Memblock
begin

text \<open>
  The invariant of a region array, its meaning as a partial map from addresses to region flags,
  and the correctness of the scans of \<^verbatim>\<open>mm/memblock.c\<close> against list functions that state what
  the index arithmetic of the code computes.
\<close>

subsection \<open>Well-formed arrays and the map they stand for\<close>

definition region_ok :: "memblock_region \<Rightarrow> bool" where
  "region_ok r \<longleftrightarrow> 0 < mr_size r \<and> mr_base r + mr_size r < 2 ^ 64"

definition before :: "memblock_region \<Rightarrow> memblock_region \<Rightarrow> bool" where
  "before r s \<longleftrightarrow> mr_base r + mr_size r \<le> mr_base s"

definition wf_regions :: "memblock_region list \<Rightarrow> bool" where
  "wf_regions rs \<longleftrightarrow> (\<forall>r \<in> set rs. region_ok r) \<and> sorted_wrt before rs"

fun region_map :: "memblock_region list \<Rightarrow> nat \<Rightarrow> 64 word option" where
  "region_map [] a = None"
| "region_map (r # rs) a =
     (if mr_base r \<le> a \<and> a < mr_base r + mr_size r then Some (mr_flags r) else region_map rs a)"

definition sizes :: "memblock_region list \<Rightarrow> nat" where
  "sizes rs = sum_list (map mr_size rs)"

text \<open>No two neighbours that \<^verbatim>\<open>memblock_merge_regions\<close> would merge.\<close>

fun minimal :: "memblock_region list \<Rightarrow> bool" where
  "minimal (r # s # rs) \<longleftrightarrow>
     \<not> (mr_base r + mr_size r = mr_base s \<and> mr_flags r = mr_flags s) \<and> minimal (s # rs)"
| "minimal _ \<longleftrightarrow> True"

definition type_inv :: "memblock_type \<Rightarrow> bool" where
  "type_inv t \<longleftrightarrow>
     (regions t = [empty_region] \<or> regions t \<noteq> [] \<and> wf_regions (regions t) \<and> minimal (regions t)) \<and>
     total_size t = sizes (regions t) \<and> cnt t \<le> max_regions t"

definition type_map :: "memblock_type \<Rightarrow> nat \<Rightarrow> 64 word option" where
  "type_map t = region_map (regions t)"

lemma wf_regions_simps [simp]:
  "wf_regions []"
  "wf_regions (r # rs) \<longleftrightarrow> region_ok r \<and> (\<forall>s \<in> set rs. before r s) \<and> wf_regions rs"
  by (auto simp: wf_regions_def)

lemma wf_regions_append:
  "wf_regions (xs @ ys) \<longleftrightarrow> wf_regions xs \<and> wf_regions ys \<and> (\<forall>x \<in> set xs. \<forall>y \<in> set ys. before x y)"
  by (auto simp: wf_regions_def sorted_wrt_append)

lemma sizes_simps [simp]:
  "sizes [] = 0" "sizes (r # rs) = mr_size r + sizes rs" "sizes (xs @ ys) = sizes xs + sizes ys"
  by (auto simp: sizes_def)

lemma region_end_ok [wrap_simps]: "region_ok r \<Longrightarrow> region_end r = mr_base r + mr_size r"
  by (simp add: region_ok_def add64_eq)

lemma region_map_append:
  "region_map (xs @ ys) a = (case region_map xs a of Some f \<Rightarrow> Some f | None \<Rightarrow> region_map ys a)"
  by (induction xs) auto

lemma region_map_Some_iff:
  "region_map rs a \<noteq> None \<longleftrightarrow> (\<exists>r \<in> set rs. mr_base r \<le> a \<and> a < mr_base r + mr_size r)"
  by (induction rs) auto

lemma region_map_below:
  "\<forall>r \<in> set rs. a < mr_base r \<Longrightarrow> region_map rs a = None"
  by (induction rs) auto

lemma region_map_above:
  "\<forall>r \<in> set rs. mr_base r + mr_size r \<le> a \<Longrightarrow> region_map rs a = None"
  by (induction rs) auto

text \<open>Disjoint regions below \<open>2 ^ 64\<close>: their sizes add up to less than \<open>2 ^ 64\<close>.\<close>

lemma wf_sizes_le:
  "wf_regions rs \<Longrightarrow> \<forall>r \<in> set rs. lo \<le> mr_base r \<Longrightarrow> rs \<noteq> [] \<Longrightarrow>
    lo + sizes rs \<le> mr_base (last rs) + mr_size (last rs)"
proof (induction rs arbitrary: lo)
  case Nil
  then show ?case by simp
next
  case (Cons r rs)
  show ?case
  proof (cases "rs = []")
    case True
    with Cons.prems show ?thesis by simp
  next
    case False
    have "mr_base r + mr_size r + sizes rs \<le> mr_base (last rs) + mr_size (last rs)"
      using Cons.prems False by (intro Cons.IH) (auto simp: before_def)
    with Cons.prems False show ?thesis by auto
  qed
qed

lemma wf_sizes_lt: "wf_regions rs \<Longrightarrow> sizes rs < 2 ^ 64"
proof (cases "rs = []")
  case False
  assume wf: "wf_regions rs"
  then have "sizes rs \<le> mr_base (last rs) + mr_size (last rs)"
    using wf_sizes_le [of rs 0] False by simp
  also have "\<dots> < 2 ^ 64"
    using wf False by (auto simp: wf_regions_def region_ok_def dest: last_in_set)
  finally show ?thesis .
qed simp

subsection \<open>Adding a range\<close>

definition mk_region :: "nat \<Rightarrow> nat \<Rightarrow> 64 word \<Rightarrow> memblock_region" where
  "mk_region b e f = \<lparr>mr_base = b, mr_size = e - b, mr_flags = f\<rparr>"

lemma mk_region_simps [simp]:
  "mr_base (mk_region b e f) = b" "mr_size (mk_region b e f) = e - b" "mr_flags (mk_region b e f) = f"
  by (simp_all add: mk_region_def)

lemma region_ok_mk [simp]: "region_ok (mk_region b e f) \<longleftrightarrow> b < e \<and> e < 2 ^ 64"
  by (auto simp: region_ok_def)

text \<open>What a round of \<^verbatim>\<open>memblock_add_range\<close> makes of the array: the gaps below \<open>end\<close> are filled.\<close>

fun add_ref :: "nat \<Rightarrow> 64 word \<Rightarrow> nat \<Rightarrow> memblock_region list \<Rightarrow> memblock_region list" where
  "add_ref end flags base [] = (if base < end then [mk_region base end flags] else [])"
| "add_ref end flags base (r # rs) =
     (if mr_base r \<ge> end then
        if base < end then mk_region base end flags # r # rs else r # rs
      else if mr_base r + mr_size r \<le> base then r # add_ref end flags base rs
      else if mr_base r > base then
        mk_region base (mr_base r) flags # r # add_ref end flags (min (mr_base r + mr_size r) end) rs
      else r # add_ref end flags (min (mr_base r + mr_size r) end) rs)"

lemma add_ref_lower:
  "\<forall>r \<in> set rs. lo \<le> mr_base r \<Longrightarrow> lo \<le> base \<or> end \<le> base \<Longrightarrow> wf_regions rs \<Longrightarrow>
    \<forall>r \<in> set (add_ref end flags base rs). lo \<le> mr_base r"
proof (induction "end" flags base rs rule: add_ref.induct)
  case (1 "end" flags base)
  then show ?case by auto
next
  case (2 "end" flags base r rs)
  have "lo \<le> min (mr_base r + mr_size r) end \<or> end \<le> min (mr_base r + mr_size r) end"
    using 2(4) by auto
  with 2 show ?case by (auto simp del: min_def)
qed

lemma wf_add_ref:
  "wf_regions rs \<Longrightarrow> end < 2 ^ 64 \<Longrightarrow> wf_regions (add_ref end flags base rs)"
proof (induction "end" flags base rs rule: add_ref.induct)
  case (1 "end" flags base)
  then show ?case by auto
next
  case (2 "end" flags base r rs)
  let ?m = "min (mr_base r + mr_size r) end"
  have lower: "\<forall>s \<in> set (add_ref end flags b rs). mr_base r + mr_size r \<le> mr_base s"
    if "mr_base r + mr_size r \<le> b \<or> end \<le> b" for b
    using that 2(4) by (intro add_ref_lower) (auto simp: before_def)
  have b: "mr_base r + mr_size r \<le> ?m \<or> end \<le> ?m" by auto
  have lt: "mr_base r < 2 ^ 64" using 2(4) by (auto simp: region_ok_def)
  from 2 lower [OF b] lower [of base] lt show ?case
    by (auto simp: before_def split: if_splits dest: order.trans)
qed

lemma region_map_add_ref:
  "wf_regions rs \<Longrightarrow>
    region_map (add_ref end flags base rs) a =
      (case region_map rs a of Some f \<Rightarrow> Some f
       | None \<Rightarrow> if base \<le> a \<and> a < end then Some flags else None)"
proof (induction "end" flags base rs rule: add_ref.induct)
  case (1 "end" flags base)
  then show ?case by auto
next
  case (2 "end" flags base r rs)
  have none: "region_map rs a = None" if "a < mr_base r + mr_size r"
    using that 2(4) by (intro region_map_below) (auto simp: before_def)
  have IH: "\<not> end \<le> mr_base r \<Longrightarrow> \<not> mr_base r + mr_size r \<le> base \<Longrightarrow>
      region_map (add_ref end flags (min (mr_base r + mr_size r) end) rs) a =
        (case region_map rs a of Some f \<Rightarrow> Some f
         | None \<Rightarrow> if min (mr_base r + mr_size r) end \<le> a \<and> a < end then Some flags else None)"
    using 2(2,3) 2(4) by (cases "base < mr_base r") auto
  from 2(1,4) IH none show ?case
    by (cases "region_map rs a") (auto split: if_splits)
qed

lemma length_add_ref: "length rs \<le> length (add_ref end flags base rs)"
  by (induction "end" flags base rs rule: add_ref.induct) auto

lemma length_add_ref_le: "length (add_ref end flags base rs) \<le> 2 * length rs + 1"
  by (induction "end" flags base rs rule: add_ref.induct) auto

text \<open>The array state during a round: the total is kept modulo the word size.\<close>

definition total_ok :: "memblock_type \<Rightarrow> bool" where
  "total_ok t \<longleftrightarrow> total_size t = sizes (regions t) mod 2 ^ 64"

lemma insert_region_ok:
  assumes "cnt t < max_regions t" and "regions t = xs @ ys" and "total_ok t"
    and "b < e" and "e < 2 ^ 64"
  obtains t' where "memblock_insert_region (length xs) b (sub64 e b) f t = Return t'"
    and "regions t' = xs @ mk_region b e f # ys" and "total_ok t'"
    and "max_regions t' = max_regions t" and "region_array t' = region_array t"
proof -
  let ?t = "t\<lparr>regions := xs @ mk_region b e f # ys, total_size := add64 (total_size t) (e - b)\<rparr>"
  have "memblock_insert_region (length xs) b (sub64 e b) f t = Return ?t"
    using assms by (simp add: memblock_insert_region_def insert_at_def sub64_eq mk_region_def)
  moreover have "(s mod 2 ^ 64 + d) mod 2 ^ 64 = (s + d) mod 2 ^ 64" for s d :: nat
    by (rule mod_add_left_eq)
  from this [of "sizes xs + sizes ys" "e - b"] have "total_ok ?t"
    using assms(2,3) by (simp only: total_ok_def add64_def) (simp add: add.commute add.left_commute)
  ultimately show ?thesis using that by simp
qed

definition add_finish where
  "add_finish ins end flags = (\<lambda>(i, base, nr, t').
       if base < end then
         if ins then obind (memblock_insert_region i base (sub64 end base) flags t')
                       (\<lambda>t''. Return (Suc nr, t''))
         else Return (Suc nr, t')
       else Return (nr, t'))"

lemma add_round_alt:
  "add_round ins obase end flags t = obind (add_loop ins end flags 0 obase 0 t) (add_finish ins end flags)"
  by (simp add: add_round_def add_finish_def)

lemma add_finish_count [simp]:
  "add_finish False end flags (i, b, n, t) = Return (if b < end then Suc n else n, t)"
  by (simp add: add_finish_def)

lemma add_loop_count:
  "regions t = P @ S \<Longrightarrow> wf_regions S \<Longrightarrow>
    obind (add_loop False end flags (length P) base nr t) (add_finish False end flags) =
      Return (nr + (length (add_ref end flags base S) - length S), t)"
proof (induction S arbitrary: P base nr)
  case Nil
  then show ?case by (simp add: add_loop.simps)
next
  case (Cons r S)
  have nth: "regions t ! length P = r" and lt: "length P < cnt t"
    using Cons.prems by auto
  have ok: "region_ok r" and wf: "wf_regions S" using Cons.prems by auto
  have IH: "obind (add_loop False end flags (Suc (length P)) b n t) (add_finish False end flags) =
      Return (n + (length (add_ref end flags b S) - length S), t)" for b n
    using Cons.IH [of "P @ [r]" b n] Cons.prems by simp
  show ?case
    by (subst add_loop.simps)
      (simp add: nth lt Let_def region_end_ok [OF ok] IH Suc_diff_le length_add_ref)
qed

lemma add_loop_insert:
  "regions t = P @ S \<Longrightarrow> wf_regions S \<Longrightarrow> total_ok t \<Longrightarrow> end < 2 ^ 64 \<Longrightarrow>
    length P + length (add_ref end flags base S) \<le> max_regions t \<Longrightarrow>
    \<exists>n t'. obind (add_loop True end flags (length P) base nr t) (add_finish True end flags) =
        Return (n, t') \<and> regions t' = P @ add_ref end flags base S \<and> total_ok t' \<and>
      max_regions t' = max_regions t \<and> region_array t' = region_array t"
proof (induction S arbitrary: P base nr t)
  case Nil
  show ?case
  proof (cases "base < end")
    case True
    obtain t' where "memblock_insert_region (length P) base (sub64 end base) flags t = Return t'"
      "regions t' = P @ [mk_region base end flags]" "total_ok t'"
      "max_regions t' = max_regions t" "region_array t' = region_array t"
      using insert_region_ok [of t P "[]" base "end" flags] Nil.prems True by auto
    then show ?thesis
      using Nil.prems True by (simp add: add_loop.simps add_finish_def)
  next
    case False
    then show ?thesis using Nil.prems by (simp add: add_loop.simps add_finish_def)
  qed
next
  case (Cons r S)
  have nth: "regions t ! length P = r" and lt: "length P < cnt t"
    using Cons.prems by auto
  have ok: "region_ok r" and wf: "wf_regions S" using Cons.prems by auto
  have rlt: "mr_base r < 2 ^ 64" using ok by (auto simp: region_ok_def)
  have step: "\<exists>n t''. obind (add_loop True end flags (Suc (length P)) b m t) (add_finish True end flags) =
        Return (n, t'') \<and> regions t'' = P @ r # add_ref end flags b S \<and> total_ok t'' \<and>
      max_regions t'' = max_regions t \<and> region_array t'' = region_array t"
    if "length P + Suc (length (add_ref end flags b S)) \<le> max_regions t" for b m
    using Cons.IH [of t "P @ [r]" b m] Cons.prems that by simp
  let ?m = "min (mr_base r + mr_size r) end"
  consider (stop) "mr_base r \<ge> end" | (skip) "mr_base r < end" "mr_base r + mr_size r \<le> base"
    | (gap) "mr_base r < end" "mr_base r + mr_size r > base" "mr_base r > base"
    | (over) "mr_base r < end" "mr_base r + mr_size r > base" "mr_base r \<le> base"
    by linarith
  then show ?case
  proof cases
    case stop
    show ?thesis
    proof (cases "base < end")
      case True
      obtain t' where "memblock_insert_region (length P) base (sub64 end base) flags t = Return t'"
        "regions t' = P @ mk_region base end flags # r # S" "total_ok t'"
        "max_regions t' = max_regions t" "region_array t' = region_array t"
        using insert_region_ok [of t P "r # S" base "end" flags] Cons.prems True stop by auto
      with stop True show ?thesis
        by (subst add_loop.simps) (simp add: nth lt Let_def add_finish_def)
    next
      case False
      with stop Cons.prems show ?thesis
        by (subst add_loop.simps) (simp add: nth lt Let_def add_finish_def)
    qed
  next
    case skip
    with Cons.prems step [of base nr] show ?thesis
      by (subst add_loop.simps) (simp add: nth lt Let_def region_end_ok [OF ok])
  next
    case over
    with Cons.prems step [of ?m nr] show ?thesis
      by (subst add_loop.simps) (simp add: nth lt Let_def region_end_ok [OF ok])
  next
    case gap
    obtain t' where t': "memblock_insert_region (length P) base (sub64 (mr_base r) base) flags t = Return t'"
      "regions t' = P @ mk_region base (mr_base r) flags # r # S" "total_ok t'"
      "max_regions t' = max_regions t" "region_array t' = region_array t"
      using insert_region_ok [of t P "r # S" base "mr_base r" flags] Cons.prems gap rlt
        length_add_ref [of S "end" flags ?m] by auto
    have "\<exists>n t''. obind (add_loop True end flags (Suc (Suc (length P))) ?m (Suc nr) t') (add_finish True end flags) =
        Return (n, t'') \<and> regions t'' = P @ mk_region base (mr_base r) flags # r # add_ref end flags ?m S \<and>
        total_ok t'' \<and> max_regions t'' = max_regions t' \<and> region_array t'' = region_array t'"
      using Cons.IH [of t' "P @ [mk_region base (mr_base r) flags, r]" ?m "Suc nr"] Cons.prems gap t'
      by simp
    with gap t' show ?thesis
      by (subst add_loop.simps) (simp add: nth lt Let_def region_end_ok [OF ok])
  qed
qed

subsection \<open>Merging neighbours\<close>

fun merge_ref :: "memblock_region list \<Rightarrow> memblock_region list" where
  "merge_ref (r # s # rs) =
     (if mr_base r + mr_size r = mr_base s \<and> mr_flags r = mr_flags s
      then merge_ref (r\<lparr>mr_size := mr_size r + mr_size s\<rparr> # rs)
      else r # merge_ref (s # rs))"
| "merge_ref rs = rs"

lemma merge_loop_ref:
  "wf_regions S \<Longrightarrow> S \<noteq> [] \<Longrightarrow> merge_loop (length P) (P @ S) = Return (P @ merge_ref S)"
proof (induction S arbitrary: P rule: merge_ref.induct)
  case (1 r s rs)
  have ok: "region_ok r" "region_ok s" "before r s" using 1(3) by auto
  have wf': "wf_regions (r\<lparr>mr_size := mr_size r + mr_size s\<rparr> # rs)"
    if "mr_base r + mr_size r = mr_base s"
    using 1(3) that by (auto simp: region_ok_def before_def)
  show ?case
  proof (cases "mr_base r + mr_size r = mr_base s \<and> mr_flags r = mr_flags s")
    case True
    then have "add64 (mr_size r) (mr_size s) = mr_size r + mr_size s"
      using ok by (simp add: region_ok_def add64_eq)
    then have "merge_loop (length P) (P @ r # s # rs) =
        merge_loop (length P) (P @ r\<lparr>mr_size := mr_size r + mr_size s\<rparr> # rs)"
      using True ok by (subst merge_loop.simps)
        (simp add: nth_append Let_def region_end_ok memblock_get_region_node_def
          list_update_append remove_at_def)
    with 1(1) [OF True] wf' True show ?thesis by simp
  next
    case False
    have "merge_loop (length P) (P @ r # s # rs) = merge_loop (length (P @ [r])) ((P @ [r]) @ s # rs)"
      using False ok by (subst merge_loop.simps)
        (auto simp add: nth_append Let_def region_end_ok memblock_get_region_node_def before_def)
    also have "\<dots> = Return ((P @ [r]) @ merge_ref (s # rs))"
      using 1(2) [OF False, of "P @ [r]"] 1(3) by simp
    finally show ?thesis using False by auto
  qed
qed (auto simp: merge_loop.simps)

lemma merge_ref_hd: "rs \<noteq> [] \<Longrightarrow> merge_ref rs \<noteq> [] \<and> mr_base (hd (merge_ref rs)) = mr_base (hd rs)
    \<and> mr_flags (hd (merge_ref rs)) = mr_flags (hd rs)"
  by (induction rs rule: merge_ref.induct) auto

lemma merge_ref_lower:
  "\<forall>s \<in> set rs. lo \<le> mr_base s \<Longrightarrow> \<forall>s \<in> set (merge_ref rs). lo \<le> mr_base s"
  by (induction rs rule: merge_ref.induct) auto

lemma merge_ref_wf:
  "wf_regions rs \<Longrightarrow> wf_regions (merge_ref rs)"
proof (induction rs rule: merge_ref.induct)
  case (1 r s rs)
  have "wf_regions (r\<lparr>mr_size := mr_size r + mr_size s\<rparr> # rs)"
    if "mr_base r + mr_size r = mr_base s"
    using 1(3) that by (auto simp: region_ok_def before_def)
  moreover have "\<forall>x \<in> set (merge_ref (s # rs)). mr_base r + mr_size r \<le> mr_base x"
    using 1(3) by (intro merge_ref_lower) (auto simp: before_def)
  ultimately show ?case using 1 by (auto simp: before_def)
qed auto

lemma merge_ref_sizes [simp]: "sizes (merge_ref rs) = sizes rs"
  by (induction rs rule: merge_ref.induct) auto

lemma merge_ref_length: "length (merge_ref rs) \<le> length rs"
  by (induction rs rule: merge_ref.induct) auto

lemma merge_ref_map: "wf_regions rs \<Longrightarrow> region_map (merge_ref rs) a = region_map rs a"
proof (induction rs rule: merge_ref.induct)
  case (1 r s rs)
  have "wf_regions (r\<lparr>mr_size := mr_size r + mr_size s\<rparr> # rs)"
    if "mr_base r + mr_size r = mr_base s"
    using 1(3) that by (auto simp: region_ok_def before_def)
  with 1 show ?case by auto
qed auto

lemma merge_ref_minimal: "wf_regions rs \<Longrightarrow> minimal (merge_ref rs)"
proof (induction rs rule: merge_ref.induct)
  case (1 r s rs)
  have wf': "wf_regions (r\<lparr>mr_size := mr_size r + mr_size s\<rparr> # rs)"
    if "mr_base r + mr_size r = mr_base s"
    using 1(3) that by (auto simp: region_ok_def before_def)
  obtain x xs where x: "merge_ref (s # rs) = x # xs" "mr_base x = mr_base s" "mr_flags x = mr_flags s"
    using merge_ref_hd [of "s # rs"] by (cases "merge_ref (s # rs)") auto
  from 1 wf' x show ?case by auto
qed auto

subsection \<open>Isolating a range\<close>

lemma iso_split_ok:
  assumes "cnt t < max_regions t" and "regions t = xs @ r # ys" and "total_ok t"
    and "region_ok r" and "mr_base r < c" and "c < mr_base r + mr_size r"
  obtains t' where "iso_split (length xs) c t = Return t'"
    and "regions t' = xs @ mk_region (mr_base r) c (mr_flags r) #
           mk_region c (mr_base r + mr_size r) (mr_flags r) # ys"
    and "total_ok t'" and "max_regions t' = max_regions t" and "region_array t' = region_array t"
proof -
  let ?d = "c - mr_base r"
  let ?up = "mk_region c (mr_base r + mr_size r) (mr_flags r)"
  let ?t = "t\<lparr>regions := xs @ mk_region (mr_base r) c (mr_flags r) # ?up # ys,
              total_size := add64 (sub64 (total_size t) ?d) ?d\<rparr>"
  have c: "c < 2 ^ 64" and s: "mr_size r < 2 ^ 64" "mr_base r < 2 ^ 64"
    using assms(4,6) by (auto simp: region_ok_def)
  have d: "sub64 c (mr_base r) = ?d" using assms(5) c by (simp add: sub64_eq)
  have "sub64 (mr_size r) ?d = mr_base r + mr_size r - c"
    using assms(5,6) s by (simp add: sub64_eq)
  then have up: "iso_upper c r = ?up"
    using d by (simp add: iso_upper_def mk_region_def)
  have "iso_split (length xs) c t = Return ?t"
    using assms(1,2) d up
    by (simp add: iso_split_def Let_def memblock_insert_region_def insert_at_def list_update_append
        mk_region_def)
  moreover have "add64 (sub64 n ?d) ?d = n mod 2 ^ 64" for n
    using add64_sub64_cancel [of ?d n] by (simp add: add64_def add.commute)
  then have "total_ok ?t"
    using assms(2,3,5,6) by (simp add: total_ok_def)
  ultimately show ?thesis using that by simp
qed

definition straddle :: "nat \<Rightarrow> memblock_region list \<Rightarrow> nat" where
  "straddle c rs = length (filter (\<lambda>r. mr_base r < c \<and> c < mr_base r + mr_size r) rs)"

lemma straddle_simps [simp]:
  "straddle c [] = 0"
  "straddle c (r # rs) = (if mr_base r < c \<and> c < mr_base r + mr_size r then 1 else 0) + straddle c rs"
  by (auto simp: straddle_def)

lemma straddle_0: "\<forall>r \<in> set rs. c \<le> mr_base r \<Longrightarrow> straddle c rs = 0"
  by (induction rs) auto

lemma straddle_le1: "wf_regions rs \<Longrightarrow> straddle c rs \<le> 1"
proof (induction rs)
  case (Cons r rs)
  show ?case
  proof (cases "mr_base r < c \<and> c < mr_base r + mr_size r")
    case True
    then have "straddle c rs = 0"
      using Cons.prems by (intro straddle_0) (auto simp: before_def)
    with True show ?thesis by simp
  next
    case False
    then have "straddle c (r # rs) = straddle c rs" by auto
    with Cons show ?thesis by simp
  qed
qed simp

lemma minimal_append:
  "minimal (xs @ ys) \<longleftrightarrow> minimal xs \<and> minimal ys \<and>
     (xs = [] \<or> ys = [] \<or> \<not> (mr_base (last xs) + mr_size (last xs) = mr_base (hd ys) \<and>
        mr_flags (last xs) = mr_flags (hd ys)))"
  by (induction xs rule: minimal.induct) (auto, (cases ys, auto)+)

lemma minimal_Cons:
  "minimal (r # rs) \<longleftrightarrow> minimal rs \<and>
     (rs = [] \<or> \<not> (mr_base r + mr_size r = mr_base (hd rs) \<and> mr_flags r = mr_flags (hd rs)))"
  by (cases rs) auto

text \<open>
  The state of the isolation scan: the regions below the range, those inside it and the rest,
  with the two indices the code has recorded.
\<close>

definition iso_minimal :: "nat \<Rightarrow> nat \<Rightarrow> memblock_region list \<Rightarrow> memblock_region list \<Rightarrow>
    memblock_region list \<Rightarrow> bool" where
  "iso_minimal base end pre mid post \<longleftrightarrow>
     minimal pre \<and>
     (minimal post \<or> post \<noteq> [] \<and> minimal (tl post) \<and> base \<le> mr_base (hd post) \<and>
        mr_base (hd post) + mr_size (hd post) \<le> end) \<and>
     (mid = [] \<longrightarrow> minimal (pre @ post) \<or>
        post \<noteq> [] \<and> base \<le> mr_base (hd post) \<and> mr_base (hd post) < end)"

definition iso_state :: "nat \<Rightarrow> nat \<Rightarrow> memblock_type \<Rightarrow> memblock_region list \<Rightarrow> memblock_region list \<Rightarrow>
    memblock_region list \<Rightarrow> nat \<Rightarrow> nat \<Rightarrow> bool" where
  "iso_state base end t pre mid post s e \<longleftrightarrow>
     regions t = pre @ mid @ post \<and> wf_regions (regions t) \<and> total_ok t \<and>
     (\<forall>r \<in> set pre. mr_base r + mr_size r \<le> base) \<and>
     (\<forall>r \<in> set mid. base \<le> mr_base r \<and> mr_base r + mr_size r \<le> end) \<and>
     (if mid = [] then s = 0 \<and> e = 0 else s = length pre \<and> e = length pre + length mid) \<and>
     iso_minimal base end pre mid post"

lemma region_map_split:
  assumes "b < c" and "c < e"
  shows "region_map (xs @ mk_region b c f # mk_region c e f # ys) = region_map (xs @ mk_region b e f # ys)"
  using assms by (auto simp: region_map_append fun_eq_iff split: option.splits)

lemma mk_region_self: "mk_region (mr_base r) (mr_base r + mr_size r) (mr_flags r) = r"
  by (simp add: mk_region_def)

lemma wf_split:
  assumes "wf_regions (xs @ r # ys)" and "mr_base r < c" and "c < mr_base r + mr_size r"
  shows "wf_regions (xs @ mk_region (mr_base r) c (mr_flags r) #
           mk_region c (mr_base r + mr_size r) (mr_flags r) # ys)"
  using assms by (auto simp: wf_regions_append region_ok_def before_def)

text \<open>One cut, as seen by the scan: the map and the sum of the sizes do not change.\<close>

lemma iso_split_step:
  assumes regs: "regions t = xs @ r # ys" and cap: "cnt t < max_regions t"
    and wf: "wf_regions (regions t)" and tot: "total_ok t"
    and c: "mr_base r < c" "c < mr_base r + mr_size r"
  obtains t' where "iso_split (length xs) c t = Return t'"
    and "regions t' = xs @ mk_region (mr_base r) c (mr_flags r) #
           mk_region c (mr_base r + mr_size r) (mr_flags r) # ys"
    and "wf_regions (regions t')" and "total_ok t'"
    and "region_map (regions t') = region_map (regions t)"
    and "sizes (regions t') = sizes (regions t)"
    and "max_regions t' = max_regions t" and "region_array t' = region_array t"
proof -
  have ok: "region_ok r" using wf regs by (auto simp: wf_regions_append)
  obtain t' where t': "iso_split (length xs) c t = Return t'"
    "regions t' = xs @ mk_region (mr_base r) c (mr_flags r) #
       mk_region c (mr_base r + mr_size r) (mr_flags r) # ys"
    "total_ok t'" "max_regions t' = max_regions t" "region_array t' = region_array t"
    using iso_split_ok [OF cap regs tot ok c] by blast
  have "region_map (regions t') = region_map (regions t)"
    using t'(2) regs c region_map_split [of "mr_base r" c "mr_base r + mr_size r" xs]
    by (simp add: mk_region_self)
  moreover have "wf_regions (regions t')"
    using t'(2) wf_split [of xs r ys c] wf regs c by simp
  moreover have "sizes (regions t') = sizes (regions t)"
    using t'(2) regs c by simp
  ultimately show ?thesis using t' that by blast
qed

definition iso_result where
  "iso_result base end t res \<longleftrightarrow> (\<exists>s' e' t' pre mid post. res = Return (s', e', t') \<and>
      iso_state base end t' pre mid post s' e' \<and> (\<forall>r \<in> set post. end \<le> mr_base r) \<and>
      region_map (regions t') = region_map (regions t) \<and> sizes (regions t') = sizes (regions t) \<and>
      max_regions t' = max_regions t \<and> region_array t' = region_array t \<and> cnt t' \<le> max_regions t')"

lemma iso_result_Return:
  assumes "iso_state base end t pre mid post s e" and "\<forall>r \<in> set post. end \<le> mr_base r"
    and "cnt t \<le> max_regions t"
  shows "iso_result base end t (Return (s, e, t))"
  using assms by (auto simp: iso_result_def)

lemma iso_result_trans:
  assumes "iso_result base end t' res" and "region_map (regions t') = region_map (regions t)"
    and "sizes (regions t') = sizes (regions t)" and "max_regions t' = max_regions t"
    and "region_array t' = region_array t"
  shows "iso_result base end t res"
  using assms by (simp add: iso_result_def)

lemma isolate_loop_unfold:
  assumes "regions t ! i = r" and "i < cnt t" and "region_ok r"
  shows "isolate_loop base end i s e t =
        (if mr_base r \<ge> end then Return (s, e, t)
         else if mr_base r + mr_size r \<le> base then isolate_loop base end (Suc i) s e t
         else if mr_base r < base then
           obind (iso_split i base t) (\<lambda>t'. isolate_loop base end (Suc i) s e t')
         else if mr_base r + mr_size r > end then
           obind (iso_split i end t) (\<lambda>t'. isolate_loop base end i s e t')
         else isolate_loop base end (Suc i) (if e = 0 then i else s) (Suc i) t)"
  using assms by (subst isolate_loop.simps) (simp add: Let_def region_end_ok)

lemma isolate_loop_ok:
  assumes "iso_state base end t pre mid S s e" and "i = length pre + length mid"
    and "base < end" and "end < 2 ^ 64"
    and "cnt t + straddle base S + straddle end S \<le> max_regions t"
  shows "iso_result base end t (isolate_loop base end i s e t)"
  using assms
proof (induction base "end" i s e t arbitrary: pre mid S rule: isolate_loop.induct)
  case (1 base "end" i s e t)
  note st = "1.prems"(1)
  show ?case
  proof (cases S)
    case Nil
    then have "isolate_loop base end i s e t = Return (s, e, t)"
      using st "1.prems"(2) by (subst isolate_loop.simps) (simp add: iso_state_def)
    then show ?thesis
      using iso_result_Return [OF st] Nil "1.prems" by simp
  next
    case (Cons r R)
    have regs: "regions t = (pre @ mid) @ r # R" and i: "i = length (pre @ mid)"
      using st Cons "1.prems"(2) by (auto simp: iso_state_def)
    have nth: "regions t ! i = r" and lt: "i < cnt t" using regs i by auto
    have wf: "wf_regions (regions t)" and tot: "total_ok t"
      using st by (auto simp: iso_state_def)
    have ok: "region_ok r" using wf regs by (auto simp: wf_regions_append)
    note unfold = isolate_loop_unfold [OF nth lt ok] and rend = region_end_ok [OF ok]
    have mid_ge: "mid \<noteq> [] \<Longrightarrow> base \<le> mr_base r"
      using st wf regs by (auto simp: iso_state_def wf_regions_append before_def neq_Nil_conv)
    note IH = 1(1-4) [OF lt refl refl, unfolded nth rend]
    consider (stop) "end \<le> mr_base r" | (skip) "mr_base r < end" "mr_base r + mr_size r \<le> base"
      | (below) "mr_base r < end" "base < mr_base r + mr_size r" "mr_base r < base"
      | (above) "mr_base r < end" "base \<le> mr_base r" "end < mr_base r + mr_size r"
      | (inside) "mr_base r < end" "base \<le> mr_base r" "mr_base r + mr_size r \<le> end"
        "base < mr_base r + mr_size r"
      using ok by (auto simp: region_ok_def) linarith
    then show ?thesis
    proof cases
      case stop
      have "\<forall>x \<in> set S. end \<le> mr_base x"
        using stop wf regs Cons by (auto simp: wf_regions_append before_def)
      with stop st "1.prems" show ?thesis
        unfolding unfold by (auto intro: iso_result_Return)
    next
      case skip
      have "mid = []" using skip mid_ge ok by (cases mid) (auto simp: region_ok_def)
      then have "iso_state base end t (pre @ [r]) [] R s e"
        using st skip Cons ok
        by (auto simp: iso_state_def iso_minimal_def minimal_append minimal_Cons region_ok_def)
      from IH(1) [OF _ _ this] skip "1.prems" Cons \<open>mid = []\<close>
      show ?thesis unfolding unfold by simp
    next
      case below
      have "mid = []" using below mid_ge by (cases mid) auto
      have cap: "cnt t < max_regions t" using "1.prems"(5) Cons below by simp
      from iso_split_step [OF regs cap wf tot below(3,2)] obtain t' where t':
        "iso_split i base t = Return t'" "wf_regions (regions t')" "total_ok t'"
        "regions t' = (pre @ mid) @ mk_region (mr_base r) base (mr_flags r) #
           mk_region base (mr_base r + mr_size r) (mr_flags r) # R"
        and frame: "region_map (regions t') = region_map (regions t)"
          "sizes (regions t') = sizes (regions t)"
          "max_regions t' = max_regions t" "region_array t' = region_array t"
        using i by metis
      have "iso_state base end t' (pre @ [mk_region (mr_base r) base (mr_flags r)]) []
          (mk_region base (mr_base r + mr_size r) (mr_flags r) # R) s e"
        using st below t' \<open>mid = []\<close> Cons "1.prems"(3)
        by (auto simp: iso_state_def iso_minimal_def minimal_append minimal_Cons)
      from IH(2) [OF _ _ _ t'(1) this] below "1.prems" Cons t' frame \<open>mid = []\<close> regs
      have "iso_result base end t' (isolate_loop base end (Suc i) s e t')" by simp
      from iso_result_trans [OF this frame] below t' show ?thesis unfolding unfold by simp
    next
      case above
      have cap: "cnt t < max_regions t" using "1.prems"(5) Cons above by simp
      from iso_split_step [OF regs cap wf tot above(1,3)] obtain t' where t':
        "iso_split i end t = Return t'" "wf_regions (regions t')" "total_ok t'"
        "regions t' = (pre @ mid) @ mk_region (mr_base r) end (mr_flags r) #
           mk_region end (mr_base r + mr_size r) (mr_flags r) # R"
        and frame: "region_map (regions t') = region_map (regions t)"
          "sizes (regions t') = sizes (regions t)"
          "max_regions t' = max_regions t" "region_array t' = region_array t"
        using i by metis
      have "iso_state base end t' pre mid (mk_region (mr_base r) end (mr_flags r) #
          mk_region end (mr_base r + mr_size r) (mr_flags r) # R) s e"
        using st above t' Cons
        by (auto simp: iso_state_def iso_minimal_def minimal_append minimal_Cons)
      from IH(3) [OF _ _ _ _ t'(1) this] above "1.prems" Cons t' frame regs
      have "iso_result base end t' (isolate_loop base end i s e t')" by simp
      from iso_result_trans [OF this frame] above t' show ?thesis unfolding unfold by simp
    next
      case inside
      have "iso_state base end t pre (mid @ [r]) R (if e = 0 then i else s) (Suc i)"
        using st inside Cons i
        by (auto simp: iso_state_def iso_minimal_def minimal_append minimal_Cons split: if_splits)
      from IH(4) [OF _ _ _ _ this] inside "1.prems" Cons
      show ?thesis unfolding unfold by simp
    qed
  qed
qed

end
