(* ===== verification/Memblock_Ops.thy ===== *)
theory Memblock_Ops
  imports Memblock_Inv
begin

text \<open>
  The public operations of \<^verbatim>\<open>mm/memblock.c\<close> that change a region array. They rely on the routine
  that doubles an array only through a contract, stated as a locale; their correctness is proved
  once against that contract, which \<^verbatim>\<open>memblock_double_array\<close> is then shown to meet before
  \<^verbatim>\<open>memblock_allow_resize\<close> and after the slab allocator has come up.
\<close>

subsection \<open>Invariant of the whole state\<close>

definition type_ok :: "memblock_type \<Rightarrow> bool" where
  "type_ok t \<longleftrightarrow> type_inv t \<and> max_regions t * sizeof_region < 2 ^ 35"

definition mb_inv :: "memblock \<Rightarrow> bool" where
  "mb_inv mb \<longleftrightarrow> type_ok (memory mb) \<and> type_ok (reserved mb)"

lemma mb_inv_get: "mb_inv mb \<Longrightarrow> type_ok (get_type ty mb)"
  by (cases ty) (auto simp: mb_inv_def)

lemma mb_inv_set: "mb_inv mb \<Longrightarrow> type_ok t \<Longrightarrow> mb_inv (set_type ty t mb)"
  by (cases ty) (auto simp: mb_inv_def)

lemma get_set_type [simp]: "get_type ty (set_type ty t mb) = t"
  by (cases ty) auto

lemma get_set_other [simp]: "ty' \<noteq> ty \<Longrightarrow> get_type ty' (set_type ty t mb) = get_type ty' mb"
  by (cases ty; cases ty') auto

lemma mb_inv_init: "mb_inv (memblock_init movable)"
  by (simp add: mb_inv_def type_ok_def type_inv_def memblock_init_def init_type_def
      empty_region_def INIT_MEMBLOCK_REGIONS_def sizeof_region_def)

text \<open>The effect of adding a range: addresses that had a region keep its flags.\<close>

definition add_map :: "nat \<Rightarrow> nat \<Rightarrow> 64 word \<Rightarrow> (nat \<Rightarrow> 64 word option) \<Rightarrow> nat \<Rightarrow> 64 word option" where
  "add_map b e f m a = (case m a of Some g \<Rightarrow> Some g | None \<Rightarrow> if b \<le> a \<and> a < e then Some f else None)"

definition remove_map :: "nat \<Rightarrow> nat \<Rightarrow> (nat \<Rightarrow> 64 word option) \<Rightarrow> nat \<Rightarrow> 64 word option" where
  "remove_map b e m a = (if b \<le> a \<and> a < e then None else m a)"

definition change_map :: "nat \<Rightarrow> nat \<Rightarrow> (64 word \<Rightarrow> 64 word) \<Rightarrow> (nat \<Rightarrow> 64 word option) \<Rightarrow> nat \<Rightarrow> 64 word option" where
  "change_map b e g m a = (if b \<le> a \<and> a < e then map_option g (m a) else m a)"

text \<open>The end of a requested range after the overflow cap of \<^verbatim>\<open>memblock_cap_size\<close>.\<close>

definition range_end :: "nat \<Rightarrow> nat \<Rightarrow> nat" where
  "range_end base sz = base + min sz (ULLONG_MAX - base)"

lemma cap_size_eq: "base < 2 ^ 64 \<Longrightarrow> memblock_cap_size base sz = range_end base sz - base"
  by (simp add: memblock_cap_size_def range_end_def sub64_eq ULLONG_MAX_def)

lemma range_end_bounds: "base < 2 ^ 64 \<Longrightarrow> base \<le> range_end base sz \<and> range_end base sz < 2 ^ 64"
  by (auto simp: range_end_def ULLONG_MAX_def)

lemma cap_end_eq: "base < 2 ^ 64 \<Longrightarrow> add64 base (memblock_cap_size base sz) = range_end base sz"
  using range_end_bounds [of base sz] by (simp add: cap_size_eq add64_eq)

subsection \<open>Adding to one array\<close>

lemma type_inv_cases:
  assumes "type_inv t"
  obtains (dummy) "regions t = [empty_region]" "total_size t = 0"
  | (live) "regions t \<noteq> []" "wf_regions (regions t)" "minimal (regions t)" "mr_size (regions t ! 0) \<noteq> 0"
  using assms by (cases "regions t") (auto simp: type_inv_def empty_region_def region_ok_def)

lemma merge_regions_ok:
  assumes "wf_regions (regions t)" and "regions t \<noteq> []" and "total_ok t" and "cnt t \<le> max_regions t"
  obtains t' where "memblock_merge_regions t = Return t'" and "type_inv t'"
    and "type_map t' = type_map t" and "max_regions t' = max_regions t"
    and "region_array t' = region_array t"
proof -
  let ?t = "t\<lparr>regions := merge_ref (regions t)\<rparr>"
  have "memblock_merge_regions t = Return ?t"
    using merge_loop_ref [of "regions t" "[]"] assms by (simp add: memblock_merge_regions_def)
  moreover have "total_size t = sizes (regions t)"
    using assms(1,3) wf_sizes_lt by (simp add: total_ok_def)
  then have "type_inv ?t"
    using assms merge_ref_hd merge_ref_wf merge_ref_minimal merge_ref_length [of "regions t"]
    by (auto simp: type_inv_def)
  moreover have "type_map ?t = type_map t"
    using assms(1) by (simp add: type_map_def merge_ref_map fun_eq_iff)
  ultimately show ?thesis using that by simp
qed

lemma add_round_count:
  assumes "wf_regions (regions t)"
  shows "add_round False base end flags t =
    Return (length (add_ref end flags base (regions t)) - cnt t, t)"
  using add_loop_count [of t "[]" "regions t" "end" flags base 0] assms by (simp add: add_round_alt)

lemma add_round_merge:
  assumes "wf_regions (regions t)" and "regions t \<noteq> []" and "total_size t = sizes (regions t)"
    and "length (add_ref end flags base (regions t)) \<le> max_regions t" and "end < 2 ^ 64"
  obtains n t1 t2 where "add_round True base end flags t = Return (n, t1)"
    and "memblock_merge_regions t1 = Return t2" and "type_inv t2"
    and "type_map t2 = add_map base end flags (type_map t)" and "max_regions t2 = max_regions t"
    and "region_array t2 = region_array t"
proof -
  have "total_ok t" using assms(1,3) wf_sizes_lt by (simp add: total_ok_def)
  then obtain n t1 where t1: "add_round True base end flags t = Return (n, t1)"
    "regions t1 = add_ref end flags base (regions t)" "total_ok t1" "max_regions t1 = max_regions t"
    "region_array t1 = region_array t"
    using add_loop_insert [of t "[]" "regions t" "end" flags base 0] assms
    by (auto simp: add_round_alt)
  have "regions t1 \<noteq> []"
    using t1(2) length_add_ref [of "regions t" "end" flags base] assms(2) by auto
  moreover have "wf_regions (regions t1)"
    using t1(2) assms wf_add_ref by simp
  ultimately obtain t2 where "memblock_merge_regions t1 = Return t2" "type_inv t2"
    "type_map t2 = type_map t1" "max_regions t2 = max_regions t1" "region_array t2 = region_array t1"
    using merge_regions_ok [of t1] t1 assms(4) by auto
  moreover have "type_map t1 = add_map base end flags (type_map t)"
    using t1(2) assms(1) by (simp add: type_map_def add_map_def region_map_add_ref fun_eq_iff)
  ultimately show ?thesis using t1 that by metis
qed

lemma type_inv_dummy_set:
  assumes "regions t = [empty_region]" and "base < e" and "e < 2 ^ 64" and "cnt t \<le> max_regions t"
    and "t' = t\<lparr>regions := (regions t)[0 := \<lparr>mr_base = base, mr_size = e - base, mr_flags = flags\<rparr>],
                 total_size := e - base\<rparr>"
  shows "type_inv t'" and "type_map t' = add_map base e flags (type_map t)"
  using assms by (auto simp: type_inv_def region_ok_def type_map_def add_map_def empty_region_def fun_eq_iff)

subsection \<open>Isolating and removing in one array\<close>

lemma straddle_empty: "straddle c [empty_region] = 0"
  by (simp add: empty_region_def)

lemma iso_state_start:
  assumes "type_inv t" and "wf_regions (regions t)"
  shows "iso_state base end t [] [] (regions t) 0 0"
  using assms wf_sizes_lt [of "regions t"]
  by (auto simp: iso_state_def iso_minimal_def type_inv_def total_ok_def empty_region_def)

lemma isolate_live:
  assumes "type_inv t" and "wf_regions (regions t)" and "cnt t + 2 \<le> max_regions t"
    and "base < end" and "end < 2 ^ 64"
  shows "iso_result base end t (isolate_loop base end 0 0 0 t)"
  using isolate_loop_ok [OF iso_state_start [OF assms(1,2)] _ assms(4,5)]
    straddle_le1 [OF assms(2), of base] straddle_le1 [OF assms(2), of "end"] assms(3) by simp

lemma isolate_dummy:
  assumes "regions t = [empty_region]"
  shows "isolate_loop base end 0 0 0 t = Return (0, 0, t)"
  using assms by (subst isolate_loop.simps)
    (auto simp: empty_region_def isolate_loop.simps [of _ _ "Suc 0"] add64_def)

lemma remove_down_ok:
  "regions t = pre @ mid @ post \<Longrightarrow> total_size t = sizes (regions t) \<Longrightarrow> sizes (regions t) < 2 ^ 64 \<Longrightarrow>
   mid \<noteq> [] \<Longrightarrow>
   remove_down (length mid) (length pre) t =
     t\<lparr>regions := (if pre @ post = [] then [empty_region] else pre @ post),
       total_size := sizes (pre @ post)\<rparr>"
proof (induction mid arbitrary: t post rule: rev_induct)
  case Nil
  then show ?case by simp
next
  case (snoc r mid)
  let ?t = "memblock_remove_region (length pre + length mid) t"
  have nth: "regions t ! (length pre + length mid) = r"
    using snoc.prems(1) by (simp add: nth_append)
  have rem: "remove_at (length pre + length mid) (regions t) = pre @ mid @ post"
    using snoc.prems(1) by (simp add: remove_at_def)
  have tot: "sub64 (total_size t) (mr_size r) = sizes (pre @ mid @ post)"
    using snoc.prems by (simp add: sub64_eq)
  have t': "?t = t\<lparr>regions := (if pre @ mid @ post = [] then [empty_region] else pre @ mid @ post),
                   total_size := sizes (pre @ mid @ post)\<rparr>"
    unfolding memblock_remove_region_def nth rem tot by (simp add: Let_def)
  show ?case
  proof (cases "mid = []")
    case True
    then show ?thesis using t' by simp
  next
    case False
    then have "remove_down (length mid) (length pre) ?t =
        ?t\<lparr>regions := (if pre @ post = [] then [empty_region] else pre @ post),
           total_size := sizes (pre @ post)\<rparr>"
      using snoc.prems(2,3) snoc.prems(1) t' by (intro snoc.IH) auto
    then show ?thesis using t' by simp
  qed
qed

lemma region_map_remove:
  assumes "wf_regions (pre @ mid @ post)"
    and "\<forall>r \<in> set pre. mr_base r + mr_size r \<le> base"
    and "\<forall>r \<in> set mid. base \<le> mr_base r \<and> mr_base r + mr_size r \<le> end"
    and "\<forall>r \<in> set post. end \<le> mr_base r"
  shows "region_map (pre @ post) = remove_map base end (region_map (pre @ mid @ post))"
proof
  fix a
  show "region_map (pre @ post) a = remove_map base end (region_map (pre @ mid @ post)) a"
  proof (cases "base \<le> a \<and> a < end")
    case True
    then have "region_map pre a = None"
      using assms(2) by (intro region_map_above) auto
    moreover have "region_map post a = None"
      using True assms(4) by (intro region_map_below) auto
    ultimately have "region_map pre a = None" "region_map post a = None" by auto
    with True show ?thesis by (simp add: remove_map_def region_map_append)
  next
    case False
    then have "region_map mid a = None"
      using assms(3) by (induction mid) auto
    with False show ?thesis by (auto simp: remove_map_def region_map_append split: option.splits)
  qed
qed

text \<open>The effect of removing the isolated regions.\<close>

lemma remove_isolated:
  assumes res: "iso_result base end t (Return (s, e, t'))" and "base < end"
    and "total_size t = sizes (regions t)" and "wf_regions (regions t)" and "regions t \<noteq> []"
  shows "type_inv (remove_down (e - s) s t')"
    and "type_map (remove_down (e - s) s t') = remove_map base end (type_map t)"
    and "max_regions (remove_down (e - s) s t') = max_regions t"
    and "region_array (remove_down (e - s) s t') = region_array t"
proof -
  obtain pre mid post where st: "iso_state base end t' pre mid post s e"
    "\<forall>r \<in> set post. end \<le> mr_base r" "region_map (regions t') = region_map (regions t)"
    "sizes (regions t') = sizes (regions t)" "max_regions t' = max_regions t"
    "region_array t' = region_array t" "cnt t' \<le> max_regions t'"
    using res by (auto simp: iso_result_def)
  have regs: "regions t' = pre @ mid @ post" and wf: "wf_regions (pre @ mid @ post)"
    using st(1) by (auto simp: iso_state_def)
  have lt: "sizes (regions t') < 2 ^ 64" using wf_sizes_lt [OF wf] regs by simp
  have tot: "total_size t' = sizes (regions t')"
    using st(1) lt by (simp add: iso_state_def total_ok_def)
  have wf': "wf_regions (pre @ post)" using wf by (auto simp: wf_regions_append)
  have map': "region_map (pre @ post) = remove_map base end (type_map t)"
    using region_map_remove [OF wf, of base "end"] st by (simp add: iso_state_def type_map_def regs)
  have ends: "pre = [] \<or> mr_base (last pre) + mr_size (last pre) \<le> base"
    "post = [] \<or> end \<le> mr_base (hd post)"
    using st by (cases pre rule: rev_cases; cases post; simp add: iso_state_def)+
  have min: "minimal (pre @ post)"
    using st(1,2) ends \<open>base < end\<close> wf
    by (cases post) (auto simp: iso_state_def iso_minimal_def minimal_append wf_regions_append region_ok_def)
  have "type_inv (remove_down (e - s) s t') \<and>
      type_map (remove_down (e - s) s t') = remove_map base end (type_map t) \<and>
      max_regions (remove_down (e - s) s t') = max_regions t \<and>
      region_array (remove_down (e - s) s t') = region_array t"
  proof (cases "mid = []")
    case True
    then have "remove_down (e - s) s t' = t'" using st(1) by (simp add: iso_state_def)
    moreover have "regions t' \<noteq> []"
      using st(4) assms(4,5) by (cases "regions t"; cases "regions t'") (auto simp: region_ok_def)
    ultimately show ?thesis
      using True regs wf' min tot st map' by (auto simp: type_inv_def type_map_def)
  next
    case False
    then have s: "s = length pre" "e - s = length mid" using st(1) by (auto simp: iso_state_def)
    note rd = remove_down_ok [OF regs tot lt False, folded s]
    have "sizes (pre @ post) = sizes [empty_region]" if "pre @ post = []"
      using that by (simp add: empty_region_def)
    moreover have "region_map (pre @ post) = region_map [empty_region]" if "pre @ post = []"
      using that by (auto simp: empty_region_def fun_eq_iff)
    moreover have "1 \<le> length mid" "length mid \<le> max_regions t"
      using False st(5,7) regs by (cases mid; simp)+
    ultimately show ?thesis
      using rd wf' min st regs map' False
      by (auto simp: type_inv_def type_map_def s split: if_splits)
  qed
  then show "type_inv (remove_down (e - s) s t')"
    "type_map (remove_down (e - s) s t') = remove_map base end (type_map t)"
    "max_regions (remove_down (e - s) s t') = max_regions t"
    "region_array (remove_down (e - s) s t') = region_array t" by auto
qed

subsection \<open>What the callers need from the array-growing routine\<close>

definition grown :: "mtype \<Rightarrow> memblock \<Rightarrow> memblock \<Rightarrow> bool" where
  "grown ty mb mb' \<longleftrightarrow>
     (\<forall>ty'. regions (get_type ty' mb') = regions (get_type ty' mb) \<and>
            total_size (get_type ty' mb') = total_size (get_type ty' mb)) \<and>
     (\<forall>ty'. ty' \<noteq> ty \<longrightarrow> get_type ty' mb' = get_type ty' mb) \<and>
     max_regions (get_type ty mb') = 2 * max_regions (get_type ty mb) \<and>
     current_limit mb' = current_limit mb"

locale array_growth =
  fixes dbl :: grow and ready :: "memblock \<Rightarrow> bool"
  assumes dbl_law: "ready mb \<Longrightarrow> mb_inv mb \<Longrightarrow>
      \<exists>ret mb'. dbl ty base sz mb = Return (ret, mb') \<and> ready mb' \<and> mb_inv mb' \<and>
        (ret < 0 \<and> mb' = mb \<or> ret = 0 \<and> grown ty mb mb')"
    and ready_set: "ready mb \<Longrightarrow> region_array t = region_array (get_type ty mb) \<Longrightarrow>
      ready (set_type ty t mb)"
    and ready_record: "ready mb \<Longrightarrow> ready (record_reservation env base sz flags mb)"
begin

lemma make_room_law:
  assumes "ready mb" and "mb_inv mb" and "0 < max_regions (get_type ty mb)"
    and "cnt (get_type ty mb) + nr \<le> 2 ^ n * max_regions (get_type ty mb)" and "n < fuel"
  shows "\<exists>ret mb'. make_room fuel dbl ty nr base sz mb = Return (ret, mb') \<and> ready mb' \<and> mb_inv mb' \<and>
      (\<forall>ty'. regions (get_type ty' mb') = regions (get_type ty' mb) \<and>
             total_size (get_type ty' mb') = total_size (get_type ty' mb)) \<and>
      (\<forall>ty'. ty' \<noteq> ty \<longrightarrow> get_type ty' mb' = get_type ty' mb) \<and>
      (ret = 0 \<and> cnt (get_type ty mb) + nr \<le> max_regions (get_type ty mb') \<or>
       ret = - ENOMEM \<and> cnt (get_type ty mb) + nr > max_regions (get_type ty mb))"
  using assms
proof (induction fuel arbitrary: n mb)
  case 0
  then show ?case by simp
next
  case (Suc fuel)
  show ?case
  proof (cases "cnt (get_type ty mb) + nr > max_regions (get_type ty mb)")
    case False
    then show ?thesis using Suc.prems by simp
  next
    case True
    then obtain m where n: "n = Suc m" using Suc.prems(4) by (cases n) auto
    obtain ret mb1 where d: "dbl ty base sz mb = Return (ret, mb1)" "ready mb1" "mb_inv mb1"
      "ret < 0 \<and> mb1 = mb \<or> ret = 0 \<and> grown ty mb mb1"
      using dbl_law [OF Suc.prems(1,2)] by blast
    show ?thesis
    proof (cases "ret < 0")
      case True
      with d Suc.prems \<open>cnt (get_type ty mb) + nr > max_regions (get_type ty mb)\<close>
      show ?thesis by simp
    next
      case False
      then have g: "ret = 0" "grown ty mb mb1" using d(4) by auto
      have "\<exists>ret mb'. make_room fuel dbl ty nr base sz mb1 = Return (ret, mb') \<and> ready mb' \<and> mb_inv mb' \<and>
        (\<forall>ty'. regions (get_type ty' mb') = regions (get_type ty' mb1) \<and>
               total_size (get_type ty' mb') = total_size (get_type ty' mb1)) \<and>
        (\<forall>ty'. ty' \<noteq> ty \<longrightarrow> get_type ty' mb' = get_type ty' mb1) \<and>
        (ret = 0 \<and> cnt (get_type ty mb1) + nr \<le> max_regions (get_type ty mb') \<or>
         ret = - ENOMEM \<and> cnt (get_type ty mb1) + nr > max_regions (get_type ty mb1))"
        using Suc.prems g n by (intro Suc.IH [of mb1 m] d) (auto simp: grown_def)
      with g d(1) True show ?thesis by (auto simp: grown_def)
    qed
  qed
qed

lemma add_range_law:
  assumes "ready mb" and "mb_inv mb" and "base < 2 ^ 64" and "3 \<le> fuel"
  shows "\<exists>ret mb'. memblock_add_range_with fuel dbl ty base sz nid flags mb = Return (ret, mb') \<and>
      ready mb' \<and> mb_inv mb' \<and> (\<forall>ty'. ty' \<noteq> ty \<longrightarrow> get_type ty' mb' = get_type ty' mb) \<and>
      (ret = 0 \<and> type_map (get_type ty mb') =
           add_map base (range_end base sz) flags (type_map (get_type ty mb)) \<or>
       ret = - ENOMEM \<and> type_map (get_type ty mb') = type_map (get_type ty mb) \<and>
         max_regions (get_type ty mb) < 2 * cnt (get_type ty mb) + 1)"
proof -
  let ?t = "get_type ty mb" and ?e = "range_end base sz"
  have inv: "type_ok ?t" "type_inv ?t" using mb_inv_get [OF assms(2)] by (auto simp: type_ok_def)
  note e = range_end_bounds [OF assms(3), of sz]
  show ?thesis
  proof (cases "?e = base")
    case True
    then show ?thesis
      using assms by (auto simp: memblock_add_range_with_def cap_size_eq add_map_def fun_eq_iff
          split: option.splits)
  next
    case False
    then have lt: "base < ?e" using e by simp
    from inv(2) show ?thesis
    proof (cases rule: type_inv_cases)
      case dummy
      let ?t' = "?t\<lparr>regions := (regions ?t)[0 := \<lparr>mr_base = base, mr_size = ?e - base, mr_flags = flags\<rparr>],
                 total_size := ?e - base\<rparr>"
      have "memblock_add_range_with fuel dbl ty base sz nid flags mb = Return (0, set_type ty ?t' mb)"
        using dummy lt assms(3) by (simp add: memblock_add_range_with_def cap_size_eq empty_region_def Let_def)
      moreover have "type_inv ?t'" "type_map ?t' = add_map base ?e flags (type_map ?t)"
        using type_inv_dummy_set [OF dummy(1) lt _ _ refl] inv(2) e by (auto simp: type_inv_def)
      moreover have "mb_inv (set_type ty ?t' mb)"
        using mb_inv_set [OF assms(2)] \<open>type_inv ?t'\<close> inv(1) by (simp add: type_ok_def)
      ultimately show ?thesis using ready_set [OF assms(1)] by simp
    next
      case live
      let ?nr = "length (add_ref ?e flags base (regions ?t)) - cnt ?t"
      have nr: "cnt ?t + ?nr = length (add_ref ?e flags base (regions ?t))"
        using length_add_ref [of "regions ?t" ?e flags base] by simp
      have cm: "0 < max_regions ?t" "cnt ?t \<le> max_regions ?t"
        using live inv(2) by (auto simp: type_inv_def) (cases "regions ?t"; simp)
      have "cnt ?t + ?nr \<le> 2 ^ 2 * max_regions ?t"
        using nr length_add_ref_le [of ?e flags base "regions ?t"] cm by simp
      from make_room_law [OF assms(1,2) cm(1) this, of fuel base "?e - base"] assms(4)
      obtain ret mb1 where m: "make_room fuel dbl ty ?nr base (?e - base) mb = Return (ret, mb1)"
        "ready mb1" "mb_inv mb1"
        "\<And>ty'. regions (get_type ty' mb1) = regions (get_type ty' mb)"
        "\<And>ty'. total_size (get_type ty' mb1) = total_size (get_type ty' mb)"
        "\<And>ty'. ty' \<noteq> ty \<Longrightarrow> get_type ty' mb1 = get_type ty' mb"
        "ret = 0 \<and> cnt ?t + ?nr \<le> max_regions (get_type ty mb1) \<or>
         ret = - ENOMEM \<and> cnt ?t + ?nr > max_regions ?t"
        by auto
      have run: "memblock_add_range_with fuel dbl ty base sz nid flags mb =
          (if ret < 0 then Return (ret, mb1)
           else obind (add_round True base ?e flags (get_type ty mb1)) (\<lambda>(_, t1).
                obind (memblock_merge_regions t1) (\<lambda>t2. Return (0, set_type ty t2 mb1))))"
        using live lt assms(3) m(1)
        by (simp add: memblock_add_range_with_def cap_size_eq cap_end_eq add_round_count
            cap_end_eq [of base sz, unfolded cap_size_eq [OF assms(3)]])
      show ?thesis
      proof (cases "ret = 0")
        case False
        then show ?thesis
          using run m nr length_add_ref_le [of ?e flags base "regions ?t"]
          by (auto simp: ENOMEM_def type_map_def)
      next
        case True
        have "mb_inv mb1" by fact
        then have ok1: "type_ok (get_type ty mb1)" by (rule mb_inv_get)
        obtain n t1 t2 where "add_round True base ?e flags (get_type ty mb1) = Return (n, t1)"
          "memblock_merge_regions t1 = Return t2" "type_inv t2"
          "type_map t2 = add_map base ?e flags (type_map (get_type ty mb1))"
          "max_regions t2 = max_regions (get_type ty mb1)" "region_array t2 = region_array (get_type ty mb1)"
          using add_round_merge [of "get_type ty mb1" ?e flags base] live m True nr e inv(2)
          by (auto simp: ENOMEM_def type_inv_def)
        with True run m ok1 mb_inv_set [OF \<open>mb_inv mb1\<close>, of t2 ty] ready_set [OF m(2), of t2 ty]
        show ?thesis by (simp add: type_map_def type_ok_def)
      qed
    qed
  qed
qed

lemma room_two_law:
  assumes "ready mb" and "mb_inv mb" and "3 \<le> fuel"
  shows "\<exists>ret mb1. make_room fuel dbl ty 2 base sz mb = Return (ret, mb1) \<and> ready mb1 \<and> mb_inv mb1 \<and>
      (\<forall>ty'. regions (get_type ty' mb1) = regions (get_type ty' mb) \<and>
             total_size (get_type ty' mb1) = total_size (get_type ty' mb)) \<and>
      (\<forall>ty'. ty' \<noteq> ty \<longrightarrow> get_type ty' mb1 = get_type ty' mb) \<and>
      (ret = 0 \<and> cnt (get_type ty mb) + 2 \<le> max_regions (get_type ty mb1) \<or>
       ret = - ENOMEM \<and> cnt (get_type ty mb) + 2 > max_regions (get_type ty mb))"
proof -
  have inv: "type_inv (get_type ty mb)" using mb_inv_get [OF assms(2)] by (auto simp: type_ok_def)
  then have "0 < cnt (get_type ty mb)" "cnt (get_type ty mb) \<le> max_regions (get_type ty mb)"
    by (auto simp: type_inv_def)
  then have "0 < max_regions (get_type ty mb)"
    "cnt (get_type ty mb) + 2 \<le> 2 ^ 2 * max_regions (get_type ty mb)"
    by (simp_all only: power2_eq_square)
  then show ?thesis
    using make_room_law [OF assms(1,2), of ty 2 2 fuel base sz] assms(3) by simp
qed

lemma remove_range_law:
  assumes "ready mb" and "mb_inv mb" and "base < 2 ^ 64" and "3 \<le> fuel"
  shows "\<exists>ret mb'. memblock_remove_range_with fuel dbl ty base sz mb = Return (ret, mb') \<and>
      ready mb' \<and> mb_inv mb' \<and> (\<forall>ty'. ty' \<noteq> ty \<longrightarrow> get_type ty' mb' = get_type ty' mb) \<and>
      (ret = 0 \<and> type_map (get_type ty mb') =
           remove_map base (range_end base sz) (type_map (get_type ty mb)) \<or>
       ret = - ENOMEM \<and> type_map (get_type ty mb') = type_map (get_type ty mb) \<and>
         max_regions (get_type ty mb) < cnt (get_type ty mb) + 2)"
proof -
  let ?t = "get_type ty mb" and ?e = "range_end base sz"
  note e = range_end_bounds [OF assms(3), of sz]
  show ?thesis
  proof (cases "?e = base")
    case True
    then have "memblock_remove_range_with fuel dbl ty base sz mb = Return (0, set_type ty ?t mb)"
      using assms(3) by (simp add: memblock_remove_range_with_def memblock_isolate_range_with_def cap_size_eq)
    moreover have "set_type ty ?t mb = mb" by (cases ty) auto
    ultimately show ?thesis using True assms by (auto simp: remove_map_def fun_eq_iff)
  next
    case False
    then have lt: "base < ?e" using e by simp
    obtain ret mb1 where m: "make_room fuel dbl ty 2 base (?e - base) mb = Return (ret, mb1)"
      "ready mb1" "mb_inv mb1"
      "\<And>ty'. regions (get_type ty' mb1) = regions (get_type ty' mb)"
      "\<And>ty'. ty' \<noteq> ty \<Longrightarrow> get_type ty' mb1 = get_type ty' mb"
      "ret = 0 \<and> cnt ?t + 2 \<le> max_regions (get_type ty mb1) \<or>
       ret = - ENOMEM \<and> cnt ?t + 2 > max_regions ?t"
      using room_two_law [OF assms(1,2,4), of ty base "?e - base"] by auto
    let ?t1 = "get_type ty mb1"
    have ok1: "type_ok ?t1" and inv1: "type_inv ?t1"
      using mb_inv_get [OF m(3)] by (auto simp: type_ok_def)
    have map1: "type_map ?t1 = type_map ?t" using m(4) by (simp add: type_map_def)
    have run: "memblock_remove_range_with fuel dbl ty base sz mb =
        (if ret < 0 then Return (ret, mb1)
         else obind (isolate_loop base ?e 0 0 0 ?t1) (\<lambda>(s, e, t).
              Return (0, set_type ty (remove_down (e - s) s t) (set_type ty t mb1))))"
      using lt assms(3) m(1)
      by (auto simp: memblock_remove_range_with_def memblock_isolate_range_with_def cap_size_eq
          cap_end_eq [of base sz, unfolded cap_size_eq [OF assms(3)]] obind_assoc Let_def
          intro!: arg_cong [where f = "obind _"] split: prod.splits)
    have set2: "set_type ty b (set_type ty a m) = set_type ty b m" for a b m
      by (cases ty) auto
    show ?thesis
    proof (cases "ret = 0")
      case False
      then show ?thesis using run m map1 by (auto simp: ENOMEM_def)
    next
      case True
      from inv1 show ?thesis
      proof (cases rule: type_inv_cases)
        case dummy
        have "set_type ty ?t1 mb1 = mb1" by (cases ty) auto
        moreover have "remove_map base ?e (type_map ?t1) = type_map ?t1"
          using dummy by (auto simp: remove_map_def type_map_def empty_region_def fun_eq_iff)
        ultimately show ?thesis
          using True run m map1 isolate_dummy [OF dummy(1)] by auto
      next
        case live
        then have "iso_result base ?e ?t1 (isolate_loop base ?e 0 0 0 ?t1)"
          using isolate_live [OF inv1] m True lt e by (simp add: ENOMEM_def)
        moreover from this obtain s f t where it: "isolate_loop base ?e 0 0 0 ?t1 = Return (s, f, t)"
          by (auto simp: iso_result_def)
        ultimately have "iso_result base ?e ?t1 (Return (s, f, t))" by simp
        note ri = remove_isolated [OF this lt _ live(2,1)]
        let ?t2 = "remove_down (f - s) s t"
        have "type_ok ?t2" using ri ok1 inv1 by (auto simp: type_ok_def type_inv_def)
        then show ?thesis
          using True run it ri inv1 m(2,3,5) map1 mb_inv_set [OF m(3), of ?t2 ty]
            ready_set [OF m(2), of ?t2 ty] by (auto simp: set2 type_inv_def)
      qed
    qed
  qed
qed

lemma reserve_law:
  assumes "ready mb" and "mb_inv mb" and "base < 2 ^ 64" and "3 \<le> fuel"
  shows "\<exists>ret mb'. memblock_reserve_region_with env fuel dbl base sz nid flags mb = Return (ret, mb') \<and>
      ready mb' \<and> mb_inv mb' \<and> memory mb' = memory mb \<and>
      (ret = 0 \<and> type_map (reserved mb') =
           add_map base (range_end base sz) flags (type_map (reserved mb)) \<or>
       ret = - ENOMEM \<and> type_map (reserved mb') = type_map (reserved mb) \<and>
         max_regions (reserved mb) < 2 * cnt (reserved mb) + 1)"
proof -
  let ?mb = "record_reservation env base sz flags mb"
  have f: "memory ?mb = memory mb" "reserved ?mb = reserved mb"
    by (auto simp: record_reservation_def)
  then have "mb_inv ?mb" using assms(2) by (simp add: mb_inv_def)
  from add_range_law [OF ready_record [OF assms(1)] this assms(3,4), of Reserved]
  show ?thesis
    unfolding memblock_reserve_region_with_def get_type.simps f
    by (metis f get_type.simps mtype.distinct(1))
qed

end

subsection \<open>The contract is met\<close>

text \<open>
  \<^verbatim>\<open>memblock_double_array\<close> calls back into memblock only when it takes its array from memblock
  itself, or gives back one it got from there. That is between \<^verbatim>\<open>memblock_allow_resize\<close> and
  the start of the slab allocator; the theorems below cover the time before and after.
  \<^verbatim>\<open>kmalloc\<close> refuses requests beyond a maximal size, here a generous \<open>2 ^ 35\<close> bytes.
\<close>

definition kmalloc_bounded :: "memblock_env \<Rightarrow> bool" where
  "kmalloc_bounded env \<longleftrightarrow> (\<forall>n. 2 ^ 35 \<le> n \<longrightarrow> kmalloc_pa env n = 0)"

definition simple_growth :: "memblock_env \<Rightarrow> memblock \<Rightarrow> bool" where
  "simple_growth env mb \<longleftrightarrow>
     \<not> memblock_can_resize mb \<or>
     slab_is_available env \<and> kmalloc_bounded env \<and>
       (\<forall>ty. in_slab ty mb \<or> region_array (get_type ty mb) = StaticArray)"

lemma simple_growth_set:
  "simple_growth env mb \<Longrightarrow> region_array t = region_array (get_type ty mb) \<Longrightarrow>
    simple_growth env (set_type ty t mb)"
proof -
  assume a: "simple_growth env mb" "region_array t = region_array (get_type ty mb)"
  have "memblock_can_resize (set_type ty t mb) = memblock_can_resize mb"
    "\<And>ty'. in_slab ty' (set_type ty t mb) = in_slab ty' mb"
    "\<And>ty'. region_array (get_type ty' (set_type ty t mb)) = region_array (get_type ty' mb)"
    using a(2) by (cases ty; auto simp: in_slab_def split: mtype.splits; case_tac ty'; auto)+
  with a(1) show ?thesis by (simp add: simple_growth_def)
qed

lemma set_in_slab_frame [simp]:
  "get_type ty' (set_in_slab ty v mb) = get_type ty' mb"
  "current_limit (set_in_slab ty v mb) = current_limit mb"
  "memblock_can_resize (set_in_slab ty v mb) = memblock_can_resize mb"
  by (cases ty'; cases ty; simp add: set_in_slab_def)+

lemma in_slab_set [simp]:
  "in_slab ty (set_in_slab ty v mb) = v"
  "ty' \<noteq> ty \<Longrightarrow> in_slab ty' (set_in_slab ty v mb) = in_slab ty' mb"
  "in_slab ty' (set_type ty t mb) = in_slab ty' mb"
  by (cases ty'; cases ty; simp add: set_in_slab_def in_slab_def)+

lemma set_type_frame [simp]:
  "current_limit (set_type ty t mb) = current_limit mb"
  "memblock_can_resize (set_type ty t mb) = memblock_can_resize mb"
  by (cases ty; simp)+

lemma mb_inv_iff: "mb_inv mb \<longleftrightarrow> (\<forall>ty. type_ok (get_type ty mb))"
  by (metis get_type.simps mb_inv_def mb_inv_get)

lemma double_array_simple:
  assumes "simple_growth env mb" and "mb_inv mb"
  shows "\<exists>ret mb'. memblock_double_array env free rsv ty base sz mb = Return (ret, mb') \<and>
      simple_growth env mb' \<and> mb_inv mb' \<and> (ret < 0 \<and> mb' = mb \<or> ret = 0 \<and> grown ty mb mb')"
proof (cases "memblock_can_resize mb")
  case False
  with assms show ?thesis by (simp add: memblock_double_array_def)
next
  case True
  let ?t = "get_type ty mb"
  have slab: "slab_is_available env" "kmalloc_bounded env"
    "\<And>ty. in_slab ty mb \<or> region_array (get_type ty mb) = StaticArray"
    using assms(1) True by (auto simp: simple_growth_def)
  have ok: "type_inv ?t" "max_regions ?t * sizeof_region < 2 ^ 35"
    using mb_inv_get [OF assms(2)] by (auto simp: type_ok_def)
  let ?n = "2 * (max_regions ?t * sizeof_region)"
  have dbl: "k < 2 ^ 35 \<Longrightarrow> shl64 (k mod 2 ^ 64) 1 = 2 * k" "k < 2 ^ 35 \<Longrightarrow> shl64 k 1 = 2 * k" for k
    using shl64_eq [of k 1] by simp_all
  note n = dbl(1) [OF ok(2)]
  have m: "shl64 (max_regions ?t) 1 = 2 * max_regions ?t"
    using ok(2) by (intro dbl) (simp add: sizeof_region_def)
  note nm = n [simplified] m [simplified]
  show ?thesis
  proof (cases "kmalloc_pa env ?n = 0")
    case True
    with assms slab(1) \<open>memblock_can_resize mb\<close> show ?thesis
      by (simp add: memblock_double_array_def double_find_def Let_def nm)
  next
    case False
    then have "?n < 2 ^ 35" using slab(2) by (metis kmalloc_bounded_def not_le)
    let ?t' = "?t\<lparr>region_array := ArrayAt (kmalloc_pa env ?n), max_regions := 2 * max_regions ?t\<rparr>"
    let ?mb = "set_in_slab ty True (set_type ty ?t' mb)"
    have "memblock_double_array env free rsv ty base sz mb = Return (0, ?mb)"
      using slab False \<open>memblock_can_resize mb\<close>
      by (cases "in_slab ty mb")
        (use slab(3) [of ty] in \<open>auto simp: memblock_double_array_def double_find_def Let_def nm\<close>)
    moreover have "type_ok ?t'"
      using ok \<open>?n < 2 ^ 35\<close> by (auto simp: type_ok_def type_inv_def)
    then have "mb_inv ?mb"
      using assms(2) by (auto simp: mb_inv_iff) (metis get_set_other get_set_type)
    moreover have "in_slab ty' ?mb \<or> region_array (get_type ty' ?mb) = StaticArray" for ty'
      using slab(3) [of ty'] by (cases "ty' = ty") auto
    then have "simple_growth env ?mb"
      using slab True by (simp add: simple_growth_def)
    moreover have "grown ty mb ?mb"
      unfolding grown_def by (auto, (metis get_set_other get_set_type memblock_type.select_convs
          memblock_type.surjective memblock_type.update_convs)+)
    ultimately show ?thesis by blast
  qed
qed

interpretation simple: array_growth "double_fuel (Suc fuel) env" "simple_growth env" for fuel env
proof unfold_locales
  fix mb ty base sz
  assume "simple_growth env mb" "mb_inv mb"
  then show "\<exists>ret mb'. double_fuel (Suc fuel) env ty base sz mb = Return (ret, mb') \<and>
      simple_growth env mb' \<and> mb_inv mb' \<and> (ret < 0 \<and> mb' = mb \<or> ret = 0 \<and> grown ty mb mb')"
    by (simp add: double_array_simple)
next
  fix mb t ty
  show "simple_growth env mb \<Longrightarrow> region_array t = region_array (get_type ty mb) \<Longrightarrow>
      simple_growth env (set_type ty t mb)"
    by (rule simple_growth_set)
next
  fix mb env' base sz flags
  have "get_type ty (record_reservation env' base sz flags mb) = get_type ty mb"
    "in_slab ty (record_reservation env' base sz flags mb) = in_slab ty mb"
    "memblock_can_resize (record_reservation env' base sz flags mb) = memblock_can_resize mb" for ty
    by (cases ty; simp add: record_reservation_def in_slab_def)+
  then show "simple_growth env mb \<Longrightarrow> simple_growth env (record_reservation env' base sz flags mb)"
    by (simp add: simple_growth_def)
qed

end
