(* ===== verification/Memblock_Find.thy ===== *)
theory Memblock_Find
  imports Memblock_Ops
begin

text \<open>
  Lookup and search in \<^verbatim>\<open>mm/memblock.c\<close>: the binary search and the queries built on it, the
  reverse walk over the free areas, and the top-down search for a free area, shown to return only
  areas that are free and to fail only when there is none.
\<close>

subsection \<open>Binary search\<close>

definition covers :: "memblock_region \<Rightarrow> nat \<Rightarrow> bool" where
  "covers r a \<longleftrightarrow> mr_base r \<le> a \<and> a < mr_base r + mr_size r"

lemma wf_nth_before:
  "wf_regions rs \<Longrightarrow> i < j \<Longrightarrow> j < length rs \<Longrightarrow> mr_base (rs ! i) + mr_size (rs ! i) \<le> mr_base (rs ! j)"
  by (auto simp: wf_regions_def sorted_wrt_iff_nth_less before_def)

lemma wf_nth_ok: "wf_regions rs \<Longrightarrow> i < length rs \<Longrightarrow> region_ok (rs ! i)"
  by (simp add: wf_regions_def)

lemma search_loop_correct:
  assumes "wf_regions rs" and "left < right" and "right \<le> length rs"
    and "\<forall>j < left. mr_base (rs ! j) + mr_size (rs ! j) \<le> addr"
    and "\<forall>j < length rs. right \<le> j \<longrightarrow> addr < mr_base (rs ! j)"
  shows "search_loop rs addr left right = -1 \<and> (\<forall>j < length rs. \<not> covers (rs ! j) addr) \<or>
    (\<exists>k < length rs. search_loop rs addr left right = int k \<and> covers (rs ! k) addr)"
  using assms
proof (induction rs addr left right rule: search_loop.induct)
  case (1 rs addr left right)
  let ?m = "(right + left) div 2"
  have m: "left \<le> ?m" "?m < right" "?m < length rs" using 1(4,5) by auto
  have e: "region_end (rs ! ?m) = mr_base (rs ! ?m) + mr_size (rs ! ?m)"
    using wf_nth_ok [OF 1(3) m(3)] by (rule region_end_ok)
  have gap: "(\<forall>j < length rs. \<not> covers (rs ! j) addr)"
    if "\<forall>j < k. mr_base (rs ! j) + mr_size (rs ! j) \<le> addr"
      and "\<forall>j < length rs. k \<le> j \<longrightarrow> addr < mr_base (rs ! j)" for k
  proof (intro allI impI)
    fix j assume "j < length rs"
    with that show "\<not> covers (rs ! j) addr"
      unfolding covers_def by (cases "j < k") auto
  qed
  consider (low) "addr < mr_base (rs ! ?m)" | (high) "mr_base (rs ! ?m) + mr_size (rs ! ?m) \<le> addr"
    | (hit) "covers (rs ! ?m) addr"
    unfolding covers_def by linarith
  then show ?case
  proof cases
    case low
    have above: "\<forall>j < length rs. ?m \<le> j \<longrightarrow> addr < mr_base (rs ! j)"
    proof (intro allI impI)
      fix j assume "j < length rs" "?m \<le> j"
      then show "addr < mr_base (rs ! j)"
        using low wf_nth_before [OF 1(3), of ?m j] by (cases "j = ?m") auto
    qed
    show ?thesis
    proof (cases "left < ?m")
      case True
      have "search_loop rs addr left right = search_loop rs addr left ?m"
        using low True by (subst search_loop.simps) (simp add: Let_def)
      with 1(1) [OF refl low True 1(3) True _ 1(6) above] m show ?thesis by simp
    next
      case False
      then have "left = ?m" using m by simp
      moreover have "search_loop rs addr left right = -1"
        using low False by (subst search_loop.simps) (simp add: Let_def)
      ultimately show ?thesis using gap [of left] 1(6) above by simp
    qed
  next
    case high
    have nlow: "\<not> addr < mr_base (rs ! ?m)" using high by linarith
    have below: "\<forall>j < Suc ?m. mr_base (rs ! j) + mr_size (rs ! j) \<le> addr"
    proof (intro allI impI)
      fix j assume "j < Suc ?m"
      then show "mr_base (rs ! j) + mr_size (rs ! j) \<le> addr"
        using high wf_nth_before [OF 1(3), of j ?m] m(3) nlow by (cases "j = ?m") auto
    qed
    show ?thesis
    proof (cases "Suc ?m < right")
      case True
      have "search_loop rs addr left right = search_loop rs addr (Suc ?m) right"
        using high nlow True e by (subst search_loop.simps) (simp add: Let_def)
      with 1(2) [OF refl nlow _ True 1(3) True 1(5) below 1(7)] high e show ?thesis by simp
    next
      case False
      then have "right = Suc ?m" using m by simp
      moreover have "search_loop rs addr left right = -1"
        using high nlow False e by (subst search_loop.simps) (simp add: Let_def)
      ultimately show ?thesis using gap [of "Suc ?m"] 1(7) below by simp
    qed
  next
    case hit
    then have "search_loop rs addr left right = int ?m"
      using e by (subst search_loop.simps) (simp add: Let_def covers_def)
    with hit m show ?thesis by blast
  qed
qed

lemma search_dummy: "regions t = [empty_region] \<Longrightarrow> memblock_search t a = -1"
  unfolding memblock_search_def by (subst search_loop.simps) (simp add: empty_region_def add64_def)

lemma region_map_nth: "region_map rs a \<noteq> None \<longleftrightarrow> (\<exists>j < length rs. covers (rs ! j) a)"
  unfolding region_map_Some_iff covers_def by (metis in_set_conv_nth)

lemma search_cases:
  assumes "type_inv t"
  obtains (miss) "memblock_search t a = -1" "type_map t a = None"
  | (hit) k where "k < cnt t" "memblock_search t a = int k" "covers (regions t ! k) a"
      "type_map t a \<noteq> None" "wf_regions (regions t)"
  using assms
proof (cases rule: type_inv_cases)
  case dummy
  then show ?thesis
    using miss search_dummy by (simp add: type_map_def empty_region_def)
next
  case live
  from search_loop_correct [OF live(2), of 0 "cnt t" a] live(1)
  show ?thesis
    using miss hit live(2) region_map_nth [of "regions t" a]
    unfolding memblock_search_def [symmetric] type_map_def by auto
qed

lemma search_iff: "type_inv t \<Longrightarrow> memblock_search t a \<noteq> -1 \<longleftrightarrow> type_map t a \<noteq> None"
  by (cases rule: search_cases [of t a]) auto


subsection \<open>The reverse walk\<close>

text \<open>Arrays as the walk sees them: regions in order, none of them wrapping.\<close>

definition ordered :: "memblock_region list \<Rightarrow> bool" where
  "ordered rs \<longleftrightarrow> (\<forall>r \<in> set rs. mr_base r + mr_size r < 2 ^ 64) \<and> sorted_wrt before rs"

lemma type_inv_ordered: "type_inv t \<Longrightarrow> ordered (regions t)"
  by (cases rule: type_inv_cases)
    (auto simp: ordered_def empty_region_def wf_regions_def region_ok_def)

lemma ordered_end: "ordered rs \<Longrightarrow> i < length rs \<Longrightarrow> region_end (rs ! i) = mr_base (rs ! i) + mr_size (rs ! i)"
  by (simp add: ordered_def add64_eq)

lemma ordered_lt: "ordered rs \<Longrightarrow> i < j \<Longrightarrow> j < length rs \<Longrightarrow> region_end (rs ! i) \<le> mr_base (rs ! j)"
  by (auto simp: ordered_end) (auto simp: ordered_def sorted_wrt_iff_nth_less before_def)

lemma ordered_le: "ordered rs \<Longrightarrow> i \<le> j \<Longrightarrow> j < length rs \<Longrightarrow> mr_base (rs ! i) \<le> mr_base (rs ! j)"
  using ordered_lt [of rs i j] ordered_end [of rs i] by (cases "i = j") auto

lemma gap_order:
  assumes "ordered rs" and "0 \<le> j" and "j < k" and "k \<le> int (length rs)"
  shows "gap_end rs j \<le> gap_start rs k"
proof -
  have "mr_base (rs ! nat j) \<le> mr_base (rs ! nat (k - 1))"
    using assms by (intro ordered_le) auto
  also have "\<dots> \<le> region_end (rs ! nat (k - 1))"
    using assms ordered_end [of rs "nat (k - 1)"] by auto
  finally show ?thesis using assms by (simp add: gap_end_def gap_start_def)
qed

lemma gap_wide:
  assumes "ordered rs" and "0 \<le> k" and "k \<le> int (length rs)"
  shows "gap_start rs k \<le> gap_end rs k"
  using assms ordered_lt [OF assms(1), of "nat (k - 1)" "nat k"]
    ULLONG_MAX_lt [THEN iffD2, OF add64_lt]
  by (auto simp: gap_start_def gap_end_def nat_less_iff nat_diff_distrib)

lemma gap_end_mono:
  "ordered rs \<Longrightarrow> 0 \<le> j \<Longrightarrow> j \<le> k \<Longrightarrow> k \<le> int (length rs) \<Longrightarrow> gap_end rs j \<le> gap_end rs k"
  using gap_order [of rs j k] gap_wide [of rs k] by (cases "j = k") auto

definition meets :: "memblock_region \<Rightarrow> memblock_region list \<Rightarrow> int \<Rightarrow> bool" where
  "meets m rs b \<longleftrightarrow> gap_start rs b < region_end m \<and> mr_base m < gap_end rs b"

lemma scan_b_rev_spec:
  assumes "ordered rs" and "-1 \<le> b" and "b \<le> int (length rs)"
    and "next_scan_b_rev rs (mr_base m) (region_end m) b = (b', r)"
  shows "-1 \<le> b' \<and> b' \<le> b \<and> (\<forall>j. b' < j \<and> j \<le> b \<longrightarrow> region_end m \<le> gap_start rs j) \<and>
    (case r of None \<Rightarrow> 0 \<le> b' \<longrightarrow> gap_end rs b' \<le> mr_base m
     | Some (s, e) \<Rightarrow> 0 \<le> b' \<and> s = gap_start rs b' \<and> e = gap_end rs b' \<and> meets m rs b')"
  using assms
proof (induction rs "mr_base m" "region_end m" b rule: next_scan_b_rev.induct)
  case (1 rs b)
  show ?case
  proof (cases "0 \<le> b \<and> mr_base m < gap_end rs b \<and> region_end m \<le> gap_start rs b")
    case True
    then have "next_scan_b_rev rs (mr_base m) (region_end m) (b - 1) = (b', r)"
      using 1(5) by (subst (asm) next_scan_b_rev.simps) (simp add: Let_def)
    with 1(1) [OF _ refl refl] 1(2-4) True show ?thesis
      by (auto simp: not_le) (metis add.commute diff_add_cancel le_less zle_diff1_eq)+
  next
    case False
    with 1(2-5) show ?thesis
      by (subst (asm) next_scan_b_rev.simps)
        (auto simp: Let_def meets_def not_le not_less split: if_splits)
  qed
qed


text \<open>A pair of a memory region the walk may use and a gap that meets it.\<close>

definition eligible :: "memblock \<Rightarrow> int \<Rightarrow> memblock_region \<Rightarrow> bool" where
  "eligible mb nid m \<longleftrightarrow> (nid = NUMA_NO_NODE \<or> nid = memblock_get_region_node m) \<and>
     \<not> (movable_node_is_enabled mb \<and> memblock_is_hotpluggable mb m)"

definition area :: "memblock \<Rightarrow> int \<Rightarrow> memblock_region list \<Rightarrow> memblock_region list \<Rightarrow> int \<Rightarrow> int \<Rightarrow> bool" where
  "area mb nid rsa rs x y \<longleftrightarrow> 0 \<le> x \<and> x < int (length rsa) \<and> 0 \<le> y \<and> y \<le> int (length rs) \<and>
     eligible mb nid (rsa ! nat x) \<and> meets (rsa ! nat x) rs y"

lemma next_loop_rev_skip:
  "0 \<le> a \<Longrightarrow> \<not> eligible mb nid (rsa ! nat a) \<Longrightarrow>
    next_loop_rev mb nid rsa rs a b = next_loop_rev mb nid rsa rs (a - 1) b"
  by (subst next_loop_rev.simps) (auto simp: eligible_def Let_def)

lemma next_loop_rev_scan:
  "0 \<le> a \<Longrightarrow> eligible mb nid (rsa ! nat a) \<Longrightarrow>
    next_loop_rev mb nid rsa rs a b =
      (case next_scan_b_rev rs (mr_base (rsa ! nat a)) (region_end (rsa ! nat a)) b of
        (b', Some (r_start, r_end)) \<Rightarrow>
          Some (if mr_base (rsa ! nat a) \<ge> r_start then pack_idx (a - 1) b' else pack_idx a (b' - 1),
            max (mr_base (rsa ! nat a)) r_start, min (region_end (rsa ! nat a)) r_end)
      | (b', None) \<Rightarrow> next_loop_rev mb nid rsa rs (a - 1) b')"
  by (subst next_loop_rev.simps) (auto simp: eligible_def Let_def)

text \<open>
  The contract of one call of the walk at position \<open>(a, b)\<close>: it ends only when no area is left at or
  before the position, and otherwise yields one and a smaller position that keeps all the others.
\<close>

definition walk_spec where
  "walk_spec mb nid rsa rs a b res \<longleftrightarrow> (case res of
      None \<Rightarrow> \<forall>x y. area mb nid rsa rs x y \<and> x \<le> a \<and> y \<le> b \<longrightarrow> False
    | Some (i, s, e) \<Rightarrow> \<exists>x y a' b'. area mb nid rsa rs x y \<and> x \<le> a \<and> y \<le> b \<and>
        s = max (mr_base (rsa ! nat x)) (gap_start rs y) \<and> e = min (region_end (rsa ! nat x)) (gap_end rs y) \<and>
        i = pack_idx a' b' \<and> -1 \<le> a' \<and> a' \<le> a \<and> 0 \<le> b' \<and> b' \<le> b \<and> a' + b' < a + b \<and>
        (\<forall>x' y'. area mb nid rsa rs x' y' \<and> x' \<le> a \<and> y' \<le> b \<longrightarrow> x' = x \<and> y' = y \<or> x' \<le> a' \<and> y' \<le> b'))"

lemma walk_specI:
  assumes "area mb nid rsa rs x y" "x \<le> a" "y \<le> b"
    and "s = max (mr_base (rsa ! nat x)) (gap_start rs y)" "e = min (region_end (rsa ! nat x)) (gap_end rs y)"
    and "i = pack_idx a' b'" "-1 \<le> a'" "a' \<le> a" "0 \<le> b'" "b' \<le> b" "a' + b' < a + b"
    and "\<And>x' y'. area mb nid rsa rs x' y' \<Longrightarrow> x' \<le> a \<Longrightarrow> y' \<le> b \<Longrightarrow>
      x' = x \<and> y' = y \<or> x' \<le> a' \<and> y' \<le> b'"
  shows "walk_spec mb nid rsa rs a b (Some (i, s, e))"
  unfolding walk_spec_def option.case prod.case using assms by blast

lemma walk_specE:
  assumes "walk_spec mb nid rsa rs a b (Some (i, s, e))"
  obtains x y a' b' where "area mb nid rsa rs x y" "x \<le> a" "y \<le> b"
    and "s = max (mr_base (rsa ! nat x)) (gap_start rs y)" "e = min (region_end (rsa ! nat x)) (gap_end rs y)"
    and "i = pack_idx a' b'" "-1 \<le> a'" "a' \<le> a" "0 \<le> b'" "b' \<le> b" "a' + b' < a + b"
    and "\<And>x' y'. area mb nid rsa rs x' y' \<Longrightarrow> x' \<le> a \<Longrightarrow> y' \<le> b \<Longrightarrow>
      x' = x \<and> y' = y \<or> x' \<le> a' \<and> y' \<le> b'"
  using assms unfolding walk_spec_def option.case prod.case by blast

lemma walk_spec_weaken:
  assumes spec: "walk_spec mb nid rsa rs a1 b1 res" and le: "a1 \<le> a" "b1 \<le> b"
    and same: "\<And>x y. area mb nid rsa rs x y \<Longrightarrow> x \<le> a \<Longrightarrow> y \<le> b \<Longrightarrow> x \<le> a1 \<and> y \<le> b1"
  shows "walk_spec mb nid rsa rs a b res"
proof (cases res)
  case None
  with spec same show ?thesis unfolding walk_spec_def None option.case by blast
next
  case (Some ise)
  obtain i s e where ise: "ise = (i, s, e)" by (cases ise)
  show ?thesis
    using spec unfolding Some ise
  proof (cases rule: walk_specE)
    case (1 x y a' b')
    show "walk_spec mb nid rsa rs a b (Some (i, s, e))"
      by (rule walk_specI [OF 1(1) _ _ 1(4-7) _ 1(9)]) (use 1 le same in \<open>simp_all\<close>)
  qed
qed

lemma found_next:
  assumes "ordered rsa" and "ordered rs" and "0 \<le> a" and "a < int (length rsa)" and "0 \<le> b"
    and "b \<le> int (length rs)" and "eligible mb nid (rsa ! nat a)" and "meets (rsa ! nat a) rs b"
  shows "walk_spec mb nid rsa rs a b
    (Some (if gap_start rs b \<le> mr_base (rsa ! nat a) then pack_idx (a - 1) b else pack_idx a (b - 1),
      max (mr_base (rsa ! nat a)) (gap_start rs b), min (region_end (rsa ! nat a)) (gap_end rs b)))"
proof -
  let ?m = "rsa ! nat a"
  have here: "area mb nid rsa rs a b" using assms by (simp add: area_def)
  have len: "nat a < length rsa" using assms(3,4) by (simp add: nat_less_iff)
  show ?thesis
  proof (cases "gap_start rs b \<le> mr_base ?m")
    case True
    have same: "y = b" if "area mb nid rsa rs a y" "y \<le> b" for y
      using gap_order [OF assms(2), of y b] assms(6) that True
      by (cases "y < b") (auto simp: area_def meets_def)
    show ?thesis
    proof (rule walk_specI [OF here, where a' = "a - 1" and b' = b])
      fix x y assume "area mb nid rsa rs x y" "x \<le> a" "y \<le> b"
      then show "x = a \<and> y = b \<or> x \<le> a - 1 \<and> y \<le> b"
        using same [of y] by (cases "x = a") auto
    qed (use True assms(3,5) in auto)
  next
    case False
    have same: "x = a" if "area mb nid rsa rs x b" "x \<le> a" for x
      using ordered_lt [OF assms(1), of "nat x" "nat a"] len that False
      by (cases "x < a") (auto simp: area_def meets_def)
    have "b \<noteq> 0" using False by (auto simp: gap_start_def)
    show ?thesis
    proof (rule walk_specI [OF here, where a' = a and b' = "b - 1"])
      fix x y assume "area mb nid rsa rs x y" "x \<le> a" "y \<le> b"
      then show "x = a \<and> y = b \<or> x \<le> a \<and> y \<le> b - 1"
        using same [of x] by (cases "y = b") auto
    qed (use False \<open>b \<noteq> 0\<close> assms(3,5) in auto)
  qed
qed

lemma next_loop_rev_spec:
  assumes "ordered rsa" and "ordered rs" and "-1 \<le> a" and "a < int (length rsa)"
    and "-1 \<le> b" and "b \<le> int (length rs)"
  shows "walk_spec mb nid rsa rs a b (next_loop_rev mb nid rsa rs a b)"
  using assms
proof (induction "nat (a + 1)" arbitrary: a b rule: less_induct)
  case less
  let ?m = "rsa ! nat a"
  consider (stop) "a < 0" | (skip) "0 \<le> a" "\<not> eligible mb nid ?m" | (scan) "0 \<le> a" "eligible mb nid ?m"
    by linarith
  then show ?case
  proof cases
    case stop
    then show ?thesis by (subst next_loop_rev.simps) (auto simp: area_def walk_spec_def)
  next
    case skip
    have "x \<le> a - 1" if "area mb nid rsa rs x y" "x \<le> a" for x y
      using that skip by (cases "x = a") (auto simp: area_def)
    then show ?thesis
      unfolding next_loop_rev_skip [OF skip]
      by (intro walk_spec_weaken [OF less(1)]) (use less(2-) skip in auto)
  next
    case scan
    obtain b' r where r: "next_scan_b_rev rs (mr_base ?m) (region_end ?m) b = (b', r)" by fastforce
    have len: "nat a < length rsa" using less(5) scan(1) by (simp add: nat_less_iff)
    note sp = scan_b_rev_spec [OF less(3,6,7) r]
    have drop: "y \<le> b'" if "area mb nid rsa rs x y" "x \<le> a" "y \<le> b" for x y
    proof (rule ccontr)
      assume "\<not> y \<le> b'"
      then have "region_end ?m \<le> gap_start rs y" using sp that by auto
      moreover have "region_end (rsa ! nat x) \<le> region_end ?m"
        using ordered_lt [OF less(2), of "nat x" "nat a"] ordered_end [OF less(2) len] that(1,2) len
        by (cases "x = a") (auto simp: area_def)
      ultimately show False using that(1) by (auto simp: area_def meets_def)
    qed
    show ?thesis
    proof (cases r)
      case None
      have "x \<le> a - 1" if "area mb nid rsa rs x y" "x \<le> a" "y \<le> b" for x y
      proof (rule ccontr)
        assume "\<not> x \<le> a - 1"
        then have "x = a" using that by simp
        moreover have "y \<le> b'" by (rule drop [OF that])
        moreover have "gap_end rs y \<le> gap_end rs b'"
          using gap_end_mono [OF less(3)] calculation(2) that(1) sp less(7) by (simp add: area_def)
        ultimately show False using that sp None by (auto simp: area_def meets_def)
      qed
      with drop show ?thesis
        unfolding next_loop_rev_scan [OF scan] r None prod.case option.case
        by (intro walk_spec_weaken [OF less(1)]) (use less(2-) scan sp in auto)
    next
      case (Some se)
      then have "walk_spec mb nid rsa rs a b' (next_loop_rev mb nid rsa rs a b)"
        unfolding next_loop_rev_scan [OF scan] r Some
        using found_next [OF less(2,3) scan(1) less(5) _ _ scan(2), of b'] sp Some less(7)
        by (cases se) auto
      then show ?thesis by (rule walk_spec_weaken) (use drop sp in auto)
    qed
  qed
qed


subsection \<open>The top-down search\<close>

lemma pack_idx_parts:
  assumes "-1 \<le> a" "a < 2 ^ 31" "-1 \<le> b" "b < 2 ^ 31"
  shows "idx_a_of (pack_idx a b) = a" and "idx_b_of (pack_idx a b) = b"
  using assms u32_lt [of a] s32_u32 [of a] s32_u32 [of b]
  by (simp_all add: idx_a_of_def idx_b_of_def pack_idx_def)

lemma pack_idx_not_end:
  assumes "0 \<le> b" "b < 2 ^ 31" shows "pack_idx a b \<noteq> ULLONG_MAX"
proof -
  have "u32 b < 2 ^ 31" using assms by (simp add: u32_def nat_less_iff)
  then have "pack_idx a b < 2 ^ 63" using u32_lt [of a] by (simp add: pack_idx_def)
  then show ?thesis by (simp add: ULLONG_MAX_def)
qed

text \<open>What the walk hands out lies in one memory region and in no reserved region.\<close>

lemma gap_free:
  assumes "ordered rs" and "0 \<le> y" and "y \<le> int (length rs)" and "gap_start rs y \<le> p" and "p < gap_end rs y"
  shows "region_map rs p = None"
proof -
  have "\<not> covers (rs ! j) p" if j: "j < length rs" for j
  proof (cases "int j < y")
    case True
    then obtain k where k: "y = int (Suc k)" "j \<le> k" "k < length rs"
      using assms(3) that [of "nat y - 1"] by linarith
    have "region_end (rs ! j) \<le> region_end (rs ! k)"
      using k ordered_lt [OF assms(1), of j k] ordered_end [OF assms(1), of k] by (cases "j = k") auto
    then have "region_end (rs ! j) \<le> gap_start rs y" using k by (simp add: gap_start_def)
    with True assms(4) ordered_end [OF assms(1) j] show ?thesis by (auto simp: covers_def gap_start_def)
  next
    case False
    then have "gap_end rs y \<le> gap_end rs (int j)" using assms j by (intro gap_end_mono) auto
    with assms(5) j show ?thesis by (simp add: gap_end_def covers_def)
  qed
  then show ?thesis using region_map_nth by blast
qed

lemma region_map_member:
  "r \<in> set rs \<Longrightarrow> covers r p \<Longrightarrow> region_map rs p \<noteq> None"
  unfolding region_map_Some_iff covers_def by blast

text \<open>Conversely a reservation-free interval below the top of the address space lies in one gap.\<close>

lemma free_in_gap:
  assumes "ordered rs" and "c < d" and "d \<le> ULLONG_MAX"
    and free: "\<And>p. c \<le> p \<Longrightarrow> p < d \<Longrightarrow> region_map rs p = None"
    and pos: "\<And>r. r \<in> set rs \<Longrightarrow> 0 < mr_size r \<or> rs = [empty_region]"
  shows "\<exists>y. 0 \<le> y \<and> y \<le> int (length rs) \<and> gap_start rs y \<le> c \<and> d \<le> gap_end rs y"
proof -
  let ?P = "\<lambda>j. j < length rs \<longrightarrow> c < region_end (rs ! j)"
  define k where "k = (LEAST j. ?P j)"
  have P: "?P k" unfolding k_def by (rule LeastI [of ?P "length rs"]) simp
  have small: "\<not> ?P j" if "j < k" for j using that unfolding k_def by (rule not_less_Least)
  have k: "k \<le> length rs" unfolding k_def by (rule Least_le) simp
  have start: "gap_start rs (int k) \<le> c"
    using small [of "k - 1"] by (cases k) (auto simp: gap_start_def nat_diff_distrib)
  have "d \<le> gap_end rs (int k)"
  proof (cases "k < length rs")
    case True
    let ?r = "rs ! k"
    have ce: "c < mr_base ?r + mr_size ?r" using P True ordered_end [OF assms(1) True] by simp
    then have "0 < mr_size ?r" using pos [of ?r] True by (auto simp: empty_region_def)
    have "\<not> mr_base ?r < d"
    proof
      assume "mr_base ?r < d"
      then have "region_map rs (max c (mr_base ?r)) = None" using free assms(2) by simp
      moreover have "covers ?r (max c (mr_base ?r))"
        using ce \<open>0 < mr_size ?r\<close> by (simp add: covers_def)
      ultimately show False using region_map_member [of ?r rs] True by auto
    qed
    then show ?thesis using True by (simp add: gap_end_def)
  next
    case False
    then show ?thesis using k assms(3) by (simp add: gap_end_def)
  qed
  with start k show ?thesis by (intro exI [of _ "int k"]) simp
qed


definition fits :: "nat \<Rightarrow> nat \<Rightarrow> nat \<Rightarrow> nat \<Rightarrow> nat \<Rightarrow> nat \<Rightarrow> nat \<Rightarrow> bool" where
  "fits start end sz align s e c \<longleftrightarrow>
     align dvd c \<and> start \<le> c \<and> c + sz \<le> end \<and> s \<le> c \<and> c + sz \<le> e"

lemma clamp_fits:
  assumes "start \<le> end" and "end < 2 ^ 64" and "0 < sz" and "k < 64"
  shows "clamp e start end < sz \<Longrightarrow> \<not> fits start end sz align s e c"
    and "sz \<le> clamp e start end \<Longrightarrow>
      clamp s start end \<le> round_down (sub64 (clamp e start end) sz) (2 ^ k) \<Longrightarrow>
      fits start end sz (2 ^ k) s e (round_down (sub64 (clamp e start end) sz) (2 ^ k))"
    and "sz \<le> clamp e start end \<Longrightarrow>
      round_down (sub64 (clamp e start end) sz) (2 ^ k) < clamp s start end \<Longrightarrow>
      \<not> fits start end sz (2 ^ k) s e c"
proof -
  show "clamp e start end < sz \<Longrightarrow> \<not> fits start end sz align s e c"
    using assms(1) by (auto simp: clamp_def fits_def)
  assume le: "sz \<le> clamp e start end"
  let ?d = "clamp e start end - sz" and ?c = "round_down (sub64 (clamp e start end) sz) (2 ^ k)"
  have lt: "clamp e start end < 2 ^ 64" using assms(2) by (simp add: clamp_def)
  have eq: "?c = ?d div 2 ^ k * 2 ^ k"
    using le lt assms(4) round_down_pow2 [of ?d k] by (simp add: sub64_eq)
  have cle: "?c \<le> ?d" unfolding eq by simp
  show "fits start end sz (2 ^ k) s e ?c" if "clamp s start end \<le> ?c"
    using that cle le assms(1,3) eq unfolding fits_def clamp_def
    by (intro conjI) (simp, linarith+)
  show "\<not> fits start end sz (2 ^ k) s e c" if "?c < clamp s start end"
  proof
    assume f: "fits start end sz (2 ^ k) s e c"
    then have "c \<le> ?d" and a: "2 ^ k dvd c" and ge: "clamp s start end \<le> c"
      by (auto simp: fits_def clamp_def)
    then have "c div 2 ^ k * 2 ^ k \<le> ?c" unfolding eq by (intro mult_le_mono1 div_le_mono)
    with a ge that show False by simp
  qed
qed

definition area_start where "area_start rsa rs x y = max (mr_base (rsa ! nat x)) (gap_start rs y)"

definition area_end where "area_end rsa rs x y = min (region_end (rsa ! nat x)) (gap_end rs y)"

text \<open>An index stands for a position; the all-ones index for the last one.\<close>

definition stands_for :: "memblock \<Rightarrow> nat \<Rightarrow> int \<Rightarrow> int \<Rightarrow> bool" where
  "stands_for mb i a b \<longleftrightarrow> -1 \<le> a \<and> a < int (cnt (memory mb)) \<and> 0 \<le> b \<and> b \<le> int (cnt (reserved mb)) \<and>
     (if i = ULLONG_MAX then a = int (cnt (memory mb)) - 1 \<and> b = int (cnt (reserved mb))
      else a = idx_a_of i \<and> b = idx_b_of i)"

definition real_nid :: "int \<Rightarrow> int" where
  "real_nid nid = (if nid = MAX_NUMNODES then NUMA_NO_NODE else nid)"

abbreviation mb_area :: "memblock \<Rightarrow> int \<Rightarrow> int \<Rightarrow> int \<Rightarrow> bool" where
  "mb_area mb nid \<equiv> area mb (real_nid nid) (regions (memory mb)) (regions (reserved mb))"

abbreviation mb_fits where
  "mb_fits mb start end sz align x y \<equiv> fits start end sz align
     (area_start (regions (memory mb)) (regions (reserved mb)) x y)
     (area_end (regions (memory mb)) (regions (reserved mb)) x y)"

lemma mb_inv_ordered:
  assumes "mb_inv mb"
  shows "ordered (regions (memory mb))" and "ordered (regions (reserved mb))"
    and "cnt (memory mb) < 2 ^ 31" and "cnt (reserved mb) < 2 ^ 31"
  using assms by (auto simp: mb_inv_def type_ok_def type_inv_def sizeof_region_def intro: type_inv_ordered)

lemma next_mem_range_rev_spec:
  assumes w: "mb_inv mb" and st: "stands_for mb i a b"
  shows "walk_spec mb (real_nid nid) (regions (memory mb)) (regions (reserved mb)) a b
    (next_mem_range_rev mb nid (memory mb) (reserved mb) i)"
proof -
  have "next_mem_range_rev mb nid (memory mb) (reserved mb) i =
      next_loop_rev mb (real_nid nid) (regions (memory mb)) (regions (reserved mb)) a b"
    using st by (auto simp: next_mem_range_rev_def real_nid_def stands_for_def split: if_splits)
  with next_loop_rev_spec [OF mb_inv_ordered(1,2) [OF w]] st show ?thesis
    by (simp add: stands_for_def)
qed

lemma find_top_down_loop_spec:
  assumes w: "mb_inv mb" and "stands_for mb i a b"
    and r: "0 < start" "start \<le> end" "end < 2 ^ 64" "0 < sz" "k < 64"
  shows "\<exists>c. find_top_down_loop mb start end sz (2 ^ k) nid i = Some c \<and>
    (if c = 0 then \<forall>x y. mb_area mb nid x y \<and> x \<le> a \<and> y \<le> b \<longrightarrow>
        (\<forall>c. \<not> mb_fits mb start end sz (2 ^ k) x y c)
     else \<exists>x y. mb_area mb nid x y \<and> mb_fits mb start end sz (2 ^ k) x y c)"
  using assms(2)
proof (induction "nat (a + b + 1)" arbitrary: i a b rule: less_induct)
  case less
  let ?n = "next_mem_range_rev mb nid (memory mb) (reserved mb) i"
  note spec = next_mem_range_rev_spec [OF w less(2), of nid]
  show ?case
  proof (cases ?n)
    case None
    then have "find_top_down_loop mb start end sz (2 ^ k) nid i = Some 0"
      by (subst find_top_down_loop.simps) simp
    with spec None show ?thesis by (auto simp: walk_spec_def)
  next
    case (Some ise)
    obtain i' s e where ise: "ise = (i', s, e)" by (cases ise)
    from spec show ?thesis unfolding Some ise
    proof (cases rule: walk_specE)
      case (1 x y a' b')
      have se: "s = area_start (regions (memory mb)) (regions (reserved mb)) x y"
        "e = area_end (regions (memory mb)) (regions (reserved mb)) x y"
        using 1(4,5) by (simp_all add: area_start_def area_end_def)
      have b31: "a' < 2 ^ 31" "b' < 2 ^ 31"
        using 1(8,10) less(2) mb_inv_ordered(3,4) [OF w] by (auto simp: stands_for_def)
      have ne: "i' \<noteq> ULLONG_MAX" using pack_idx_not_end [OF 1(9) b31(2)] 1(6) by simp
      have st': "stands_for mb i' a' b'"
        using 1 less(2) ne pack_idx_parts [OF 1(7) b31(1) _ b31(2)] by (auto simp: stands_for_def)
      have IH: "\<exists>c. find_top_down_loop mb start end sz (2 ^ k) nid i' = Some c \<and>
          (if c = 0 then \<forall>x y. mb_area mb nid x y \<and> x \<le> a' \<and> y \<le> b' \<longrightarrow>
              (\<forall>c. \<not> mb_fits mb start end sz (2 ^ k) x y c)
           else \<exists>x y. mb_area mb nid x y \<and> mb_fits mb start end sz (2 ^ k) x y c)"
        by (rule less(1) [OF _ st']) (use 1(7,9,11) in linarith)
      let ?c = "round_down (sub64 (clamp e start end) sz) (2 ^ k)"
      note unf = find_top_down_loop.simps [of mb start "end" sz "2 ^ k" nid i, unfolded Some ise
          option.case prod.case Let_def]
      show ?thesis
      proof (cases "sz \<le> clamp e start end \<and> clamp s start end \<le> ?c")
        case True
        then have f: "fits start end sz (2 ^ k) s e ?c" using clamp_fits(2) [OF r(2-5)] by blast
        then have "?c \<noteq> 0" using r(1) by (auto simp: fits_def)
        then show ?thesis using unf ne True f 1(1) unfolding se by (auto simp: not_less)
      next
        case False
        then have "find_top_down_loop mb start end sz (2 ^ k) nid i =
            find_top_down_loop mb start end sz (2 ^ k) nid i'"
          using unf ne by (auto simp: not_le)
        moreover have "\<not> mb_fits mb start end sz (2 ^ k) x y c" for c
          unfolding se [symmetric]
          using False clamp_fits(1) [OF r(2-5), of e "2 ^ k" s c] clamp_fits(3) [OF r(2-5), of e s c]
          by (cases "sz \<le> clamp e start end") auto
        ultimately show ?thesis using IH 1(12) by (elim exE) (auto split: if_splits, metis)
      qed
    qed
  qed
qed


subsection \<open>The contract of the search\<close>

text \<open>\<open>usable\<close> names the areas a caller may get: aligned, in range, in one memory region of the node
  asked for, and free of reservations.\<close>

definition usable :: "memblock \<Rightarrow> int \<Rightarrow> nat \<Rightarrow> nat \<Rightarrow> nat \<Rightarrow> nat \<Rightarrow> nat \<Rightarrow> bool" where
  "usable mb nid start end sz align c \<longleftrightarrow> align dvd c \<and> start \<le> c \<and> c + sz \<le> end \<and>
     (\<exists>m \<in> set (regions (memory mb)). eligible mb (real_nid nid) m \<and>
        mr_base m \<le> c \<and> c + sz \<le> mr_base m + mr_size m) \<and>
     (\<forall>p. c \<le> p \<and> p < c + sz \<longrightarrow> type_map (reserved mb) p = None)"

lemma area_usable:
  assumes w: "mb_inv mb" and a: "mb_area mb nid x y" and f: "mb_fits mb start end sz align x y c"
  shows "usable mb nid start end sz align c"
proof -
  note o = mb_inv_ordered [OF w]
  have x: "nat x < cnt (memory mb)" using a by (auto simp: area_def nat_less_iff)
  have "type_map (reserved mb) p = None" if "c \<le> p" "p < c + sz" for p
    unfolding type_map_def
    by (rule gap_free [OF o(2), of y])
      (use a f that in \<open>auto simp: area_def fits_def area_start_def area_end_def\<close>)
  moreover have "eligible mb (real_nid nid) (regions (memory mb) ! nat x)" using a by (simp add: area_def)
  ultimately show ?thesis
    using f x ordered_end [OF o(1) x] unfolding usable_def fits_def area_start_def area_end_def
    by (intro conjI bexI [OF _ nth_mem [OF x]]) auto
qed

lemma usable_area:
  assumes w: "mb_inv mb" and u: "usable mb nid start end sz align c" and "0 < sz"
  shows "\<exists>x y. mb_area mb nid x y \<and> mb_fits mb start end sz align x y c"
proof -
  note o = mb_inv_ordered [OF w]
  from u obtain i where i: "i < cnt (memory mb)" "eligible mb (real_nid nid) (regions (memory mb) ! i)"
    "mr_base (regions (memory mb) ! i) \<le> c"
    "c + sz \<le> mr_base (regions (memory mb) ! i) + mr_size (regions (memory mb) ! i)"
    unfolding usable_def by (metis in_set_conv_nth)
  have lt: "c + sz < 2 ^ 64"
    using i o(1) unfolding ordered_def by (meson le_less_trans nth_mem)
  have live: "0 < mr_size r \<or> regions (reserved mb) = [empty_region]" if "r \<in> set (regions (reserved mb))" for r
    using w that by (auto simp: mb_inv_def type_ok_def type_inv_def wf_regions_def region_ok_def)
  obtain y where y: "0 \<le> y" "y \<le> int (cnt (reserved mb))" "gap_start (regions (reserved mb)) y \<le> c"
    "c + sz \<le> gap_end (regions (reserved mb)) y"
    using free_in_gap [OF o(2), of c "c + sz"] assms(3) lt u live ULLONG_MAX_lt
    by (auto simp: usable_def type_map_def)
  show ?thesis
    by (rule exI [of _ "int i"], rule exI [of _ y])
      (use i y u ordered_end [OF o(1) i(1)] assms(3) in
        \<open>auto simp: area_def fits_def area_start_def area_end_def meets_def usable_def\<close>)
qed

lemma find_top_down_complete:
  assumes w: "mb_inv mb" and r: "0 < start" "start \<le> end" "end < 2 ^ 64" "0 < sz" "k < 64"
  shows "\<exists>c. memblock_find_range_top_down mb start end sz (2 ^ k) nid = Some c \<and>
    (if c = 0 then \<forall>c. \<not> usable mb nid start end sz (2 ^ k) c else usable mb nid start end sz (2 ^ k) c)"
proof -
  have "0 < cnt (memory mb)"
    using w by (auto simp: mb_inv_def type_ok_def type_inv_def)
  then have "stands_for mb ULLONG_MAX (int (cnt (memory mb)) - 1) (int (cnt (reserved mb)))"
    by (simp add: stands_for_def)
  from find_top_down_loop_spec [OF w this r, of nid] obtain c where
    c: "memblock_find_range_top_down mb start end sz (2 ^ k) nid = Some c"
    "if c = 0 then \<forall>x y. mb_area mb nid x y \<and> x \<le> int (cnt (memory mb)) - 1 \<and> y \<le> int (cnt (reserved mb)) \<longrightarrow>
        (\<forall>c. \<not> mb_fits mb start end sz (2 ^ k) x y c)
     else \<exists>x y. mb_area mb nid x y \<and> mb_fits mb start end sz (2 ^ k) x y c"
    unfolding memblock_find_range_top_down_def by blast
  show ?thesis
  proof (cases "c = 0")
    case True
    have "x \<le> int (cnt (memory mb)) - 1 \<and> y \<le> int (cnt (reserved mb))" if "mb_area mb nid x y" for x y
      using that by (simp add: area_def)
    with c True usable_area [OF w _ r(4)] show ?thesis by (intro exI [of _ c]) (auto, blast)
  next
    case False
    with c area_usable [OF w] show ?thesis by (intro exI [of _ c]) auto
  qed
qed

end
