(* ===== verification/Memblock_Props.thy ===== *)
theory Memblock_Props
  imports Memblock_Find
begin

text \<open>
  The properties of \<^verbatim>\<open>mm/memblock.c\<close>: what the public operations do to the map from physical
  addresses to region flags, that they keep the invariant of both region arrays, and what the
  lookups and allocations answer.
\<close>

subsection \<open>Changing flags\<close>

lemma map_range_append:
  "map_range (length pre) (length pre + length mid) f (pre @ mid @ post) = pre @ map f mid @ post"
proof (induction pre)
  case Nil
  have "map_range 0 (length mid) f (mid @ post) = map f mid @ post"
    by (induction mid) (cases post, auto)
  then show ?case by simp
qed simp

lemma map_range_none [simp]: "map_range 0 0 f xs = xs"
  by (cases xs) auto

definition with_flags :: "(64 word \<Rightarrow> 64 word) \<Rightarrow> memblock_region \<Rightarrow> memblock_region" where
  "with_flags g r = r\<lparr>mr_flags := g (mr_flags r)\<rparr>"

lemma with_flags_simps [simp]:
  "mr_base (with_flags g r) = mr_base r" "mr_size (with_flags g r) = mr_size r"
  "mr_flags (with_flags g r) = g (mr_flags r)"
  by (simp_all add: with_flags_def)

lemma wf_with_flags: "wf_regions (map (with_flags g) rs) = wf_regions rs"
  by (induction rs) (auto simp: region_ok_def before_def)

lemma sizes_with_flags [simp]: "sizes (map (with_flags g) rs) = sizes rs"
  by (induction rs) auto

lemma map_with_flags: "region_map (map (with_flags g) rs) a = map_option g (region_map rs a)"
  by (induction rs) auto

lemma region_map_change:
  assumes "\<forall>r \<in> set pre. mr_base r + mr_size r \<le> base"
    and "\<forall>r \<in> set mid. base \<le> mr_base r \<and> mr_base r + mr_size r \<le> end"
    and "\<forall>r \<in> set post. end \<le> mr_base r"
  shows "region_map (pre @ map (with_flags g) mid @ post) =
    change_map base end g (region_map (pre @ mid @ post))"
proof
  fix a
  show "region_map (pre @ map (with_flags g) mid @ post) a =
      change_map base end g (region_map (pre @ mid @ post)) a"
  proof (cases "base \<le> a \<and> a < end")
    case True
    have "region_map pre a = None" using True assms(1) by (intro region_map_above) auto
    moreover have "region_map post a = None" using True assms(3) by (intro region_map_below) auto
    ultimately have "region_map pre a = None" "region_map post a = None" by auto
    with True show ?thesis
      by (simp add: change_map_def region_map_append map_with_flags split: option.splits)
  next
    case False
    then have "region_map mid a = None"
      using assms(2) by (induction mid) auto
    with False show ?thesis
      by (auto simp: change_map_def region_map_append map_with_flags split: option.splits)
  qed
qed

lemma change_isolated:
  assumes res: "iso_result base end t (Return (s, e, t1))" and "regions t \<noteq> []"
    and "wf_regions (regions t)" and "total_size t = sizes (regions t)"
  obtains t' where "memblock_merge_regions (t1\<lparr>regions := map_range s e (with_flags g) (regions t1)\<rparr>) = Return t'"
    and "type_inv t'" and "type_map t' = change_map base end g (type_map t)"
    and "max_regions t' = max_regions t" and "region_array t' = region_array t"
proof -
  obtain pre mid post where st: "iso_state base end t1 pre mid post s e"
    "\<forall>r \<in> set post. end \<le> mr_base r" "region_map (regions t1) = region_map (regions t)"
    "sizes (regions t1) = sizes (regions t)" "max_regions t1 = max_regions t"
    "region_array t1 = region_array t" "cnt t1 \<le> max_regions t1"
    using res by (auto simp: iso_result_def)
  have regs: "regions t1 = pre @ mid @ post" and wf: "wf_regions (pre @ mid @ post)"
    using st(1) by (auto simp: iso_state_def)
  let ?rs = "pre @ map (with_flags g) mid @ post" and ?t = "t1\<lparr>regions := pre @ map (with_flags g) mid @ post\<rparr>"
  have eq: "map_range s e (with_flags g) (regions t1) = ?rs"
    using st(1) map_range_append [of pre mid "with_flags g" post]
    by (auto simp: iso_state_def split: if_splits)
  have "wf_regions ?rs" using wf by (auto simp: wf_regions_append wf_with_flags before_def)
  moreover have "?rs \<noteq> []"
    using st(4) regs assms(2,3) by (cases "regions t") (auto simp: region_ok_def)
  moreover have "total_ok ?t" using st(1) by (simp add: iso_state_def total_ok_def)
  moreover have "cnt ?t \<le> max_regions ?t" using st(7) regs by simp
  ultimately obtain t' where "memblock_merge_regions ?t = Return t'" "type_inv t'"
    "type_map t' = type_map ?t" "max_regions t' = max_regions ?t" "region_array t' = region_array ?t"
    using merge_regions_ok [of ?t] by auto
  moreover have "type_map ?t = change_map base end g (type_map t)"
    using region_map_change [of pre base mid "end" post g] st(1,2,3) regs
    by (simp add: type_map_def iso_state_def)
  ultimately show ?thesis using that st(5,6) by (simp add: eq)
qed

lemma merge_idle:
  assumes inv: "type_inv t"
  obtains t' where "memblock_merge_regions t = Return t'" "type_inv t'" "type_map t' = type_map t"
    "max_regions t' = max_regions t" "region_array t' = region_array t"
  using inv
proof (cases rule: type_inv_cases)
  case dummy
  have "merge_loop 0 [empty_region] = Return [empty_region]" by (subst merge_loop.simps) simp
  with dummy inv show ?thesis
    by (intro that [of t]) (simp_all add: memblock_merge_regions_def)
next
  case live
  show ?thesis
    using merge_regions_ok [of t] live inv wf_sizes_lt [OF live(2)] that
    by (auto simp: type_inv_def total_ok_def)
qed

context array_growth
begin

lemma change_flags_law:
  assumes "ready mb" and "mb_inv mb" and "base < 2 ^ 64" and "3 \<le> fuel"
  shows "\<exists>ret mb'. memblock_change_flags_with (with_flags g) fuel dbl base sz mb = Return (ret, mb') \<and>
      ready mb' \<and> mb_inv mb' \<and> reserved mb' = reserved mb \<and>
      (ret = 0 \<and> type_map (memory mb') = change_map base (range_end base sz) g (type_map (memory mb)) \<or>
       ret = - ENOMEM \<and> type_map (memory mb') = type_map (memory mb) \<and>
         max_regions (memory mb) < cnt (memory mb) + 2)"
proof -
  let ?t = "memory mb" and ?e = "range_end base sz"
  note e = range_end_bounds [OF assms(3), of sz]
  have fin: "ready (m\<lparr>memory := t'\<rparr>) \<and> mb_inv (m\<lparr>memory := t'\<rparr>)"
    if "ready m" "mb_inv m" "type_inv t'" "max_regions t' = max_regions (memory m)"
      "region_array t' = region_array (memory m)" for m t'
    using that ready_set [OF that(1), of t' Memory] by (simp add: mb_inv_def type_ok_def)
  show ?thesis
  proof (cases "?e = base")
    case True
    have "type_inv ?t" using assms(2) by (simp add: mb_inv_def type_ok_def)
    then obtain t' where t': "memblock_merge_regions ?t = Return t'" "type_inv t'"
      "type_map t' = type_map ?t" "max_regions t' = max_regions ?t" "region_array t' = region_array ?t"
      by (rule merge_idle)
    have "memblock_change_flags_with (with_flags g) fuel dbl base sz mb = Return (0, mb\<lparr>memory := t'\<rparr>)"
      using True assms(3) t'(1)
      by (simp add: memblock_change_flags_with_def memblock_isolate_range_with_def cap_size_eq)
    with fin [OF assms(1,2) t'(2,4,5)] True t'(3) show ?thesis
      by (auto simp: change_map_def fun_eq_iff)
  next
    case False
    then have lt: "base < ?e" using e by simp
    obtain ret mb1 where m: "make_room fuel dbl Memory 2 base (?e - base) mb = Return (ret, mb1)"
      "ready mb1" "mb_inv mb1" "regions (memory mb1) = regions ?t" "reserved mb1 = reserved mb"
      "ret = 0 \<and> cnt ?t + 2 \<le> max_regions (memory mb1) \<or> ret = - ENOMEM \<and> cnt ?t + 2 > max_regions ?t"
      using room_two_law [OF assms(1,2,4), of Memory base "?e - base"]
      by (auto, (metis get_type.simps mtype.distinct(1))+)
    let ?t1 = "memory mb1"
    have inv1: "type_inv ?t1" using m(3) by (simp add: mb_inv_def type_ok_def)
    have map1: "type_map ?t1 = type_map ?t" using m(4) by (simp add: type_map_def)
    have run: "memblock_change_flags_with (with_flags g) fuel dbl base sz mb =
        (if ret < 0 then Return (ret, mb1)
         else obind (isolate_loop base ?e 0 0 0 ?t1) (\<lambda>(s, e, t).
           obind (memblock_merge_regions (t\<lparr>regions := map_range s e (with_flags g) (regions t)\<rparr>)) (\<lambda>t'.
             Return (0, mb1\<lparr>memory := t'\<rparr>))))"
      using lt assms(3) m(1)
      by (auto simp: memblock_change_flags_with_def memblock_isolate_range_with_def cap_size_eq
          cap_end_eq [of base sz, unfolded cap_size_eq [OF assms(3)]] obind_assoc Let_def
          intro!: arg_cong [where f = "obind _"] split: prod.splits)
    consider (full) "ret \<noteq> 0" | (dummy) "ret = 0" "regions ?t1 = [empty_region]"
      | (live) "ret = 0" "regions ?t1 \<noteq> []" "wf_regions (regions ?t1)"
      using inv1 by (cases rule: type_inv_cases) auto
    then show ?thesis
    proof cases
      case full
      then show ?thesis using run m map1 by (auto simp: ENOMEM_def)
    next
      case dummy
      obtain t' where t': "memblock_merge_regions ?t1 = Return t'" "type_inv t'"
        "type_map t' = type_map ?t1" "max_regions t' = max_regions ?t1" "region_array t' = region_array ?t1"
        using inv1 by (rule merge_idle)
      have "change_map base ?e g (type_map ?t1) = type_map ?t1"
        using dummy by (auto simp: change_map_def type_map_def empty_region_def fun_eq_iff)
      then show ?thesis
        using dummy(1) run t' m map1 isolate_dummy [OF dummy(2)] fin [OF m(2,3) t'(2,4,5)] by auto
    next
      case live
      then have "iso_result base ?e ?t1 (isolate_loop base ?e 0 0 0 ?t1)"
        using isolate_live [OF inv1 live(3)] m lt e by (simp add: ENOMEM_def)
      moreover from this obtain s f t where it: "isolate_loop base ?e 0 0 0 ?t1 = Return (s, f, t)"
        by (auto simp: iso_result_def)
      ultimately have "iso_result base ?e ?t1 (Return (s, f, t))" by simp
      then obtain t' where t': "memblock_merge_regions (t\<lparr>regions := map_range s f (with_flags g) (regions t)\<rparr>) = Return t'"
        "type_inv t'" "type_map t' = change_map base ?e g (type_map ?t1)"
        "max_regions t' = max_regions ?t1" "region_array t' = region_array ?t1"
        by (rule change_isolated [OF _ live(2,3)]) (use inv1 in \<open>auto simp: type_inv_def\<close>)
      then show ?thesis
        using live(1) run it m(5) map1 fin [OF m(2,3) t'(2,4,5)] by auto
    qed
  qed
qed

end


subsection \<open>Queries\<close>

lemma overlaps_loop:
  "(\<exists>j. i \<le> j \<and> j < length rs \<and> memblock_addrs_overlap base sz (mr_base (rs ! j)) (mr_size (rs ! j)))
    \<longleftrightarrow> overlaps_region_loop rs base sz i < length rs"
proof (induction rs base sz i rule: overlaps_region_loop.induct)
  case (1 rs base sz i)
  show ?case
  proof (cases "i < length rs \<and> \<not> memblock_addrs_overlap base sz (mr_base (rs ! i)) (mr_size (rs ! i))")
    case True
    then have "overlaps_region_loop rs base sz i = overlaps_region_loop rs base sz (Suc i)"
      by (subst overlaps_region_loop.simps) simp
    with 1 True show ?thesis by (metis Suc_leD le_antisym not_less_eq_eq)
  next
    case False
    then show ?thesis by (subst overlaps_region_loop.simps) auto
  qed
qed

lemma overlap_iff:
  assumes "region_ok r \<or> r = empty_region" and "base < e" and "e < 2 ^ 64"
  shows "memblock_addrs_overlap base (e - base) (mr_base r) (mr_size r) \<longleftrightarrow>
    (\<exists>p. base \<le> p \<and> p < e \<and> covers r p)"
proof -
  have "add64 base (e - base) = e" using assms by (simp add: add64_eq)
  moreover have "region_end r = mr_base r + mr_size r"
    using assms(1) by (auto simp: region_ok_def add64_eq empty_region_def)
  moreover have "(\<exists>p. base \<le> p \<and> p < e \<and> covers r p) \<longleftrightarrow>
      base < mr_base r + mr_size r \<and> mr_base r < e" if "0 < mr_size r"
  proof
    assume "base < mr_base r + mr_size r \<and> mr_base r < e"
    then show "\<exists>p. base \<le> p \<and> p < e \<and> covers r p"
      using assms(2) that by (intro exI [of _ "max base (mr_base r)"]) (auto simp: covers_def)
  qed (auto simp: covers_def)
  ultimately show ?thesis
    using assms(1) by (auto simp: memblock_addrs_overlap_def region_ok_def empty_region_def covers_def)
qed

lemma overlaps_region_correct:
  assumes "type_inv t" and "base < e" and "e < 2 ^ 64"
  shows "memblock_overlaps_region t base (e - base) \<ge> 0 \<longleftrightarrow> (\<exists>p. base \<le> p \<and> p < e \<and> type_map t p \<noteq> None)"
proof -
  have ok: "region_ok (regions t ! j) \<or> regions t ! j = empty_region" if "j < cnt t" for j
    using assms(1) that by (auto simp: type_inv_def wf_nth_ok)
  show ?thesis
    unfolding memblock_overlaps_region_def type_map_def region_map_nth
    using overlaps_loop [of 0 "regions t" base "e - base"] overlap_iff [OF ok assms(2,3)]
    by (auto simp: Let_def, blast)
qed

lemma is_region_memory_iff:
  assumes "type_inv (memory mb)" and "base < range_end base sz" and "base < 2 ^ 64"
  shows "memblock_is_region_memory mb base sz \<longleftrightarrow>
    (\<exists>r \<in> set (regions (memory mb)). mr_base r \<le> base \<and> range_end base sz \<le> mr_base r + mr_size r)"
  using assms(1)
proof (cases rule: search_cases [of _ base])
  case miss
  then have "\<not> covers r base" if "r \<in> set (regions (memory mb))" for r
    using region_map_member [OF that, of base] by (auto simp: type_map_def)
  with miss assms(2) show ?thesis
    by (fastforce simp: memblock_is_region_memory_def Let_def covers_def)
next
  case (hit k)
  let ?r = "regions (memory mb) ! k"
  have "region_end ?r = mr_base ?r + mr_size ?r"
    using wf_nth_ok [OF hit(5,1)] by (rule region_end_ok)
  moreover have "r = ?r" if r: "r \<in> set (regions (memory mb))" and c: "covers r base" for r
  proof -
    obtain j where j: "j < cnt (memory mb)" "r = regions (memory mb) ! j"
      using r by (metis in_set_conv_nth)
    then show ?thesis
      using wf_nth_before [OF hit(5), of j k] wf_nth_before [OF hit(5), of k j] hit(1,3) c
      by (cases j k rule: linorder_cases) (auto simp: covers_def)
  qed
  ultimately show ?thesis
    using hit(1-3) assms(2) cap_end_eq [OF assms(3), of sz]
    by (auto simp: memblock_is_region_memory_def Let_def covers_def intro!: bexI [of _ ?r])
qed

text \<open>
  C25: On arrays that satisfy the invariant, the binary search behind \<^verbatim>\<open>memblock_is_memory\<close> and
  \<^verbatim>\<open>memblock_is_reserved\<close> decides whether an address lies in a region, and
  \<^verbatim>\<open>memblock_is_region_memory\<close> and \<^verbatim>\<open>memblock_is_region_reserved\<close> decide whether a non-empty range
  lies in one memory region, and whether it meets a reserved one.
\<close>

theorem memblock_lookup_correct:
  assumes "mb_inv mb" and "base < 2 ^ 64" and "base < range_end base sz"
  shows "(memblock_is_memory mb base \<longleftrightarrow> type_map (memory mb) base \<noteq> None) \<and>
    (memblock_is_reserved mb base \<longleftrightarrow> type_map (reserved mb) base \<noteq> None) \<and>
    (memblock_is_region_memory mb base sz \<longleftrightarrow>
      (\<exists>r \<in> set (regions (memory mb)). mr_base r \<le> base \<and> range_end base sz \<le> mr_base r + mr_size r)) \<and>
    (memblock_is_region_reserved mb base sz \<longleftrightarrow>
      (\<exists>p. base \<le> p \<and> p < range_end base sz \<and> type_map (reserved mb) p \<noteq> None))"
proof -
  have inv: "type_inv (memory mb)" "type_inv (reserved mb)"
    using assms(1) by (auto simp: mb_inv_def type_ok_def)
  have "range_end base sz < 2 ^ 64" using range_end_bounds [OF assms(2)] by blast
  from overlaps_region_correct [OF inv(2) assms(3) this] is_region_memory_iff [OF inv(1) assms(3,2)]
    search_iff [OF inv(1), of base] search_iff [OF inv(2), of base]
  show ?thesis
    by (simp add: memblock_is_memory_def memblock_is_reserved_def memblock_is_region_reserved_def
        cap_size_eq [OF assms(2)])
qed

definition sample_mb :: memblock where
  "sample_mb = (memblock_init False)\<lparr>
     memory := init_type\<lparr>regions := [mk_region 4096 40960 0, mk_region 65536 131072 0],
                         total_size := 102400\<rparr>,
     reserved := init_type\<lparr>regions := [mk_region 8192 12288 0], total_size := 4096\<rparr>\<rparr>"

lemmas sample_defs = sample_mb_def memblock_init_def init_type_def mk_region_def empty_region_def
  INIT_MEMBLOCK_REGIONS_def sizeof_region_def MEMBLOCK_ALLOC_ANYWHERE_def

lemma sample_inv: "mb_inv sample_mb"
  by (simp add: sample_defs mb_inv_def type_ok_def type_inv_def region_ok_def before_def wf_regions_def)

theorem memblock_lookup_correct_witness:
  "mb_inv sample_mb \<and> (memblock_is_region_memory sample_mb 65540 100 \<longleftrightarrow>
      (\<exists>r \<in> set (regions (memory sample_mb)). mr_base r \<le> 65540 \<and> range_end 65540 100 \<le> mr_base r + mr_size r))"
  using memblock_lookup_correct [of sample_mb 65540 100] sample_inv
  by (simp add: range_end_def ULLONG_MAX_def)


subsection \<open>Adding, removing, reserving and freeing\<close>











definition sample_env :: memblock_env where
  "sample_env = \<lparr>slab_is_available = False, kmalloc_pa = (\<lambda>_. 0), kzalloc_node_pa = (\<lambda>_ _. 0),
     kernel_end = 4096, ret_ip = 0\<rparr>"





subsection \<open>Sizes and limits\<close>
















subsection \<open>Searching and allocating\<close>

text \<open>The bounds \<^verbatim>\<open>memblock_find_in_range_node\<close> searches in, and the alignment \<^verbatim>\<open>memblock_alloc_range_nid\<close> uses.\<close>

abbreviation find_start :: "nat \<Rightarrow> nat" where "find_start start \<equiv> max start PAGE_SIZE"

abbreviation find_end :: "memblock \<Rightarrow> nat \<Rightarrow> nat \<Rightarrow> nat" where
  "find_end mb start end \<equiv> max (find_start start) (if end = MEMBLOCK_ALLOC_ACCESSIBLE then current_limit mb else end)"

lemma find_in_range_node_complete:
  assumes "mb_inv mb" and "\<not> memblock_bottom_up mb" and "0 < sz" and "k < 64" and "find_end mb start end < 2 ^ 64"
  shows "\<exists>c. memblock_find_in_range_node env mb sz (2 ^ k) start end nid = Some c \<and>
    (if c = 0 then \<forall>c. \<not> usable mb nid (find_start start) (find_end mb start end) sz (2 ^ k) c
     else usable mb nid (find_start start) (find_end mb start end) sz (2 ^ k) c)"
proof -
  have "0 < find_start start" "find_start start \<le> find_end mb start end" by (simp_all add: PAGE_SIZE_def)
  from find_top_down_complete [OF assms(1) this assms(5,3,4), of nid] assms(2) show ?thesis
    by (simp add: memblock_find_in_range_node_def Let_def)
qed

text \<open>
  C23: The top-down search terminates and is exact. An address it returns is aligned, lies in the
  requested window (never in page 0), in one memory region of the requested node, and the whole area is
  free of reservations; it returns 0 only when no such area exists.
\<close>

theorem memblock_find_correct:
  assumes "mb_inv mb" and "\<not> memblock_bottom_up mb" and "0 < sz" and "k < 64" and "find_end mb start end < 2 ^ 64"
  shows "\<exists>c. memblock_find_in_range_node env mb sz (2 ^ k) start end nid = Some c \<and>
    (c \<noteq> 0 \<longrightarrow> usable mb nid (find_start start) (find_end mb start end) sz (2 ^ k) c) \<and>
    (c = 0 \<longrightarrow> (\<forall>a. \<not> usable mb nid (find_start start) (find_end mb start end) sz (2 ^ k) a))"
  using find_in_range_node_complete [OF assms, of env nid] by (auto split: if_splits)

theorem memblock_find_correct_witness:
  "\<exists>c. memblock_find_in_range_node sample_env sample_mb 4096 (2 ^ 12) 0 (2 ^ 16) 0 = Some c \<and>
    (c \<noteq> 0 \<longrightarrow> usable sample_mb 0 (find_start 0) (find_end sample_mb 0 (2 ^ 16)) 4096 (2 ^ 12) c) \<and>
    (c = 0 \<longrightarrow> (\<forall>a. \<not> usable sample_mb 0 (find_start 0) (find_end sample_mb 0 (2 ^ 16)) 4096 (2 ^ 12) a))"
  by (rule memblock_find_correct [OF sample_inv])
    (simp_all add: memblock_bottom_up_def sample_defs PAGE_SIZE_def MEMBLOCK_ALLOC_ACCESSIBLE_def)





subsection \<open>Runs\<close>

















subsection \<open>Trimming\<close>


end
