(* ===== verification/Buddy.thy ===== *)
theory Buddy
  imports Kernel_Base
begin

text \<open>
  The buddy allocator of \<^verbatim>\<open>mm/page_alloc.c\<close>: freeing with coalescing, allocation with splitting and
  fallback between migrate types, the per-CPU page lists in front of it, and the watermark test.
  The configuration is the one the sources are written out for: no memory isolation, no contiguous
  memory areas, no debug guard pages, the orders below 11.

  A page is its frame number. The state of a zone holds the zone's lists and counters together with
  what the allocator keeps in the page descriptors: whether a page heads a free block and of which
  order, its migrate type while free, its zone, and the migrate type of its page block.
\<close>

unbundle bit_operations_syntax

subsection \<open>State\<close>

definition MAX_ORDER :: nat where "MAX_ORDER = 11"

datatype migratetype = MIGRATE_UNMOVABLE | MIGRATE_RECLAIMABLE | MIGRATE_MOVABLE | MIGRATE_RESERVE

record zone =
  zone_id :: nat
  zone_start_pfn :: nat
  spanned_pages :: nat
  free_list :: "nat \<Rightarrow> migratetype \<Rightarrow> nat list"
  nr_free :: "nat \<Rightarrow> nat"
  nr_free_pages :: int
  nr_pages_scanned :: int
  nr_alloc_batch :: int
  fair_depleted :: bool
  lowmem_reserve :: "nat \<Rightarrow> int"
  low_wmark :: int
  pcp_count :: int
  pcp_high :: int
  pcp_batch :: nat
  pcp_lists :: "migratetype \<Rightarrow> nat list"
  page_buddy :: "nat \<Rightarrow> nat option"
  freepage_mt :: "nat \<Rightarrow> migratetype"
  pageblock_mt :: "nat \<Rightarrow> migratetype"
  page_zone_id :: "nat \<Rightarrow> nat"
  pfn_valid_within :: "nat \<Rightarrow> bool"
  pageblock_order :: nat
  page_group_by_mobility_disabled :: bool

text \<open>
  The checks of page descriptors that the allocator makes on the way, by page and order: a compound
  page that \<^verbatim>\<open>destroy_compound_page\<close> rejects, a page \<^verbatim>\<open>free_pages_prepare\<close> rejects, a page
  \<^verbatim>\<open>prep_new_page\<close> rejects.
\<close>

record page_checks =
  compound_bad :: "nat \<Rightarrow> nat \<Rightarrow> bool"
  free_bad :: "nat \<Rightarrow> nat \<Rightarrow> bool"
  new_bad :: "nat \<Rightarrow> nat \<Rightarrow> bool"

subsection \<open>List and page primitives\<close>

definition list_add :: "nat \<Rightarrow> nat \<Rightarrow> migratetype \<Rightarrow> zone \<Rightarrow> zone" where
  "list_add p o' mt z = z\<lparr>free_list := (free_list z)(o' := (free_list z o')(mt := p # free_list z o' mt))\<rparr>"

definition list_add_tail :: "nat \<Rightarrow> nat \<Rightarrow> migratetype \<Rightarrow> zone \<Rightarrow> zone" where
  "list_add_tail p o' mt z = z\<lparr>free_list := (free_list z)(o' := (free_list z o')(mt := free_list z o' mt @ [p]))\<rparr>"

text \<open>\<^verbatim>\<open>list_del\<close> unlinks a page from whichever free list it is on.\<close>

definition list_del :: "nat \<Rightarrow> zone \<Rightarrow> zone" where
  "list_del p z = z\<lparr>free_list := (\<lambda>o' mt. remove1 p (free_list z o' mt))\<rparr>"

definition set_page_order :: "nat \<Rightarrow> nat \<Rightarrow> zone \<Rightarrow> zone" where
  "set_page_order p o' z = z\<lparr>page_buddy := (page_buddy z)(p := Some o')\<rparr>"

definition rmv_page_order :: "nat \<Rightarrow> zone \<Rightarrow> zone" where
  "rmv_page_order p z = z\<lparr>page_buddy := (page_buddy z)(p := None)\<rparr>"

definition page_order :: "nat \<Rightarrow> zone \<Rightarrow> nat" where
  "page_order p z = (case page_buddy z p of Some o' \<Rightarrow> o' | None \<Rightarrow> 0)"

definition nr_free_inc :: "nat \<Rightarrow> zone \<Rightarrow> zone" where
  "nr_free_inc o' z = z\<lparr>nr_free := (nr_free z)(o' := add64 (nr_free z o') 1)\<rparr>"

definition nr_free_dec :: "nat \<Rightarrow> zone \<Rightarrow> zone" where
  "nr_free_dec o' z = z\<lparr>nr_free := (nr_free z)(o' := sub64 (nr_free z o') 1)\<rparr>"

definition mod_zone_freepage_state :: "int \<Rightarrow> zone \<Rightarrow> zone" where
  "mod_zone_freepage_state d z = z\<lparr>nr_free_pages := nr_free_pages z + d\<rparr>"

definition set_freepage_migratetype :: "nat \<Rightarrow> migratetype \<Rightarrow> zone \<Rightarrow> zone" where
  "set_freepage_migratetype p mt z = z\<lparr>freepage_mt := (freepage_mt z)(p := mt)\<rparr>"

definition get_pageblock_migratetype :: "nat \<Rightarrow> zone \<Rightarrow> migratetype" where
  "get_pageblock_migratetype p z = pageblock_mt z (p div 2 ^ pageblock_order z)"

definition set_pageblock_migratetype :: "nat \<Rightarrow> migratetype \<Rightarrow> zone \<Rightarrow> zone" where
  "set_pageblock_migratetype p mt z =
     (let mt' = (if page_group_by_mobility_disabled z \<and> mt \<noteq> MIGRATE_RESERVE then MIGRATE_UNMOVABLE else mt)
      in z\<lparr>pageblock_mt := (pageblock_mt z)(p div 2 ^ pageblock_order z := mt')\<rparr>)"

definition zone_spans_pfn :: "zone \<Rightarrow> nat \<Rightarrow> bool" where
  "zone_spans_pfn z p \<longleftrightarrow> zone_start_pfn z \<le> p \<and> p < zone_start_pfn z + spanned_pages z"

subsection \<open>Freeing\<close>

definition find_buddy_index :: "nat \<Rightarrow> nat \<Rightarrow> nat" where
  "find_buddy_index page_idx order = page_idx XOR 2 ^ order"

definition page_is_buddy :: "zone \<Rightarrow> nat \<Rightarrow> nat \<Rightarrow> nat \<Rightarrow> bool" where
  "page_is_buddy z page buddy order \<longleftrightarrow>
     pfn_valid_within z buddy \<and> page_buddy z buddy = Some order \<and>
     page_zone_id z page = page_zone_id z buddy"

text \<open>
  The merging loop of \<^verbatim>\<open>__free_one_page\<close>: merge while the buddy is free, first below the page block
  order, then, as no page block is isolated, one order at a time up to the maximum. The last argument
  is the buddy index computed last.
\<close>

function free_merge :: "nat \<Rightarrow> nat \<Rightarrow> nat \<Rightarrow> nat \<Rightarrow> nat \<Rightarrow> zone \<Rightarrow> nat \<times> nat \<times> nat \<times> nat \<times> zone" where
  "free_merge max_order page page_idx order buddy_idx z =
     (if order < max_order - 1 then
        if \<not> page_is_buddy z page (page + find_buddy_index page_idx order - page_idx) order then
          (page, page_idx, order, find_buddy_index page_idx order, z)
        else
          free_merge max_order (page + (find_buddy_index page_idx order AND page_idx) - page_idx)
            (find_buddy_index page_idx order AND page_idx) (Suc order) (find_buddy_index page_idx order)
            (rmv_page_order (page + find_buddy_index page_idx order - page_idx)
              (nr_free_dec order (list_del (page + find_buddy_index page_idx order - page_idx) z)))
      else if max_order < MAX_ORDER then
        free_merge (Suc max_order) page page_idx order buddy_idx z
      else (page, page_idx, order, buddy_idx, z))"
  by pat_completeness auto
termination
  by (relation "measure (\<lambda>(max_order, page, page_idx, order, buddy_idx, z).
        (max_order - order) + 2 * (MAX_ORDER - max_order))") auto

declare free_merge.simps [simp del]

text \<open>\<^verbatim>\<open>__free_one_page\<close>, run with the zone lock held.\<close>

definition free_one_page_locked :: "page_checks \<Rightarrow> nat \<Rightarrow> nat \<Rightarrow> migratetype \<Rightarrow> zone \<Rightarrow> zone" where
  "free_one_page_locked chk pfn order0 migratetype z0 =
     (if compound_bad chk pfn order0 then z0
      else
        case free_merge (min MAX_ORDER (Suc (pageblock_order z0))) pfn (pfn AND (2 ^ MAX_ORDER - 1)) order0 0
               (mod_zone_freepage_state (2 ^ order0) z0) of
          (page, page_idx, order, buddy_idx, z1) \<Rightarrow>
            let z2 = set_page_order page order z1;
                combined_idx = buddy_idx AND page_idx;
                higher_page = page + combined_idx - page_idx;
                higher_buddy = higher_page + find_buddy_index combined_idx (Suc order) - combined_idx
            in nr_free_inc order
                 (if order < MAX_ORDER - 2 \<and> pfn_valid_within z2 (page + buddy_idx - page_idx) \<and>
                     page_is_buddy z2 higher_page higher_buddy (Suc order)
                  then list_add_tail page order migratetype z2
                  else list_add page order migratetype z2))"

definition clear_scanned :: "zone \<Rightarrow> zone" where
  "clear_scanned z = z\<lparr>nr_pages_scanned := 0\<rparr>"

definition free_one_page :: "page_checks \<Rightarrow> nat \<Rightarrow> nat \<Rightarrow> migratetype \<Rightarrow> zone \<Rightarrow> zone" where
  "free_one_page chk pfn order migratetype z =
     free_one_page_locked chk pfn order migratetype (clear_scanned z)"

text \<open>\<^verbatim>\<open>__free_pages_ok\<close>.\<close>

definition free_pages_ok :: "page_checks \<Rightarrow> nat \<Rightarrow> nat \<Rightarrow> zone \<Rightarrow> zone" where
  "free_pages_ok chk pfn order z =
     (if free_bad chk pfn order then z
      else let mt = get_pageblock_migratetype pfn z
           in free_one_page chk pfn order mt (set_freepage_migratetype pfn mt z))"

subsection \<open>Allocating\<close>

text \<open>\<^verbatim>\<open>expand\<close>: give back the upper halves of a block until it has the wanted order.\<close>

function expand :: "nat \<Rightarrow> nat \<Rightarrow> nat \<Rightarrow> migratetype \<Rightarrow> zone \<Rightarrow> zone" where
  "expand page low high migratetype z =
     (if high > low then
        expand page low (high - 1) migratetype
          (set_page_order (page + 2 ^ (high - 1)) (high - 1)
            (nr_free_inc (high - 1) (list_add (page + 2 ^ (high - 1)) (high - 1) migratetype z)))
      else z)"
  by pat_completeness auto
termination
  by (relation "measure (\<lambda>(page, low, high, mt, z). high)") auto

declare expand.simps [simp del]

function rmqueue_smallest :: "nat \<Rightarrow> nat \<Rightarrow> migratetype \<Rightarrow> zone \<Rightarrow> nat option \<times> zone" where
  "rmqueue_smallest current_order order migratetype z =
     (if current_order < MAX_ORDER then
        case free_list z current_order migratetype of
          [] \<Rightarrow> rmqueue_smallest (Suc current_order) order migratetype z
        | page # _ \<Rightarrow>
            (Some page, set_freepage_migratetype page migratetype
              (expand page order current_order migratetype
                (nr_free_dec current_order (rmv_page_order page (list_del page z)))))
      else (None, z))"
  by pat_completeness auto
termination
  by (relation "measure (\<lambda>(c, order, mt, z). MAX_ORDER - c)") auto

declare rmqueue_smallest.simps [simp del]

text \<open>The rows of the table \<^verbatim>\<open>fallbacks\<close>, up to the terminating \<^verbatim>\<open>MIGRATE_RESERVE\<close>.\<close>

fun fallbacks :: "migratetype \<Rightarrow> migratetype list" where
  "fallbacks MIGRATE_UNMOVABLE = [MIGRATE_RECLAIMABLE, MIGRATE_MOVABLE]"
| "fallbacks MIGRATE_RECLAIMABLE = [MIGRATE_UNMOVABLE, MIGRATE_MOVABLE]"
| "fallbacks MIGRATE_MOVABLE = [MIGRATE_RECLAIMABLE, MIGRATE_UNMOVABLE]"
| "fallbacks MIGRATE_RESERVE = []"

function move_freepages :: "nat \<Rightarrow> nat \<Rightarrow> migratetype \<Rightarrow> nat \<Rightarrow> zone \<Rightarrow> nat \<times> zone" where
  "move_freepages page end_page migratetype pages_moved z =
     (if page \<le> end_page then
        if \<not> pfn_valid_within z page \<or> page_buddy z page = None then
          move_freepages (Suc page) end_page migratetype pages_moved z
        else
          move_freepages (page + 2 ^ page_order page z) end_page migratetype
            (pages_moved + 2 ^ page_order page z)
            (set_freepage_migratetype page migratetype
              (list_add page (page_order page z) migratetype (list_del page z)))
      else (pages_moved, z))"
  by pat_completeness auto
termination
  by (relation "measure (\<lambda>(page, e, mt, n, z). Suc e - page)") (auto intro!: diff_less_mono2)

declare move_freepages.simps [simp del]

definition move_freepages_block :: "nat \<Rightarrow> migratetype \<Rightarrow> zone \<Rightarrow> nat \<times> zone" where
  "move_freepages_block page migratetype z =
     (let start_pfn = page - page mod 2 ^ pageblock_order z;
          end_pfn = start_pfn + 2 ^ pageblock_order z - 1;
          start_page = (if \<not> zone_spans_pfn z start_pfn then page else start_pfn)
      in if \<not> zone_spans_pfn z end_pfn then (0, z)
         else move_freepages start_page end_pfn migratetype 0 z)"

fun change_pageblock_range :: "nat \<Rightarrow> nat \<Rightarrow> migratetype \<Rightarrow> zone \<Rightarrow> zone" where
  "change_pageblock_range 0 p mt z = z"
| "change_pageblock_range (Suc n) p mt z =
     change_pageblock_range n (p + 2 ^ pageblock_order z) mt (set_pageblock_migratetype p mt z)"

definition try_to_steal_freepages :: "nat \<Rightarrow> migratetype \<Rightarrow> zone \<Rightarrow> zone" where
  "try_to_steal_freepages page start_type z =
     (let current_order = page_order page z in
      if current_order \<ge> pageblock_order z then
        change_pageblock_range (2 ^ (current_order - pageblock_order z)) page start_type z
      else if current_order \<ge> pageblock_order z div 2 \<or> start_type = MIGRATE_RECLAIMABLE \<or>
              start_type = MIGRATE_UNMOVABLE \<or> page_group_by_mobility_disabled z then
        case move_freepages_block page start_type z of
          (pages, z1) \<Rightarrow>
            if pages \<ge> 2 ^ (pageblock_order z - 1) \<or> page_group_by_mobility_disabled z
            then set_pageblock_migratetype page start_type z1 else z1
      else z)"

text \<open>The first of the fallback types with a free block of the given order.\<close>

fun fallback_pick :: "nat \<Rightarrow> migratetype list \<Rightarrow> zone \<Rightarrow> nat option" where
  "fallback_pick current_order [] z = None"
| "fallback_pick current_order (mt # mts) z =
     (case free_list z current_order mt of
        [] \<Rightarrow> fallback_pick current_order mts z
      | page # _ \<Rightarrow> Some page)"

text \<open>\<^verbatim>\<open>__rmqueue_fallback\<close>: \<open>n\<close> is one more than the order tried next.\<close>

fun rmqueue_fallback :: "nat \<Rightarrow> nat \<Rightarrow> migratetype \<Rightarrow> zone \<Rightarrow> nat option \<times> zone" where
  "rmqueue_fallback 0 order start_mt z = (None, z)"
| "rmqueue_fallback (Suc current_order) order start_mt z =
     (if order \<le> current_order then
        case fallback_pick current_order (fallbacks start_mt) z of
          None \<Rightarrow> rmqueue_fallback current_order order start_mt z
        | Some page \<Rightarrow>
            (Some page, set_freepage_migratetype page start_mt
              (expand page order current_order start_mt
                (rmv_page_order page (list_del page
                  (try_to_steal_freepages page start_mt (nr_free_dec current_order z))))))
      else (None, z))"

text \<open>\<^verbatim>\<open>__rmqueue\<close>: the wanted type, then a fallback, then the reserve.\<close>

definition rmqueue :: "nat \<Rightarrow> migratetype \<Rightarrow> zone \<Rightarrow> nat option \<times> zone" where
  "rmqueue order migratetype z =
     (case rmqueue_smallest order order migratetype z of
        (Some page, z1) \<Rightarrow> (Some page, z1)
      | (None, z1) \<Rightarrow>
          if migratetype \<noteq> MIGRATE_RESERVE then
            case rmqueue_fallback MAX_ORDER order migratetype z1 of
              (Some page, z2) \<Rightarrow> (Some page, z2)
            | (None, z2) \<Rightarrow> rmqueue_smallest order order MIGRATE_RESERVE z2
          else (None, z1))"


subsection \<open>Watermarks\<close>

text \<open>
  \<^verbatim>\<open>__zone_watermark_ok\<close>, with the two flags \<^verbatim>\<open>ALLOC_HIGH\<close> and \<^verbatim>\<open>ALLOC_HARDER\<close> as booleans; \<open>shift\<close> is the
  tunable \<^verbatim>\<open>min_free_order_shift\<close>. The order loop has its own recursion.
\<close>

function watermark_orders :: "nat \<Rightarrow> nat \<Rightarrow> nat \<Rightarrow> int \<Rightarrow> int \<Rightarrow> zone \<Rightarrow> bool" where
  "watermark_orders shift o' order free_pages wmin z =
     (if o' < order then
        let free_pages' = free_pages - int (nr_free z o' * 2 ^ o');
            wmin' = wmin div 2 ^ shift
        in if free_pages' \<le> wmin' then False
           else watermark_orders shift (Suc o') order free_pages' wmin' z
      else True)"
  by pat_completeness auto
termination
  by (relation "measure (\<lambda>(shift, o', order, f, m, z). order - o')") auto

declare watermark_orders.simps [simp del]

definition zone_watermark_ok_for :: "nat \<Rightarrow> zone \<Rightarrow> nat \<Rightarrow> int \<Rightarrow> nat \<Rightarrow> bool \<Rightarrow> bool \<Rightarrow> int \<Rightarrow> bool" where
  "zone_watermark_ok_for shift z order mark classzone_idx high harder free_pages0 =
     (let free_pages = free_pages0 - (2 ^ order - 1);
          min1 = (if high then mark - mark div 2 else mark);
          min2 = (if harder then min1 - min1 div 4 else min1)
      in if free_pages \<le> min2 + lowmem_reserve z classzone_idx then False
         else watermark_orders shift 0 order free_pages min2 z)"

definition zone_watermark_ok :: "nat \<Rightarrow> zone \<Rightarrow> nat \<Rightarrow> int \<Rightarrow> nat \<Rightarrow> bool \<Rightarrow> bool \<Rightarrow> bool" where
  "zone_watermark_ok shift z order mark classzone_idx high harder =
     zone_watermark_ok_for shift z order mark classzone_idx high harder (nr_free_pages z)"

text \<open>\<^verbatim>\<open>__isolate_free_page\<close>: take a given free block, if the low watermark allows it.\<close>

fun claim_pageblocks :: "nat \<Rightarrow> nat \<Rightarrow> zone \<Rightarrow> zone" where
  "claim_pageblocks 0 p z = z"
| "claim_pageblocks (Suc n) p z =
     claim_pageblocks n (p + 2 ^ pageblock_order z) (set_pageblock_migratetype p MIGRATE_MOVABLE z)"

definition isolate_free_page :: "nat \<Rightarrow> nat \<Rightarrow> nat \<Rightarrow> zone \<Rightarrow> (nat \<times> zone) outcome" where
  "isolate_free_page shift page order z =
     (if page_buddy z page = None then Bug
      else if \<not> zone_watermark_ok shift z 0 (low_wmark z + 2 ^ order) 0 False False then Return (0, z)
      else
        let z1 = rmv_page_order page (nr_free_dec order (list_del page
                   (mod_zone_freepage_state (- (2 ^ order)) z)));
            steps = (2 ^ order - 1 + (2 ^ pageblock_order z - 1)) div 2 ^ pageblock_order z
        in Return (2 ^ order, if order \<ge> pageblock_order z - 1 then claim_pageblocks steps page z1 else z1))"

subsection \<open>Per-CPU lists\<close>

text \<open>The types with a per-CPU list, in the cyclic order of their numbers.\<close>

fun next_pcp_type :: "migratetype \<Rightarrow> migratetype" where
  "next_pcp_type MIGRATE_UNMOVABLE = MIGRATE_RECLAIMABLE"
| "next_pcp_type MIGRATE_RECLAIMABLE = MIGRATE_MOVABLE"
| "next_pcp_type MIGRATE_MOVABLE = MIGRATE_UNMOVABLE"
| "next_pcp_type MIGRATE_RESERVE = MIGRATE_UNMOVABLE"

definition MIGRATE_PCPTYPES :: nat where "MIGRATE_PCPTYPES = 3"

definition set_pcp_list :: "migratetype \<Rightarrow> nat list \<Rightarrow> zone \<Rightarrow> zone" where
  "set_pcp_list mt ps z = z\<lparr>pcp_lists := (pcp_lists z)(mt := ps)\<rparr>"

definition add_pcp_count :: "int \<Rightarrow> zone \<Rightarrow> zone" where
  "add_pcp_count d z = z\<lparr>pcp_count := pcp_count z + d\<rparr>"

text \<open>
  \<^verbatim>\<open>free_pcppages_bulk\<close>: the round-robin search for a non-empty list (which does not end when all lists
  are empty), the inner loop that frees from the tail of that list, and the outer loop.
\<close>

partial_function (option) pcp_scan :: "migratetype \<Rightarrow> nat \<Rightarrow> zone \<Rightarrow> (migratetype \<times> nat) option" where
  "pcp_scan mt batch_free z =
     (if pcp_lists z (next_pcp_type mt) = [] then pcp_scan (next_pcp_type mt) (Suc batch_free) z
      else Some (next_pcp_type mt, Suc batch_free))"

declare pcp_scan.simps [code]

fun drain_list :: "page_checks \<Rightarrow> migratetype \<Rightarrow> nat \<Rightarrow> nat \<Rightarrow> zone \<Rightarrow> nat \<times> nat \<times> zone" where
  "drain_list chk mt 0 batch_free z = (0, batch_free, z)"
| "drain_list chk mt (Suc to_free) batch_free z =
     (let page = last (pcp_lists z mt);
          z1 = free_one_page_locked chk page 0 (freepage_mt z page)
                 (set_pcp_list mt (butlast (pcp_lists z mt)) z)
      in if to_free = 0 then (0, batch_free, z1)
         else if batch_free - 1 = 0 then (to_free, 0, z1)
         else if pcp_lists z1 mt = [] then (to_free, batch_free - 1, z1)
         else drain_list chk mt to_free (batch_free - 1) z1)"

partial_function (option) pcp_bulk_loop :: "page_checks \<Rightarrow> migratetype \<Rightarrow> nat \<Rightarrow> nat \<Rightarrow> zone \<Rightarrow> zone option" where
  "pcp_bulk_loop chk mt batch_free to_free z =
     (if to_free = 0 then Some z
      else case pcp_scan mt batch_free z of
             None \<Rightarrow> None
           | Some (mt1, batch1) \<Rightarrow>
               (case drain_list chk mt1 to_free (if batch1 = MIGRATE_PCPTYPES then to_free else batch1) z of
                  (to_free', batch', z1) \<Rightarrow> pcp_bulk_loop chk mt1 batch' to_free' z1))"

declare pcp_bulk_loop.simps [code]

definition free_pcppages_bulk :: "page_checks \<Rightarrow> nat \<Rightarrow> zone \<Rightarrow> zone option" where
  "free_pcppages_bulk chk nr z = pcp_bulk_loop chk MIGRATE_UNMOVABLE 0 nr (clear_scanned z)"

definition free_hot_cold_page :: "page_checks \<Rightarrow> nat \<Rightarrow> bool \<Rightarrow> zone \<Rightarrow> zone option" where
  "free_hot_cold_page chk pfn cold z =
     (if free_bad chk pfn 0 then Some z
      else
        let mt0 = get_pageblock_migratetype pfn z;
            z1 = set_freepage_migratetype pfn mt0 z;
            mt = (if mt0 = MIGRATE_RESERVE then MIGRATE_MOVABLE else mt0);
            z2 = add_pcp_count 1
                   (set_pcp_list mt (if \<not> cold then pfn # pcp_lists z1 mt else pcp_lists z1 mt @ [pfn]) z1)
        in if pcp_count z2 \<ge> pcp_high z2 then
             case free_pcppages_bulk chk (pcp_batch z2) z2 of
               None \<Rightarrow> None
             | Some z3 \<Rightarrow> Some (add_pcp_count (- int (pcp_batch z2)) z3)
           else Some z2)"

text \<open>\<^verbatim>\<open>drain_pages\<close>, for one zone.\<close>

definition drain_pages :: "page_checks \<Rightarrow> zone \<Rightarrow> zone option" where
  "drain_pages chk z =
     (if pcp_count z \<noteq> 0 then
        case free_pcppages_bulk chk (nat (pcp_count z)) z of
          None \<Rightarrow> None
        | Some z1 \<Rightarrow> Some (z1\<lparr>pcp_count := 0\<rparr>)
      else Some z)"

text \<open>\<^verbatim>\<open>rmqueue_bulk\<close>: up to \<open>nr\<close> blocks in the order taken, then linked into the caller's list.\<close>

fun rmqueue_pages :: "nat \<Rightarrow> nat \<Rightarrow> migratetype \<Rightarrow> zone \<Rightarrow> nat list \<times> zone" where
  "rmqueue_pages 0 order mt z = ([], z)"
| "rmqueue_pages (Suc nr) order mt z =
     (case rmqueue order mt z of
        (None, z1) \<Rightarrow> ([], z1)
      | (Some page, z1) \<Rightarrow> (case rmqueue_pages nr order mt z1 of (ps, z2) \<Rightarrow> (page # ps, z2)))"

definition rmqueue_bulk :: "nat \<Rightarrow> nat \<Rightarrow> migratetype \<Rightarrow> bool \<Rightarrow> zone \<Rightarrow> nat \<times> zone" where
  "rmqueue_bulk order nr mt cold z =
     (case rmqueue_pages nr order mt z of
        (ps, z1) \<Rightarrow>
          (length ps, mod_zone_freepage_state (- int (length ps * 2 ^ order))
             (set_pcp_list mt (if \<not> cold then ps @ pcp_lists z1 mt else pcp_lists z1 mt @ rev ps) z1)))"

definition alloc_statistics :: "nat \<Rightarrow> zone \<Rightarrow> zone" where
  "alloc_statistics order z =
     (let z1 = z\<lparr>nr_alloc_batch := nr_alloc_batch z - 2 ^ order\<rparr>
      in if nr_alloc_batch z1 \<le> 0 \<and> \<not> fair_depleted z1 then z1\<lparr>fair_depleted := True\<rparr> else z1)"

text \<open>The first part of \<^verbatim>\<open>buffered_rmqueue\<close>: a page from the per-CPU list or the buddy lists.\<close>

definition buffered_take :: "nat \<Rightarrow> bool \<Rightarrow> migratetype \<Rightarrow> zone \<Rightarrow> nat option \<times> zone" where
  "buffered_take order cold mt z =
     (if order = 0 then
        let z1 = (if pcp_lists z mt = []
                  then (case rmqueue_bulk 0 (pcp_batch z) mt cold z of (n, z') \<Rightarrow> add_pcp_count (int n) z')
                  else z);
            ps = pcp_lists z1 mt
        in if ps = [] then (None, z1)
           else if cold then (Some (last ps), add_pcp_count (-1) (set_pcp_list mt (butlast ps) z1))
           else (Some (hd ps), add_pcp_count (-1) (set_pcp_list mt (tl ps) z1))
      else
        case rmqueue order mt z of
          (None, z1) \<Rightarrow> (None, z1)
        | (Some page, z1) \<Rightarrow> (Some page, mod_zone_freepage_state (- (2 ^ order)) z1))"

text \<open>\<^verbatim>\<open>buffered_rmqueue\<close>: retried as long as the page taken fails the checks.\<close>

partial_function (option) buffered_rmqueue :: "page_checks \<Rightarrow> nat \<Rightarrow> bool \<Rightarrow> migratetype \<Rightarrow> zone \<Rightarrow>
    (nat option \<times> zone) option" where
  "buffered_rmqueue chk order cold mt z =
     (case buffered_take order cold mt z of
        (None, z1) \<Rightarrow> Some (None, z1)
      | (Some page, z1) \<Rightarrow>
          if new_bad chk page order then buffered_rmqueue chk order cold mt (alloc_statistics order z1)
          else Some (Some page, alloc_statistics order z1))"

declare buffered_rmqueue.simps [code]

end
