(* ===== verification/Buddy_Inv.thy ===== *)
theory Buddy_Inv
  imports Buddy
begin

text \<open>
  The invariant of the buddy allocator and its abstraction to the set of free page frames: free blocks
  are aligned, disjoint, fully coalesced, and on exactly one list each. Taking a block off its list
  and putting one on are shown to keep the invariant; the loops of the allocator are built from these.
\<close>

subsection \<open>Blocks\<close>

definition blk :: "nat \<Rightarrow> nat \<Rightarrow> nat set" where "blk p k = {p..<p + 2 ^ k}"

definition own :: "zone \<Rightarrow> nat \<Rightarrow> bool" where "own z p \<longleftrightarrow> page_zone_id z p = zone_id z"

definition head :: "zone \<Rightarrow> nat \<Rightarrow> nat \<Rightarrow> bool" where
  "head z p k \<longleftrightarrow> page_buddy z p = Some k \<and> own z p"

definition free_set :: "zone \<Rightarrow> nat set" where
  "free_set z = {q. \<exists>p k. head z p k \<and> q \<in> blk p k}"

definition block_ok :: "zone \<Rightarrow> nat \<Rightarrow> nat \<Rightarrow> bool" where
  "block_ok z p k \<longleftrightarrow> k < MAX_ORDER \<and> 2 ^ k dvd p \<and> p + 2 ^ k \<le> 2 ^ 52 \<and>
     (\<forall>q \<in> blk p k. own z q \<and> pfn_valid_within z q)"

definition lists_ok :: "zone \<Rightarrow> bool" where
  "lists_ok z \<longleftrightarrow>
     (\<forall>k mt. distinct (free_list z k mt) \<and> (\<forall>p \<in> set (free_list z k mt). head z p k)) \<and>
     (\<forall>p k. head z p k \<longrightarrow> (\<exists>mt. p \<in> set (free_list z k mt))) \<and>
     (\<forall>p k mt mt'. p \<in> set (free_list z k mt) \<and> p \<in> set (free_list z k mt') \<longrightarrow> mt = mt')"

definition list_total :: "zone \<Rightarrow> nat \<Rightarrow> nat" where
  "list_total z k = length (free_list z k MIGRATE_UNMOVABLE) + length (free_list z k MIGRATE_RECLAIMABLE) +
     length (free_list z k MIGRATE_MOVABLE) + length (free_list z k MIGRATE_RESERVE)"

definition disjoint_blocks :: "zone \<Rightarrow> bool" where
  "disjoint_blocks z \<longleftrightarrow> (\<forall>p k q j. head z p k \<and> head z q j \<and> p \<noteq> q \<longrightarrow> blk p k \<inter> blk q j = {})"

definition coalesced :: "zone \<Rightarrow> bool" where
  "coalesced z \<longleftrightarrow> (\<forall>p k. head z p k \<and> Suc k < MAX_ORDER \<longrightarrow> \<not> head z (p XOR 2 ^ k) k)"

definition zone_inv :: "zone \<Rightarrow> bool" where
  "zone_inv z \<longleftrightarrow> lists_ok z \<and> (\<forall>p k. head z p k \<longrightarrow> block_ok z p k) \<and> disjoint_blocks z \<and> coalesced z \<and>
     (\<forall>k. nr_free z k = list_total z k)"

text \<open>A block that is on no list: what the allocator holds in its hands between two steps.\<close>

definition floating :: "zone \<Rightarrow> nat \<Rightarrow> nat \<Rightarrow> bool" where
  "floating z p k \<longleftrightarrow> block_ok z p k \<and> blk p k \<inter> free_set z = {}"

text \<open>What no operation on the lists changes.\<close>

definition same_pages :: "zone \<Rightarrow> zone \<Rightarrow> bool" where
  "same_pages z z' \<longleftrightarrow> zone_id z' = zone_id z \<and> page_zone_id z' = page_zone_id z \<and>
     pfn_valid_within z' = pfn_valid_within z \<and> pageblock_order z' = pageblock_order z \<and>
     pcp_lists z' = pcp_lists z \<and> pcp_count z' = pcp_count z \<and> pcp_high z' = pcp_high z \<and>
     pcp_batch z' = pcp_batch z \<and> zone_start_pfn z' = zone_start_pfn z \<and> spanned_pages z' = spanned_pages z"

lemma same_pages_refl [simp]: "same_pages z z"
  by (simp add: same_pages_def)

lemma same_pages_trans: "same_pages z z' \<Longrightarrow> same_pages z' z'' \<Longrightarrow> same_pages z z''"
  by (simp add: same_pages_def)

lemma same_pages_own: "same_pages z z' \<Longrightarrow> own z' p = own z p"
  by (simp add: same_pages_def own_def)

lemma same_pages_block: "same_pages z z' \<Longrightarrow> block_ok z' p k = block_ok z p k"
  by (simp add: same_pages_def block_ok_def own_def)

subsection \<open>Buddy arithmetic\<close>

lemma unset_bit_nat: "unset_bit k (n :: nat) = (if bit n k then n - 2 ^ k else n)"
proof (cases "bit n k")
  case True
  have "set_bit k (unset_bit k n) = n"
    by (rule bit_eqI) (auto simp: bit_simps True)
  moreover have "set_bit k (unset_bit k n) = unset_bit k n + 2 ^ k"
    by (simp add: set_bit_eq bit_simps)
  ultimately show ?thesis using True by simp
next
  case False
  have "unset_bit k n = n" by (rule bit_eqI) (use False in \<open>auto simp: bit_simps\<close>)
  then show ?thesis using False by simp
qed

lemma xor_pow2: "(n :: nat) XOR 2 ^ k = (if bit n k then n - 2 ^ k else n + 2 ^ k)"
proof -
  have "n XOR 2 ^ k = flip_bit k n" by (simp add: flip_bit_eq_xor push_bit_eq_mult)
  then show ?thesis by (simp add: flip_bit_eq_if set_bit_eq unset_bit_nat)
qed

lemma xor_twice: "((n :: nat) XOR m) XOR m = n"
  by (rule bit_eqI) (auto simp: bit_simps)

lemma bit_pow2_le: "bit (n :: nat) k \<Longrightarrow> 2 ^ k \<le> n"
  by (metis bit_nat_iff div_less even_zero linorder_not_le bit_iff_odd)

lemma aligned_split:
  assumes "2 ^ k dvd (p :: nat)"
  shows "if bit p k then 2 ^ Suc k dvd p - 2 ^ k else 2 ^ Suc k dvd p"
proof -
  obtain m where m: "p = 2 ^ k * m" using assms by (elim dvdE)
  have "bit p k \<longleftrightarrow> odd m" by (simp add: m bit_iff_odd)
  then show ?thesis by (auto simp: m elim!: oddE evenE)
qed

lemma and_buddy: "((n :: nat) XOR 2 ^ k) AND n = (if bit n k then n - 2 ^ k else n)"
proof -
  have "(n XOR 2 ^ k) AND n = unset_bit k n"
    by (rule bit_eqI) (auto simp: bit_simps bit_xor_iff bit_and_iff bit_unset_bit_iff bit_exp_iff)
  then show ?thesis by (simp add: unset_bit_nat)
qed

lemma bit_mod_pow2: "k < n \<Longrightarrow> bit (p mod 2 ^ n :: nat) k = bit p k"
  by (simp flip: take_bit_eq_mod add: bit_take_bit_iff)

text \<open>The index within a maximal block gives the buddy's frame number and the merged block's.\<close>

lemma buddy_pfn:
  assumes "k < MAX_ORDER"
  shows "p + find_buddy_index (p mod 2 ^ MAX_ORDER) k - p mod 2 ^ MAX_ORDER = p XOR 2 ^ k"
    and "p + (find_buddy_index (p mod 2 ^ MAX_ORDER) k AND p mod 2 ^ MAX_ORDER) - p mod 2 ^ MAX_ORDER =
      (if bit p k then p - 2 ^ k else p)"
    and "find_buddy_index (p mod 2 ^ MAX_ORDER) k AND p mod 2 ^ MAX_ORDER =
      (if bit p k then p - 2 ^ k else p) mod 2 ^ MAX_ORDER"
proof -
  let ?i = "p mod 2 ^ MAX_ORDER"
  have b: "bit ?i k = bit p k" by (rule bit_mod_pow2 [OF assms])
  have i: "?i \<le> p" by simp
  have x: "find_buddy_index ?i k = (if bit p k then ?i - 2 ^ k else ?i + 2 ^ k)"
    by (simp add: find_buddy_index_def xor_pow2 b)
  have le: "bit p k \<Longrightarrow> 2 ^ k \<le> ?i" using b by (simp add: bit_pow2_le)
  show "p + find_buddy_index ?i k - ?i = p XOR 2 ^ k"
    using i le x by (simp add: xor_pow2)
  have a: "find_buddy_index ?i k AND ?i = (if bit p k then ?i - 2 ^ k else ?i)"
    by (simp add: find_buddy_index_def and_buddy b)
  show "p + (find_buddy_index ?i k AND ?i) - ?i = (if bit p k then p - 2 ^ k else p)"
    using i le a by auto
  have "(p - 2 ^ k) mod 2 ^ MAX_ORDER = ?i - 2 ^ k" if "bit p k"
  proof -
    have "p - 2 ^ k = (?i - 2 ^ k) + 2 ^ MAX_ORDER * (p div 2 ^ MAX_ORDER)"
      using le [OF that] by (metis Nat.add_diff_assoc2 mod_mult_div_eq)
    then show ?thesis
      by (metis diff_le_self le_less_trans mod_less mod_less_divisor mod_mult_self2 zero_less_numeral zero_less_power)
  qed
  then show "find_buddy_index ?i k AND ?i = (if bit p k then p - 2 ^ k else p) mod 2 ^ MAX_ORDER"
    using a by simp
qed

lemma merged_block:
  assumes "2 ^ k dvd p"
  shows "blk (if bit p k then p - 2 ^ k else p) (Suc k) = blk p k \<union> blk (p XOR 2 ^ k) k"
    and "2 ^ Suc k dvd (if bit p k then p - 2 ^ k else p)"
  using aligned_split [OF assms] bit_pow2_le [of p k]
  by (auto simp: blk_def xor_pow2)


subsection \<open>Taking a block off its list\<close>

lemma blk_self [simp]: "p \<in> blk p k"
  by (simp add: blk_def)

lemma zone_inv_list:
  assumes "zone_inv z" and "p \<in> set (free_list z k mt)"
  shows "head z p k"
  using assms by (auto simp: zone_inv_def lists_ok_def)

lemma lists_okD:
  assumes "lists_ok z"
  shows "distinct (free_list z k mt)" and "p \<in> set (free_list z k mt) \<Longrightarrow> head z p k"
    and "head z p k \<Longrightarrow> \<exists>mt. p \<in> set (free_list z k mt)"
    and "p \<in> set (free_list z k mt) \<Longrightarrow> p \<in> set (free_list z k mt') \<Longrightarrow> mt = mt'"
  using assms unfolding lists_ok_def by blast+

lemma lists_okI:
  assumes "\<And>k mt. distinct (free_list z k mt)" and "\<And>p k mt. p \<in> set (free_list z k mt) \<Longrightarrow> head z p k"
    and "\<And>p k. head z p k \<Longrightarrow> \<exists>mt. p \<in> set (free_list z k mt)"
    and "\<And>p k mt mt'. p \<in> set (free_list z k mt) \<Longrightarrow> p \<in> set (free_list z k mt') \<Longrightarrow> mt = mt'"
  shows "lists_ok z"
  using assms unfolding lists_ok_def by blast

lemma list_total_lt:
  assumes "zone_inv z" shows "list_total z k < 2 ^ 63"
proof -
  have "length (free_list z k mt) \<le> 2 ^ 52" for mt
  proof -
    have "set (free_list z k mt) \<subseteq> {..<2 ^ 52}"
    proof
      fix p assume "p \<in> set (free_list z k mt)"
      then have "block_ok z p k" using assms zone_inv_list by (auto simp: zone_inv_def)
      then have "p + 2 ^ k \<le> 2 ^ 52" by (simp add: block_ok_def)
      moreover have "0 < (2 :: nat) ^ k" by simp
      ultimately show "p \<in> {..<2 ^ 52}" unfolding lessThan_iff by linarith
    qed
    then have "card (set (free_list z k mt)) \<le> 2 ^ 52"
      using card_mono [of "{..<(2 :: nat) ^ 52}"] by simp
    moreover have "distinct (free_list z k mt)" using assms by (simp add: zone_inv_def lists_ok_def)
    ultimately show ?thesis by (simp add: distinct_card)
  qed
  from this [of MIGRATE_UNMOVABLE] this [of MIGRATE_RECLAIMABLE] this [of MIGRATE_MOVABLE]
    this [of MIGRATE_RESERVE] show ?thesis by (simp add: list_total_def)
qed

lemma list_total_remove:
  assumes "zone_inv z" and "head z p k"
    and fl: "free_list z' = (\<lambda>k mt. remove1 p (free_list z k mt))"
  shows "list_total z j = list_total z' j + (if j = k then 1 else 0)"
proof -
  have lo: "lists_ok z" using assms(1) by (simp add: zone_inv_def)
  have other: "p \<notin> set (free_list z j mt)" if "j \<noteq> k" for mt
    using lists_okD(2) [OF lo, of p j mt] assms(2) that by (auto simp: head_def)
  from lists_okD(3) [OF lo assms(2)] obtain mt where mt: "p \<in> set (free_list z k mt)" ..
  have only: "p \<notin> set (free_list z k mt')" if "mt' \<noteq> mt" for mt'
    using lists_okD(4) [OF lo mt] that by blast
  have pos: "0 < length (free_list z k mt)" using mt by (auto simp: length_pos_if_in_set)
  have len: "length (remove1 p (free_list z k mt')) = length (free_list z k mt') - (if mt' = mt then 1 else 0)" for mt'
    using mt only by (auto simp: length_remove1)
  show ?thesis
    using pos other by (cases "j = k"; cases mt) (auto simp: list_total_def fl len remove1_idem)
qed

lemma free_set_remove:
  assumes "zone_inv z" and "head z p k" and h: "\<And>q j. head z' q j \<longleftrightarrow> head z q j \<and> q \<noteq> p"
  shows "free_set z' = free_set z - blk p k"
proof -
  have "blk q j \<inter> blk p k = {}" if "head z q j" "q \<noteq> p" for q j
    using assms(1,2) that by (auto simp: zone_inv_def disjoint_blocks_def)
  moreover have "j = k" if "head z p j" for j using that assms(2) by (simp add: head_def)
  ultimately show ?thesis unfolding free_set_def h by blast
qed

lemma remove_block:
  assumes inv: "zone_inv z" and hd: "head z p k" and sp: "same_pages z z'"
    and fl: "free_list z' = (\<lambda>k mt. remove1 p (free_list z k mt))"
    and pb: "page_buddy z' = (page_buddy z)(p := None)"
    and nr: "nr_free z' = (nr_free z)(k := sub64 (nr_free z k) 1)"
  shows "zone_inv z'" and "\<And>q j. head z' q j \<longleftrightarrow> head z q j \<and> q \<noteq> p"
    and "free_set z' = free_set z - blk p k" and "floating z' p k"
proof -
  have lo: "lists_ok z" using inv by (simp add: zone_inv_def)
  show h: "head z' q j \<longleftrightarrow> head z q j \<and> q \<noteq> p" for q j
    using sp by (auto simp: head_def pb same_pages_own)
  show fs: "free_set z' = free_set z - blk p k" by (rule free_set_remove [OF inv hd h])
  have "lists_ok z'"
  proof (rule lists_okI)
    show "distinct (free_list z' j mt)" for j mt
      by (simp add: fl distinct_remove1 lists_okD(1) [OF lo])
    have set': "set (free_list z' j mt) = set (free_list z j mt) - {p}" for j mt
      by (simp add: fl set_remove1_eq lists_okD(1) [OF lo])
    show "head z' q j" if "q \<in> set (free_list z' j mt)" for q j mt
      using that lists_okD(2) [OF lo, of q j mt] by (simp add: set' h)
    show "\<exists>mt. q \<in> set (free_list z' j mt)" if "head z' q j" for q j
      using that lists_okD(3) [OF lo, of q j] by (simp add: set' h)
    show "mt = mt'" if "q \<in> set (free_list z' j mt)" "q \<in> set (free_list z' j mt')" for q j mt mt'
      using that lists_okD(4) [OF lo, of q j mt mt'] by (simp add: set')
  qed
  moreover have "nr_free z' j = list_total z' j" for j
    using list_total_remove [OF inv hd fl, of j] list_total_lt [OF inv, of j] inv nr
    by (auto simp: zone_inv_def sub64_eq)
  ultimately show "zone_inv z'"
    using inv h sp by (auto simp: zone_inv_def disjoint_blocks_def coalesced_def same_pages_block)
  show "floating z' p k"
    using inv hd sp fs by (auto simp: floating_def same_pages_block zone_inv_def)
qed

subsection \<open>Putting a block on a list\<close>

lemma floating_not_head: "floating z p k \<Longrightarrow> q \<in> blk p k \<Longrightarrow> \<not> head z q j"
  unfolding floating_def free_set_def using blk_self by blast

lemma put_block:
  assumes inv: "zone_inv z" and fl: "floating z p k" and sp: "same_pages z z'"
    and alone: "Suc k < MAX_ORDER \<Longrightarrow> \<not> head z (p XOR 2 ^ k) k"
    and ls: "free_list z' = (free_list z)(k := (free_list z k)(mt := l))"
    and l: "l = p # free_list z k mt \<or> l = free_list z k mt @ [p]"
    and pb: "page_buddy z' = (page_buddy z)(p := Some k)"
    and nr: "nr_free z' = (nr_free z)(k := add64 (nr_free z k) 1)"
  shows "zone_inv z'" and "\<And>q j. head z' q j \<longleftrightarrow> head z q j \<or> q = p \<and> j = k"
    and "free_set z' = free_set z \<union> blk p k"
proof -
  have no: "\<not> head z p j" for j using floating_not_head [OF fl blk_self] .
  have ok: "block_ok z p k" using fl by (simp add: floating_def)
  then have "own z p" by (auto simp: block_ok_def)
  with no have none: "page_buddy z p = None" by (auto simp: head_def)
  show h: "head z' q j \<longleftrightarrow> head z q j \<or> q = p \<and> j = k" for q j
    using sp none \<open>own z p\<close> by (auto simp: head_def pb same_pages_own)
  show "free_set z' = free_set z \<union> blk p k" by (auto simp: free_set_def h)
  have lo: "lists_ok z" using inv by (simp add: zone_inv_def)
  have notin: "p \<notin> set (free_list z j mt')" for j mt'
    using lists_okD(2) [OF lo] no by blast
  have "lists_ok z'"
  proof (rule lists_okI)
    show "distinct (free_list z' j mt')" for j mt'
      using l notin lists_okD(1) [OF lo] by (auto simp: ls)
    have set': "set (free_list z' j mt') = (if j = k \<and> mt' = mt then insert p (set (free_list z j mt'))
        else set (free_list z j mt'))" for j mt'
      using l by (auto simp: ls)
    show "head z' q j" if "q \<in> set (free_list z' j mt')" for q j mt'
      using that lists_okD(2) [OF lo] by (auto simp: set' h split: if_splits)
    show "\<exists>mt. q \<in> set (free_list z' j mt)" if "head z' q j" for q j
      using that lists_okD(3) [OF lo, of q j] unfolding set' h by (cases "q = p \<and> j = k") auto
    show "mt1 = mt2" if "q \<in> set (free_list z' j mt1)" "q \<in> set (free_list z' j mt2)" for q j mt1 mt2
      using that lists_okD(4) [OF lo, of q j mt1 mt2] notin by (auto simp: set' split: if_splits)
  qed
  moreover have "nr_free z' j = list_total z' j" for j
  proof -
    have "nr_free z j = list_total z j" using inv by (simp add: zone_inv_def)
    moreover have "list_total z' j = list_total z j + (if j = k then 1 else 0)"
      using l by (cases mt) (auto simp: list_total_def ls)
    ultimately show ?thesis
      using list_total_lt [OF inv, of j] by (auto simp: nr add64_eq)
  qed
  moreover have "disjoint_blocks z'"
  proof -
    have "blk q j \<inter> blk p k = {}" if "head z q j" for q j
      using fl that unfolding floating_def free_set_def by blast
    moreover have "blk q j \<inter> blk r i = {}" if "head z q j" "head z r i" "q \<noteq> r" for q j r i
      using inv that by (auto simp: zone_inv_def disjoint_blocks_def)
    ultimately show ?thesis unfolding disjoint_blocks_def h by (metis Int_commute)
  qed
  moreover have "coalesced z'"
    unfolding coalesced_def h
  proof (intro allI impI)
    fix q j
    assume a: "(head z q j \<or> q = p \<and> j = k) \<and> Suc j < MAX_ORDER"
    have inj: "q = p XOR 2 ^ j" if "q XOR 2 ^ j = p" using that xor_twice [of q "2 ^ j"] by simp
    have "p XOR 2 ^ k \<noteq> p"
    proof
      assume "p XOR 2 ^ k = p"
      then have "bit (p XOR 2 ^ k) k = bit p k" by simp
      then show False by (simp add: bit_simps)
    qed
    with a inj alone inv show "\<not> (head z (q XOR 2 ^ j) j \<or> q XOR 2 ^ j = p \<and> j = k)"
      by (auto simp: zone_inv_def coalesced_def)
  qed
  ultimately show "zone_inv z'"
    using inv ok sp h by (auto simp: zone_inv_def same_pages_block)
qed


subsection \<open>Freeing\<close>

lemma blk_Suc: "blk p (Suc k) = blk p k \<union> blk (p + 2 ^ k) k"
  by (auto simp: blk_def)

lemma not_buddy:
  assumes "zone_inv z" and "block_ok z p k" and "\<not> page_is_buddy z p q k"
  shows "\<not> head z q k"
proof
  assume h: "head z q k"
  then have "block_ok z q k" using assms(1) by (simp add: zone_inv_def)
  then have "pfn_valid_within z q" by (auto simp: block_ok_def)
  moreover have "own z p" using assms(2) by (auto simp: block_ok_def)
  ultimately show False using h assms(3) by (simp add: page_is_buddy_def head_def own_def)
qed

lemma merge_floating:
  assumes inv: "zone_inv z" and fl: "floating z p k" and "Suc k < MAX_ORDER" and hd: "head z (p XOR 2 ^ k) k"
    and z': "zone_inv z'" "same_pages z z'" "free_set z' = free_set z - blk (p XOR 2 ^ k) k"
  shows "floating z' (if bit p k then p - 2 ^ k else p) (Suc k)"
proof -
  let ?c = "if bit p k then p - 2 ^ k else p" and ?b = "p XOR 2 ^ k"
  have ok: "block_ok z p k" and okb: "block_ok z ?b k"
    using fl inv hd by (auto simp: floating_def zone_inv_def)
  then have al: "2 ^ k dvd p" by (simp add: block_ok_def)
  note m = merged_block [OF al]
  have "?c + 2 ^ Suc k \<le> 2 ^ 52"
    using ok okb bit_pow2_le [of p k] by (auto simp: block_ok_def xor_pow2)
  moreover have "\<forall>q \<in> blk ?c (Suc k). own z q \<and> pfn_valid_within z q"
    unfolding m(1) using ok okb by (auto simp: block_ok_def)
  ultimately have "block_ok z ?c (Suc k)" using assms(3) m(2) by (simp add: block_ok_def)
  moreover have "blk ?c (Suc k) \<inter> free_set z' = {}"
    unfolding m(1) z'(3) using fl by (auto simp: floating_def)
  ultimately show ?thesis using same_pages_block [OF z'(2)] by (simp add: floating_def)
qed

lemma take_buddy:
  assumes "zone_inv z" and "head z p k"
  defines "z' \<equiv> rmv_page_order p (nr_free_dec k (list_del p z))"
  shows "zone_inv z'" and "\<And>q j. head z' q j \<longleftrightarrow> head z q j \<and> q \<noteq> p"
    and "free_set z' = free_set z - blk p k" and "floating z' p k" and "same_pages z z'"
    and "nr_free_pages z' = nr_free_pages z"
proof -
  show sp: "same_pages z z'"
    by (simp add: z'_def same_pages_def rmv_page_order_def nr_free_dec_def list_del_def)
  note rb = remove_block [OF assms(1,2) sp]
  show "zone_inv z'" "\<And>q j. head z' q j \<longleftrightarrow> head z q j \<and> q \<noteq> p"
    "free_set z' = free_set z - blk p k" "floating z' p k"
    by (rule rb; simp add: z'_def rmv_page_order_def nr_free_dec_def list_del_def)+
  show "nr_free_pages z' = nr_free_pages z"
    by (simp add: z'_def rmv_page_order_def nr_free_dec_def list_del_def)
qed

text \<open>The merging loop carries a floating block upwards until its buddy is not free.\<close>

lemma free_merge_ok:
  assumes "zone_inv z" and "floating z p k" and "i = p mod 2 ^ MAX_ORDER" and "m \<le> MAX_ORDER"
    and "free_merge m p i k bi z = (p', i', k', bi', z')"
  shows "zone_inv z' \<and> floating z' p' k' \<and> same_pages z z' \<and> i' = p' mod 2 ^ MAX_ORDER \<and>
    free_set z' \<union> blk p' k' = free_set z \<union> blk p k \<and> nr_free_pages z' = nr_free_pages z \<and>
    (Suc k' < MAX_ORDER \<longrightarrow> \<not> head z' (p' XOR 2 ^ k') k')"
  using assms
proof (induction m p i k bi z rule: free_merge.induct)
  case (1 m p i k bi z)
  let ?b = "p XOR 2 ^ k" and ?c = "if bit p k then p - 2 ^ k else p"
  have k: "k < MAX_ORDER" using 1(4) by (simp add: floating_def block_ok_def)
  note b0 = buddy_pfn [OF k, of p, folded 1(5)]
  note bp = b0(1,3) b0(2) [unfolded b0(3)]
  have al: "2 ^ k dvd p" using 1(4) by (simp add: floating_def block_ok_def)
  consider (merge) "k < m - 1" "page_is_buddy z p ?b k" | (alone) "k < m - 1" "\<not> page_is_buddy z p ?b k"
    | (up) "\<not> k < m - 1" "m < MAX_ORDER" | (stop) "\<not> k < m - 1" "m = MAX_ORDER"
    using 1(6) by linarith
  then show ?case
  proof cases
    case merge
    have hd: "head z ?b k"
      using merge(2) 1(4) by (auto simp: page_is_buddy_def head_def own_def floating_def block_ok_def)
    let ?z = "rmv_page_order ?b (nr_free_dec k (list_del ?b z))"
    note tb = take_buddy [OF 1(3) hd]
    have fl: "floating ?z ?c (Suc k)"
      by (rule merge_floating [OF 1(3,4) _ hd tb(1,5,3)]) (use merge(1) 1(6) in linarith)
    have eq: "free_merge m p i k bi z = free_merge m ?c (?c mod 2 ^ MAX_ORDER) (Suc k) (find_buddy_index i k) ?z"
      using merge by (subst free_merge.simps) (simp only: bp if_True not_not if_False simp_thms)
    have "free_set ?z \<union> blk ?c (Suc k) = free_set z \<union> blk p k"
      using hd unfolding merged_block(1) [OF al] tb(3) by (auto simp: free_set_def)
    then show ?thesis
      using 1(1) [unfolded bp, OF merge(1) _ tb(1) fl refl 1(6)] merge(2) 1(7) eq tb(5,6)
      by (auto intro: same_pages_trans)
  next
    case alone
    then have "free_merge m p i k bi z = (p, i, k, find_buddy_index i k, z)"
      by (subst free_merge.simps) (simp add: bp)
    with not_buddy [OF 1(3) _ alone(2)] 1(3-5,7) show ?thesis by (simp add: floating_def)
  next
    case up
    then have "free_merge m p i k bi z = free_merge (Suc m) p i k bi z"
      by (subst free_merge.simps) simp
    with 1(2) [OF up 1(3-5)] up 1(7) show ?thesis by simp
  next
    case stop
    then have "free_merge m p i k bi z = (p, i, k, bi, z)"
      by (subst free_merge.simps) simp
    with 1(3-5,7) stop show ?thesis by (simp add: less_diff_conv)
  qed
qed


lemma and_max_order: "(p :: nat) AND (2 ^ MAX_ORDER - 1) = p mod 2 ^ MAX_ORDER"
  by (simp only: mask_eq_exp_minus_1 [symmetric] take_bit_eq_mask [symmetric] take_bit_eq_mod)

lemma same_pages_simps [simp]:
  "same_pages z (list_add p k mt z)" "same_pages z (list_add_tail p k mt z)"
  "same_pages z (list_del p z)" "same_pages z (set_page_order p k z)" "same_pages z (rmv_page_order p z)"
  "same_pages z (nr_free_inc k z)" "same_pages z (nr_free_dec k z)"
  "same_pages z (mod_zone_freepage_state d z)" "same_pages z (set_freepage_migratetype p mt z)"
  "same_pages z (set_pageblock_migratetype p mt z)" "same_pages z (clear_scanned z)"
  by (simp_all add: same_pages_def list_add_def list_add_tail_def list_del_def set_page_order_def
      rmv_page_order_def nr_free_inc_def nr_free_dec_def mod_zone_freepage_state_def
      set_freepage_migratetype_def set_pageblock_migratetype_def clear_scanned_def Let_def)

text \<open>Updates of fields that neither the invariant nor the abstraction looks at.\<close>

definition same_lists :: "zone \<Rightarrow> zone \<Rightarrow> bool" where
  "same_lists z z' \<longleftrightarrow> free_list z' = free_list z \<and> page_buddy z' = page_buddy z \<and> nr_free z' = nr_free z \<and>
     zone_id z' = zone_id z \<and> page_zone_id z' = page_zone_id z \<and> pfn_valid_within z' = pfn_valid_within z"

lemma same_listsD:
  assumes "same_lists z z'"
  shows "zone_inv z' = zone_inv z" and "free_set z' = free_set z" and "floating z' p k = floating z p k"
    and "head z' p k = head z p k"
proof -
  have o: "own z' p = own z p" and h: "head z' p k = head z p k" and b: "block_ok z' p k = block_ok z p k" for p k
    using assms by (simp_all add: same_lists_def own_def head_def block_ok_def)
  show "head z' p k = head z p k" by (rule h)
  show fs: "free_set z' = free_set z" by (simp add: free_set_def h)
  show "floating z' p k = floating z p k" by (simp add: floating_def b fs)
  have "list_total z' k = list_total z k" for k using assms by (simp add: same_lists_def list_total_def)
  then show "zone_inv z' = zone_inv z"
    using assms by (simp add: zone_inv_def lists_ok_def disjoint_blocks_def coalesced_def h b same_lists_def)
qed

lemma same_lists_simps [simp]:
  "same_lists z (mod_zone_freepage_state d z)" "same_lists z (set_freepage_migratetype p mt z)"
  "same_lists z (set_pageblock_migratetype p mt z)" "same_lists z (clear_scanned z)"
  "same_lists z (set_pcp_list mt ps z)" "same_lists z (add_pcp_count d z)" "same_lists z (alloc_statistics k z)"
  by (simp_all add: same_lists_def mod_zone_freepage_state_def alloc_statistics_def set_pcp_list_def
      add_pcp_count_def set_freepage_migratetype_def set_pageblock_migratetype_def clear_scanned_def Let_def)

text \<open>\<^verbatim>\<open>__free_one_page\<close> adds exactly the pages of the block to the free set.\<close>

lemma free_one_page_locked_ok:
  assumes inv: "zone_inv z" and fl: "floating z p k" and good: "\<not> compound_bad chk p k"
    and z'_def: "z' = free_one_page_locked chk p k mt z"
  shows "zone_inv z' \<and> free_set z' = free_set z \<union> blk p k \<and> same_pages z z' \<and>
    nr_free_pages z' = nr_free_pages z + 2 ^ k"
proof -
  let ?z = "mod_zone_freepage_state (2 ^ k) z" and ?i = "p mod 2 ^ MAX_ORDER"
  obtain p1 i1 k1 b1 z1 where m: "free_merge (min MAX_ORDER (Suc (pageblock_order z))) p ?i k 0 ?z = (p1, i1, k1, b1, z1)"
    by (metis prod_cases5)
  have iz: "zone_inv ?z" "floating ?z p k" using inv fl by (simp_all add: same_listsD [OF same_lists_simps(1)])
  note fm = free_merge_ok [OF iz refl _ m, simplified]
  obtain l where l: "l = p1 # free_list z1 k1 mt \<or> l = free_list z1 k1 mt @ [p1]"
    and z': "z' = nr_free_inc k1 ((set_page_order p1 k1 z1)\<lparr>free_list := (free_list z1)(k1 := (free_list z1 k1)(mt := l))\<rparr>)"
  proof -
    let ?z = "set_page_order p1 k1 z1"
    obtain c where "z' = nr_free_inc k1 (if c then list_add_tail p1 k1 mt ?z else list_add p1 k1 mt ?z)"
      using good m unfolding z'_def free_one_page_locked_def and_max_order by (auto simp: Let_def)
    then show thesis
      using that by (cases c) (auto simp: list_add_def list_add_tail_def set_page_order_def)
  qed
  have sp: "same_pages z1 z'"
    by (simp add: z' same_pages_def nr_free_inc_def set_page_order_def)
  have "zone_inv z'" "free_set z' = free_set z1 \<union> blk p1 k1"
    by (rule put_block [OF _ _ sp _ _ l]; use fm in \<open>simp add: z' nr_free_inc_def set_page_order_def\<close>)+
  moreover have "same_pages z z'"
    using same_pages_trans [OF same_pages_trans [OF same_pages_simps(8)] sp] fm by blast
  moreover have "nr_free_pages z' = nr_free_pages z + 2 ^ k"
    using fm by (simp add: z' nr_free_inc_def set_page_order_def mod_zone_freepage_state_def)
  moreover have "free_set ?z = free_set z" by (simp add: same_listsD [OF same_lists_simps(1)])
  ultimately show ?thesis using fm by simp
qed

subsection \<open>Splitting\<close>

lemma split_floating:
  assumes inv: "zone_inv z" and fl: "floating z p (Suc h)"
    and z'_def: "z' = set_page_order (p + 2 ^ h) h (nr_free_inc h (list_add (p + 2 ^ h) h mt z))"
  shows "zone_inv z' \<and> floating z' p h \<and> free_set z' = free_set z \<union> blk (p + 2 ^ h) h \<and>
    same_pages z z' \<and> nr_free_pages z' = nr_free_pages z"
proof -
  have ok: "block_ok z p (Suc h)" using fl by (simp add: floating_def)
  have al: "2 ^ Suc h dvd p" using ok by (simp add: block_ok_def)
  then have al2: "2 ^ h dvd p" "2 ^ h dvd p + 2 ^ h" by (auto elim: dvd_trans [rotated])
  have "\<not> bit p h" using al by (auto simp: bit_iff_odd elim!: dvdE)
  then have x: "(p + 2 ^ h) XOR 2 ^ h = p" using xor_twice [of p "2 ^ h"] by (simp add: xor_pow2)
  have okh: "block_ok z p h" "block_ok z (p + 2 ^ h) h"
    using ok al2 by (auto simp: block_ok_def blk_Suc)
  have up: "floating z (p + 2 ^ h) h" using fl okh by (auto simp: floating_def blk_Suc)
  have sp: "same_pages z z'"
    by (simp add: z'_def same_pages_def set_page_order_def nr_free_inc_def list_add_def)
  have "\<not> head z p h" by (rule floating_not_head [OF fl]) (simp add: blk_def)
  then have alone: "\<not> head z ((p + 2 ^ h) XOR 2 ^ h) h" by (simp only: x not_False_eq_True)
  have pb: "zone_inv z'" "free_set z' = free_set z \<union> blk (p + 2 ^ h) h"
    by (rule put_block [OF inv up sp, where mt = mt and l = "(p + 2 ^ h) # free_list z h mt"];
        use alone in \<open>simp add: z'_def set_page_order_def nr_free_inc_def list_add_def\<close>)+
  moreover have "floating z' p h"
    using fl okh(1) same_pages_block [OF sp] unfolding floating_def pb(2) by (auto simp: blk_Suc) (auto simp: blk_def)
  ultimately show ?thesis
    using sp by (simp add: z'_def set_page_order_def nr_free_inc_def list_add_def)
qed

lemma expand_stop: "\<not> low < high \<Longrightarrow> expand p low high mt z = z"
  by (subst expand.simps) simp

lemma expand_ok:
  assumes "zone_inv z" and "floating z p high" and "low \<le> high"
  shows "zone_inv (expand p low high mt z) \<and> floating (expand p low high mt z) p low \<and>
    free_set (expand p low high mt z) = free_set z \<union> (blk p high - blk p low) \<and>
    same_pages z (expand p low high mt z) \<and> nr_free_pages (expand p low high mt z) = nr_free_pages z"
  using assms
proof (induction high arbitrary: z)
  case 0
  then show ?case by (simp add: expand_stop)
next
  case (Suc h)
  show ?case
  proof (cases "low = Suc h")
    case True
    with Suc.prems show ?thesis by (simp add: expand_stop)
  next
    case False
    let ?z = "set_page_order (p + 2 ^ h) h (nr_free_inc h (list_add (p + 2 ^ h) h mt z))"
    have eq: "expand p low (Suc h) mt z = expand p low h mt ?z"
      using False Suc.prems(3) by (subst expand.simps) simp
    note sf = split_floating [OF Suc.prems(1,2) refl, of mt]
    have "blk p low \<subseteq> blk p h"
      using False Suc.prems(3) power_increasing [of low h "2 :: nat"] by (auto simp: blk_def)
    moreover have "blk (p + 2 ^ h) h \<inter> blk p h = {}" by (auto simp: blk_def)
    ultimately have "blk p (Suc h) - blk p low = blk (p + 2 ^ h) h \<union> (blk p h - blk p low)"
      by (auto simp: blk_Suc)
    with Suc.IH [of ?z] sf False Suc.prems(3) show ?thesis
      unfolding eq by (auto intro: same_pages_trans)
  qed
qed

end
