(* ===== verification/Buddy_Alloc.thy ===== *)
theory Buddy_Alloc
  imports Buddy_Inv
begin

text \<open>
  Allocation from the buddy lists: the smallest fitting block of a migrate type, the fallback to other
  types with the stealing of page blocks, and the reserve. An allocation removes exactly the block it
  returns from the set of free pages, and it fails only when no free block is large enough. The count
  of free pages is the size of that set, which links the watermark test to the success of allocations.
\<close>

subsection \<open>Smallest fit\<close>

definition taken :: "zone \<Rightarrow> nat \<Rightarrow> nat \<Rightarrow> zone \<Rightarrow> bool" where
  "taken z order p z' \<longleftrightarrow> zone_inv z' \<and> floating z' p order \<and> blk p order \<subseteq> free_set z \<and>
     free_set z' = free_set z - blk p order \<and> same_pages z z' \<and> nr_free_pages z' = nr_free_pages z"

lemma expand_taken:
  assumes inv: "zone_inv z" and hd: "head z p k" and "order \<le> k"
    and z1: "zone_inv z1" "floating z1 p k" "free_set z1 = free_set z - blk p k" "same_pages z z1"
      "nr_free_pages z1 = nr_free_pages z"
  shows "taken z order p (set_freepage_migratetype p mt (expand p order k mt' z1))"
proof -
  note ex = expand_ok [OF z1(1,2) assms(3), of mt']
  let ?z = "expand p order k mt' z1"
  have sl: "same_lists ?z (set_freepage_migratetype p mt ?z)" by simp
  have "blk p order \<subseteq> blk p k"
    using assms(3) power_increasing [of order k "2 :: nat"] by (auto simp: blk_def)
  moreover have "blk p k \<subseteq> free_set z" using hd by (auto simp: free_set_def)
  ultimately have "free_set ?z = free_set z - blk p order" "blk p order \<subseteq> free_set z"
    using ex z1(3) by auto
  moreover have "nr_free_pages (set_freepage_migratetype p mt ?z) = nr_free_pages z"
    using ex z1(5) by (simp add: set_freepage_migratetype_def)
  moreover have "same_pages z (set_freepage_migratetype p mt ?z)"
    using same_pages_trans [OF z1(4) same_pages_trans [OF _ same_pages_simps(9)]] ex by blast
  ultimately show ?thesis using ex by (simp add: taken_def same_listsD [OF sl])
qed

lemma rmqueue_smallest_ok:
  assumes "zone_inv z" and "order \<le> c"
  shows "case rmqueue_smallest c order mt z of
      (None, z') \<Rightarrow> z' = z \<and> (\<forall>k. c \<le> k \<and> k < MAX_ORDER \<longrightarrow> free_list z k mt = [])
    | (Some p, z') \<Rightarrow> taken z order p z'"
  using assms
proof (induction c order mt z rule: rmqueue_smallest.induct)
  case (1 c order mt z)
  show ?case
  proof (cases "c < MAX_ORDER")
    case False
    then show ?thesis by (subst rmqueue_smallest.simps) auto
  next
    case True
    show ?thesis
    proof (cases "free_list z c mt")
      case Nil
      have "rmqueue_smallest c order mt z = rmqueue_smallest (Suc c) order mt z"
        using True Nil by (subst rmqueue_smallest.simps) simp
      moreover have "free_list z k mt = []" if "c \<le> k" "k < MAX_ORDER" "\<forall>k. Suc c \<le> k \<and> k < MAX_ORDER \<longrightarrow> free_list z k mt = []" for k
        using that Nil by (cases "k = c") auto
      ultimately show ?thesis
        using 1(1) [OF True Nil 1(2)] 1(3) by (auto split: prod.splits option.splits)
    next
      case (Cons p ps)
      have hd: "head z p c" using zone_inv_list [OF 1(2), of p c mt] Cons by simp
      let ?z = "nr_free_dec c (rmv_page_order p (list_del p z))"
      have eq: "rmqueue_smallest c order mt z = (Some p, set_freepage_migratetype p mt (expand p order c mt ?z))"
        using True Cons by (subst rmqueue_smallest.simps) simp
      have sp: "same_pages z ?z"
        by (simp add: same_pages_def nr_free_dec_def rmv_page_order_def list_del_def)
      have rb: "zone_inv ?z" "free_set ?z = free_set z - blk p c" "floating ?z p c"
        by (rule remove_block [OF 1(2) hd sp]; simp add: nr_free_dec_def rmv_page_order_def list_del_def)+
      have "taken z order p (set_freepage_migratetype p mt (expand p order c mt ?z))"
        by (rule expand_taken [OF 1(2) hd 1(3) rb(1,3,2) sp])
          (simp add: nr_free_dec_def rmv_page_order_def list_del_def)
      then show ?thesis unfolding eq by simp
    qed
  qed
qed

subsection \<open>Moving free blocks between lists\<close>

lemma move_block:
  assumes inv: "zone_inv z" and hd: "head z p k"
    and z'_def: "z' = list_add p k mt (list_del p z)"
  shows "zone_inv z'" and "head z' q j = head z q j"
proof -
  have lo: "lists_ok z" using inv by (simp add: zone_inv_def)
  have f: "free_list z' = (\<lambda>j mt'. if j = k \<and> mt' = mt then p # remove1 p (free_list z j mt')
      else remove1 p (free_list z j mt'))"
    by (auto simp: z'_def list_add_def list_del_def fun_eq_iff)
  have h: "head z' q j = head z q j" for q j
    by (simp add: z'_def head_def own_def list_add_def list_del_def)
  then show "head z' q j = head z q j" .
  have set': "set (free_list z' j mt') = (if j = k \<and> mt' = mt then insert p (set (free_list z j mt') - {p})
      else set (free_list z j mt') - {p})" for j mt'
    by (simp add: f set_remove1_eq lists_okD(1) [OF lo])
  have pk: "j = k" if "head z p j" for j using that hd by (simp add: head_def)
  have "lists_ok z'"
  proof (rule lists_okI)
    show "distinct (free_list z' j mt')" for j mt'
      using lists_okD(1) [OF lo] by (auto simp: f distinct_remove1 set_remove1_eq)
    show "head z' q j" if "q \<in> set (free_list z' j mt')" for q j mt'
      using that lists_okD(2) [OF lo] hd by (auto simp: set' h split: if_splits)
    show "\<exists>mt'. q \<in> set (free_list z' j mt')" if "head z' q j" for q j
    proof (cases "q = p")
      case True
      then show ?thesis using that pk by (auto simp: set' h intro: exI [of _ mt])
    next
      case False
      then show ?thesis using lists_okD(3) [OF lo, of q j] that by (auto simp: set' h)
    qed
    show "mt1 = mt2" if "q \<in> set (free_list z' j mt1)" "q \<in> set (free_list z' j mt2)" for q j mt1 mt2
      using that lists_okD(4) [OF lo, of q j mt1 mt2] by (auto simp: set' split: if_splits)
  qed
  moreover have "list_total z' j = list_total z j" for j
  proof -
    let ?z = "z\<lparr>free_list := (\<lambda>k mt. remove1 p (free_list z k mt))\<rparr>"
    have "list_total z j = list_total ?z j + (if j = k then 1 else 0)"
      by (rule list_total_remove [OF inv hd]) simp
    moreover have "list_total z' j = list_total ?z j + (if j = k then 1 else 0)"
      by (cases mt) (simp_all add: list_total_def f)
    ultimately show ?thesis by simp
  qed
  ultimately show "zone_inv z'"
    using inv h by (simp add: zone_inv_def disjoint_blocks_def coalesced_def block_ok_def own_def)
      (simp add: z'_def list_add_def list_del_def)
qed


definition rearranged :: "zone \<Rightarrow> zone \<Rightarrow> bool" where
  "rearranged z z' \<longleftrightarrow> zone_inv z' \<and> (\<forall>p k. head z' p k = head z p k) \<and> same_pages z z' \<and>
     nr_free_pages z' = nr_free_pages z"

lemma rearranged_refl: "zone_inv z \<Longrightarrow> rearranged z z"
  by (simp add: rearranged_def)

lemma rearranged_trans: "rearranged z z' \<Longrightarrow> rearranged z' z'' \<Longrightarrow> rearranged z z''"
  by (auto simp: rearranged_def intro: same_pages_trans)

lemma rearranged_free_set: "rearranged z z' \<Longrightarrow> free_set z' = free_set z"
  by (simp add: rearranged_def free_set_def)

lemma rearranged_lists:
  "zone_inv z \<Longrightarrow> same_lists z z' \<Longrightarrow> same_pages z z' \<Longrightarrow> nr_free_pages z' = nr_free_pages z \<Longrightarrow> rearranged z z'"
  by (simp add: rearranged_def same_listsD)

text \<open>The zone owns exactly the pages of its span.\<close>

definition layout :: "zone \<Rightarrow> bool" where
  "layout z \<longleftrightarrow> (\<forall>q. own z q \<longleftrightarrow> zone_spans_pfn z q)"

lemma layout_same: "same_pages z z' \<Longrightarrow> layout z' = layout z"
  by (simp add: layout_def own_def zone_spans_pfn_def same_pages_def)

lemma move_freepages_ok:
  assumes "zone_inv z" and "\<And>q. p \<le> q \<Longrightarrow> q \<le> e \<Longrightarrow> own z q"
  shows "rearranged z (snd (move_freepages p e mt n z))"
  using assms
proof (induction p e mt n z rule: move_freepages.induct)
  case (1 p e mt n z)
  show ?case
  proof (cases "p \<le> e")
    case False
    then show ?thesis using 1(3) by (subst move_freepages.simps) (simp add: rearranged_refl)
  next
    case le: True
    show ?thesis
    proof (cases "\<not> pfn_valid_within z p \<or> page_buddy z p = None")
      case True
      then have "move_freepages p e mt n z = move_freepages (Suc p) e mt n z"
        using le by (subst move_freepages.simps) simp
      with 1(1) [OF le True 1(3)] 1(4) show ?thesis by simp
    next
      case False
      let ?k = "page_order p z"
      let ?z1 = "list_add p ?k mt (list_del p z)"
      let ?z = "set_freepage_migratetype p mt ?z1"
      have hd: "head z p ?k" using False le 1(4) [of p] by (auto simp: head_def page_order_def)
      have sl: "same_lists ?z1 ?z" by simp
      have sp: "same_pages z ?z"
        by (simp add: same_pages_def set_freepage_migratetype_def list_add_def list_del_def)
      have r: "rearranged z ?z"
        using move_block [OF 1(3) hd refl] sp
        by (simp add: rearranged_def same_listsD [OF sl])
          (simp add: set_freepage_migratetype_def list_add_def list_del_def)
      have eq: "move_freepages p e mt n z = move_freepages (p + 2 ^ ?k) e mt (n + 2 ^ ?k) ?z"
        using le False by (subst move_freepages.simps) auto
      have "rearranged ?z (snd (move_freepages (p + 2 ^ ?k) e mt (n + 2 ^ ?k) ?z))"
        using 1(2) [OF le False] r 1(4) by (simp add: rearranged_def same_pages_own [OF sp])
      with r show ?thesis unfolding eq by (rule rearranged_trans)
    qed
  qed
qed

lemma move_freepages_block_ok:
  assumes "zone_inv z" and "layout z" and "own z p"
  shows "rearranged z (snd (move_freepages_block p mt z))"
proof -
  have sp: "zone_spans_pfn z p" using assms by (simp add: layout_def)
  let ?s = "p - p mod 2 ^ pageblock_order z"
  have r: "own z q" if "zone_spans_pfn z a" "zone_spans_pfn z b" "a \<le> q" "q \<le> b" for a b q
    using assms(2) that by (auto simp: layout_def zone_spans_pfn_def)
  show ?thesis
    unfolding move_freepages_block_def Let_def
    using assms(1) sp r by (auto intro!: rearranged_refl move_freepages_ok)
qed

lemma change_pageblock_range_same:
  "same_lists z (change_pageblock_range n p mt z) \<and> same_pages z (change_pageblock_range n p mt z) \<and>
    nr_free_pages (change_pageblock_range n p mt z) = nr_free_pages z"
proof (induction n arbitrary: p z)
  case (Suc n)
  let ?z = "set_pageblock_migratetype p mt z"
  let ?z' = "change_pageblock_range n (p + 2 ^ pageblock_order z) mt ?z"
  have "same_lists z ?z" "same_pages z ?z" "nr_free_pages ?z = nr_free_pages z"
    by (simp_all, simp add: set_pageblock_migratetype_def Let_def)
  moreover have "same_lists ?z ?z'" "same_pages ?z ?z'" "nr_free_pages ?z' = nr_free_pages ?z"
    using Suc by auto
  ultimately have "same_lists z ?z'" "same_pages z ?z'" "nr_free_pages ?z' = nr_free_pages z"
    by (simp add: same_lists_def, metis same_pages_trans, simp)
  then show ?case by simp
qed (simp add: same_lists_def)

lemma try_to_steal_ok:
  assumes inv: "zone_inv z" and "layout z" and "own z p"
  shows "rearranged z (try_to_steal_freepages p mt z)"
proof -
  have sb: "rearranged z' (set_pageblock_migratetype p mt z')" if "zone_inv z'" for z'
    by (rule rearranged_lists [OF that]) (simp_all, simp add: set_pageblock_migratetype_def Let_def)
  have mv: "rearranged z (snd (move_freepages_block p mt z))" by (rule move_freepages_block_ok [OF assms])
  then have "rearranged z (set_pageblock_migratetype p mt (snd (move_freepages_block p mt z)))"
    using sb by (auto simp: rearranged_def intro: same_pages_trans)
  with mv show ?thesis
    unfolding try_to_steal_freepages_def Let_def
    using change_pageblock_range_same [of z] rearranged_lists [OF inv] rearranged_refl [OF inv]
    by (auto split: prod.splits)
qed

text \<open>Stealing does not look at the block counters, so it commutes with an early decrement.\<close>

lemma nr_free_dec_frame [simp]:
  "pfn_valid_within (nr_free_dec k z) = pfn_valid_within z" "page_buddy (nr_free_dec k z) = page_buddy z"
  "page_order p (nr_free_dec k z) = page_order p z" "pageblock_order (nr_free_dec k z) = pageblock_order z"
  "zone_spans_pfn (nr_free_dec k z) q = zone_spans_pfn z q"
  "page_group_by_mobility_disabled (nr_free_dec k z) = page_group_by_mobility_disabled z"
  "set_pageblock_migratetype p mt (nr_free_dec k z) = nr_free_dec k (set_pageblock_migratetype p mt z)"
  "set_freepage_migratetype p mt (nr_free_dec k z) = nr_free_dec k (set_freepage_migratetype p mt z)"
  "list_del p (nr_free_dec k z) = nr_free_dec k (list_del p z)"
  "list_add p j mt (nr_free_dec k z) = nr_free_dec k (list_add p j mt z)"
  by (simp_all add: nr_free_dec_def page_order_def zone_spans_pfn_def set_pageblock_migratetype_def
      set_freepage_migratetype_def list_del_def list_add_def Let_def)

lemma move_freepages_dec:
  "move_freepages p e mt n (nr_free_dec k z) = map_prod id (nr_free_dec k) (move_freepages p e mt n z)"
proof (induction p e mt n z rule: move_freepages.induct)
  case (1 p e mt n z)
  show ?case
  proof (cases "p \<le> e")
    case le: True
    show ?thesis
    proof (cases "\<not> pfn_valid_within z p \<or> page_buddy z p = None")
      case True
      then show ?thesis
        using 1(1) [OF le True] le by (simp add: move_freepages.simps [of p])
    next
      case False
      then show ?thesis
        using 1(2) [OF le False] le by (auto simp: move_freepages.simps [of p])
    qed
  qed (simp add: move_freepages.simps [of p])
qed

lemma change_range_dec:
  "change_pageblock_range n p mt (nr_free_dec k z) = nr_free_dec k (change_pageblock_range n p mt z)"
  by (induction n arbitrary: p z) simp_all

lemma move_block_dec:
  "move_freepages_block p mt (nr_free_dec k z) = map_prod id (nr_free_dec k) (move_freepages_block p mt z)"
  unfolding move_freepages_block_def Let_def move_freepages_dec nr_free_dec_frame by simp

lemma try_to_steal_dec:
  "try_to_steal_freepages p mt (nr_free_dec k z) = nr_free_dec k (try_to_steal_freepages p mt z)"
  unfolding try_to_steal_freepages_def Let_def move_block_dec change_range_dec nr_free_dec_frame
  by (cases "move_freepages_block p mt z") simp

subsection \<open>Falling back\<close>

lemma fallback_pick_cases:
  "case fallback_pick k mts z of
     None \<Rightarrow> \<forall>mt \<in> set mts. free_list z k mt = []
   | Some p \<Rightarrow> \<exists>mt \<in> set mts. p \<in> set (free_list z k mt)"
  by (induction mts) (auto split: list.splits option.splits)

lemma fallback_taken:
  assumes inv: "zone_inv z" and lay: "layout z" and hd: "head z p k" and "order \<le> k"
  shows "taken z order p (set_freepage_migratetype p mt (expand p order k mt
    (rmv_page_order p (list_del p (try_to_steal_freepages p mt (nr_free_dec k z))))))"
proof -
  let ?z = "try_to_steal_freepages p mt z"
  let ?z1 = "rmv_page_order p (list_del p (nr_free_dec k ?z))"
  have own: "own z p" using hd by (simp add: head_def)
  note r = try_to_steal_ok [OF inv lay own, of mt]
  have hd': "head ?z p k" and inv': "zone_inv ?z" using r hd by (simp_all add: rearranged_def)
  have sp: "same_pages ?z ?z1"
    by (simp add: same_pages_def nr_free_dec_def rmv_page_order_def list_del_def)
  have rb: "zone_inv ?z1" "free_set ?z1 = free_set ?z - blk p k" "floating ?z1 p k"
    by (rule remove_block [OF inv' hd' sp]; simp add: nr_free_dec_def rmv_page_order_def list_del_def)+
  have "taken z order p (set_freepage_migratetype p mt (expand p order k mt ?z1))"
  proof (rule expand_taken [OF inv hd assms(4) rb(1,3)])
    show "free_set ?z1 = free_set z - blk p k" using rb(2) rearranged_free_set [OF r] by simp
    show "same_pages z ?z1" using r sp by (auto simp: rearranged_def intro: same_pages_trans)
    show "nr_free_pages ?z1 = nr_free_pages z"
      using r by (simp add: rearranged_def nr_free_dec_def rmv_page_order_def list_del_def)
  qed
  then show ?thesis by (simp add: try_to_steal_dec)
qed

lemma rmqueue_fallback_ok:
  assumes "zone_inv z" and "layout z"
  shows "case rmqueue_fallback n order mt z of
      (None, z') \<Rightarrow> z' = z \<and> (\<forall>k. order \<le> k \<and> k < n \<longrightarrow> (\<forall>mt' \<in> set (fallbacks mt). free_list z k mt' = []))
    | (Some p, z') \<Rightarrow> taken z order p z'"
proof (induction n)
  case (Suc n)
  show ?case
  proof (cases "order \<le> n")
    case True
    show ?thesis
    proof (cases "fallback_pick n (fallbacks mt) z")
      case None
      then have "\<forall>mt' \<in> set (fallbacks mt). free_list z n mt' = []"
        using fallback_pick_cases [where k = n and mts = "fallbacks mt" and z = z] by simp
      with Suc True None show ?thesis
        by (auto simp: less_Suc_eq split: prod.splits option.splits)
    next
      case (Some p)
      then have "head z p n"
        using fallback_pick_cases [where k = n and mts = "fallbacks mt" and z = z] zone_inv_list [OF assms(1)] by auto
      from fallback_taken [OF assms this True] True Some show ?thesis by simp
    qed
  qed auto
qed simp

text \<open>
  \<^verbatim>\<open>__rmqueue\<close> for the ordinary types: it takes a block of the order asked for out of the free set, and it
  fails only when there is no free block of at least this order, of any type.
\<close>

lemma rmqueue_ok:
  assumes inv: "zone_inv z" and lay: "layout z" and "mt \<noteq> MIGRATE_RESERVE"
  shows "case rmqueue order mt z of
      (None, z') \<Rightarrow> z' = z \<and> (\<forall>p k. head z p k \<longrightarrow> k < order)
    | (Some p, z') \<Rightarrow> taken z order p z'"
proof -
  obtain r1 z1 where s1: "rmqueue_smallest order order mt z = (r1, z1)" by fastforce
  note ok1 = rmqueue_smallest_ok [OF inv order_refl, of order mt, unfolded s1 prod.case]
  show ?thesis
  proof (cases r1)
    case (Some p)
    then show ?thesis using s1 ok1 by (simp add: rmqueue_def)
  next
    case None
    then have z1: "z1 = z" and e1: "\<And>k. order \<le> k \<Longrightarrow> k < MAX_ORDER \<Longrightarrow> free_list z k mt = []"
      using ok1 by auto
    obtain r2 z2 where s2: "rmqueue_fallback MAX_ORDER order mt z = (r2, z2)" by fastforce
    note ok2 = rmqueue_fallback_ok [OF inv lay, where n = MAX_ORDER and order = order and mt = mt, unfolded s2 prod.case]
    show ?thesis
    proof (cases r2)
      case (Some p)
      then show ?thesis using s1 s2 ok2 None z1 assms(3) by (simp add: rmqueue_def)
    next
      case r2: None
      then have z2: "z2 = z" and e2: "\<And>k mt'. order \<le> k \<Longrightarrow> k < MAX_ORDER \<Longrightarrow> mt' \<in> set (fallbacks mt) \<Longrightarrow> free_list z k mt' = []"
        using ok2 by auto
      obtain r3 z3 where s3: "rmqueue_smallest order order MIGRATE_RESERVE z = (r3, z3)" by fastforce
      note ok3 = rmqueue_smallest_ok [OF inv order_refl, of order MIGRATE_RESERVE, unfolded s3 prod.case]
      have run: "rmqueue order mt z = (r3, z3)"
        using s1 s2 s3 None r2 z1 z2 assms(3) by (simp add: rmqueue_def)
      show ?thesis
      proof (cases r3)
        case (Some p)
        then show ?thesis using run ok3 by simp
      next
        case r3: None
        have "k < order" if hd: "head z p k" for p k
        proof (rule ccontr)
          assume "\<not> k < order"
          moreover have "k < MAX_ORDER" using inv hd by (auto simp: zone_inv_def block_ok_def)
          moreover obtain mt' where "p \<in> set (free_list z k mt')"
            using lists_okD(3) [OF _ hd] inv by (auto simp: zone_inv_def)
          moreover have "mt' = mt \<or> mt' \<in> set (fallbacks mt) \<or> mt' = MIGRATE_RESERVE"
            using assms(3) by (cases mt; cases mt') auto
          ultimately show False using e1 [of k] e2 [of k mt'] ok3 r3 by auto
        qed
        with run r3 ok3 show ?thesis by simp
      qed
    qed
  qed
qed


subsection \<open>Counting free pages\<close>

definition heads :: "zone \<Rightarrow> nat \<Rightarrow> nat set" where "heads z k = {p. head z p k}"

lemma heads_lists:
  assumes "zone_inv z"
  shows "heads z k = (\<Union>mt. set (free_list z k mt))" and "finite (heads z k)" and "card (heads z k) = list_total z k"
proof -
  have lo: "lists_ok z" using assms by (simp add: zone_inv_def)
  show eq: "heads z k = (\<Union>mt. set (free_list z k mt))"
    using lists_okD(2,3) [OF lo] by (auto simp: heads_def)
  have u: "(UNIV :: migratetype set) = {MIGRATE_UNMOVABLE, MIGRATE_RECLAIMABLE, MIGRATE_MOVABLE, MIGRATE_RESERVE}"
    by (auto intro: migratetype.exhaust)
  show "finite (heads z k)" unfolding eq u by simp
  have "card (\<Union>mt. set (free_list z k mt)) = (\<Sum>mt \<in> UNIV. card (set (free_list z k mt)))"
    by (rule card_UN_disjoint) (use lists_okD(4) [OF lo] in \<open>auto simp: u\<close>)
  also have "\<dots> = (\<Sum>mt \<in> UNIV. length (free_list z k mt))"
    by (rule sum.cong) (simp_all add: distinct_card lists_okD(1) [OF lo])
  finally show "card (heads z k) = list_total z k"
    unfolding eq by (simp add: u list_total_def)
qed

lemma card_free_set:
  assumes inv: "zone_inv z"
  shows "finite (free_set z)" and "card (free_set z) = (\<Sum>k < MAX_ORDER. 2 ^ k * nr_free z k)"
proof -
  let ?H = "SIGMA k : {..<MAX_ORDER}. heads z k"
  have lt: "k < MAX_ORDER" if "head z p k" for p k
    using inv that by (auto simp: zone_inv_def block_ok_def)
  have fs: "free_set z = (\<Union>(k, p) \<in> ?H. blk p k)"
    using lt by (fastforce simp: free_set_def heads_def)
  have fin: "finite ?H" using heads_lists(2) [OF inv] by simp
  then show "finite (free_set z)" unfolding fs by (auto simp: blk_def)
  have dis: "blk p k \<inter> blk q j = {}" if "head z p k" "head z q j" "(k, p) \<noteq> (j, q)" for p k q j
    using inv that by (cases "p = q") (auto simp: zone_inv_def disjoint_blocks_def head_def)
  have "card (free_set z) = (\<Sum>(k, p) \<in> ?H. card (blk p k))"
    unfolding fs
  proof (subst card_UN_disjoint [OF fin])
    show "\<forall>x \<in> ?H. finite (case x of (k, p) \<Rightarrow> blk p k)" by (auto simp: blk_def)
    show "\<forall>x \<in> ?H. \<forall>y \<in> ?H. x \<noteq> y \<longrightarrow> (case x of (k, p) \<Rightarrow> blk p k) \<inter> (case y of (k, p) \<Rightarrow> blk p k) = {}"
      using dis by (auto simp: heads_def)
    show "(\<Sum>x \<in> ?H. card (case x of (k, p) \<Rightarrow> blk p k)) = (\<Sum>(k, p) \<in> ?H. card (blk p k))"
      by (rule sum.cong) auto
  qed
  also have "\<dots> = (\<Sum>k < MAX_ORDER. \<Sum>p \<in> heads z k. 2 ^ k)"
    by (subst sum.Sigma) (use heads_lists(2) [OF inv] in \<open>auto simp: blk_def\<close>)
  also have "\<dots> = (\<Sum>k < MAX_ORDER. 2 ^ k * nr_free z k)"
    using heads_lists(3) [OF inv] inv by (simp add: zone_inv_def mult.commute)
  finally show "card (free_set z) = (\<Sum>k < MAX_ORDER. 2 ^ k * nr_free z k)" .
qed

text \<open>The zone's counter of free pages is exact.\<close>

definition counted :: "zone \<Rightarrow> bool" where
  "counted z \<longleftrightarrow> nr_free_pages z = int (card (free_set z))"

lemma watermark_orders_pos:
  assumes "watermark_orders shift k order f m z" and "k \<le> order" and "m < f" and "0 \<le> m"
  shows "(\<Sum>j = k..<order. int (2 ^ j * nr_free z j)) < f"
  using assms
proof (induction shift k order f m z rule: watermark_orders.induct)
  case (1 shift k order f m z)
  show ?case
  proof (cases "k < order")
    case True
    let ?f = "f - int (nr_free z k * 2 ^ k)" and ?m = "m div 2 ^ shift"
    have w: "\<not> ?f \<le> ?m" "watermark_orders shift (Suc k) order ?f ?m z"
      using 1(2) True by (subst (asm) watermark_orders.simps; simp add: Let_def split: if_splits)+
    have "0 \<le> ?m" using 1(5) by (simp add: pos_imp_zdiv_nonneg_iff)
    from 1(1) [OF True refl refl w(1) w(2) _ _ this] True w(1)
    have "(\<Sum>j = Suc k..<order. int (2 ^ j * nr_free z j)) < ?f" by simp
    with True show ?thesis by (simp add: sum.atLeast_Suc_lessThan mult.commute)
  next
    case False
    then show ?thesis using 1(3-5) by simp
  qed
qed

lemma watermark_block:
  assumes inv: "zone_inv z" and cnt: "counted z" and "order < MAX_ORDER" and "0 \<le> mark" and "0 \<le> lowmem_reserve z idx"
    and ok: "zone_watermark_ok shift z order mark idx high harder"
  shows "\<exists>p k. head z p k \<and> order \<le> k"
proof -
  let ?N = "\<lambda>j. int (2 ^ j * nr_free z j)"
  let ?m1 = "if high then mark - mark div 2 else mark"
  let ?m = "if harder then ?m1 - ?m1 div 4 else ?m1"
  let ?f = "nr_free_pages z - (2 ^ order - 1)"
  have m1: "0 \<le> ?m1" using assms(4) by auto
  have m: "0 \<le> ?m" using m1 by (auto simp del: if_split_asm)
  have gt: "?m < ?f" and wo: "watermark_orders shift 0 order ?f ?m z"
    using ok assms(5) unfolding zone_watermark_ok_def zone_watermark_ok_for_def Let_def
    by (auto simp: not_le split: if_splits)
  have "(\<Sum>j = 0..<order. ?N j) < ?f" by (rule watermark_orders_pos [OF wo _ gt m]) simp
  moreover have "nr_free_pages z = (\<Sum>j = 0..<order. ?N j) + (\<Sum>j = order..<MAX_ORDER. ?N j)"
  proof -
    have "(\<Sum>j = 0..<order. ?N j) + (\<Sum>j = order..<MAX_ORDER. ?N j) = (\<Sum>j = 0..<MAX_ORDER. ?N j)"
      using assms(3) by (intro sum.atLeastLessThan_concat) auto
    also have "\<dots> = int (\<Sum>j < MAX_ORDER. 2 ^ j * nr_free z j)" by (simp add: atLeast0LessThan)
    finally show ?thesis using cnt card_free_set(2) [OF inv] by (simp add: counted_def)
  qed
  moreover have "(1 :: int) \<le> 2 ^ order" by simp
  ultimately have "0 < (\<Sum>j = order..<MAX_ORDER. ?N j)" by linarith
  then obtain j where j: "j \<in> {order..<MAX_ORDER}" "?N j \<noteq> 0"
    by (metis (no_types, lifting) less_irrefl sum.neutral)
  then have "heads z j \<noteq> {}" using heads_lists(3) [OF inv, of j] inv by (auto simp: zone_inv_def)
  with j show ?thesis by (auto simp: heads_def)
qed

end
