(* ===== verification/Buddy_Pcp.thy ===== *)
theory Buddy_Pcp
  imports Buddy_Alloc
begin

text \<open>
  The per-CPU lists in front of the buddy lists. Pages only move between the two, between them and the
  callers: no page is lost, duplicated or handed out twice, the bulk free loop ends, and the counters
  stay exact.
\<close>

subsection \<open>Pages on the per-CPU lists\<close>

definition pcp_pages :: "zone \<Rightarrow> nat list" where
  "pcp_pages z = pcp_lists z MIGRATE_UNMOVABLE @ pcp_lists z MIGRATE_RECLAIMABLE @ pcp_lists z MIGRATE_MOVABLE"

definition pcp_sound :: "zone \<Rightarrow> bool" where
  "pcp_sound z \<longleftrightarrow> distinct (pcp_pages z) \<and> (\<forall>p \<in> set (pcp_pages z). floating z p 0)"

definition same_zone :: "zone \<Rightarrow> zone \<Rightarrow> bool" where
  "same_zone z z' \<longleftrightarrow> zone_id z' = zone_id z \<and> page_zone_id z' = page_zone_id z \<and>
     pfn_valid_within z' = pfn_valid_within z \<and> zone_start_pfn z' = zone_start_pfn z \<and>
     spanned_pages z' = spanned_pages z \<and> pcp_high z' = pcp_high z \<and> pcp_batch z' = pcp_batch z"

lemma same_zone_refl [simp]: "same_zone z z"
  by (simp add: same_zone_def)

lemma same_zone_trans: "same_zone z z' \<Longrightarrow> same_zone z' z'' \<Longrightarrow> same_zone z z''"
  by (simp add: same_zone_def)

lemma same_pages_zone: "same_pages z z' \<Longrightarrow> same_zone z z'"
  by (simp add: same_zone_def same_pages_def)

lemma same_zone_simps [simp]:
  "same_zone z (set_pcp_list mt ps z)" "same_zone z (add_pcp_count d z)" "same_zone z (alloc_statistics k z)"
  "same_zone z (mod_zone_freepage_state d z)" "same_zone z (set_freepage_migratetype p mt z)"
  "same_zone z (clear_scanned z)"
  by (simp_all add: same_zone_def set_pcp_list_def add_pcp_count_def alloc_statistics_def
      mod_zone_freepage_state_def set_freepage_migratetype_def clear_scanned_def Let_def)

lemma layout_zone: "same_zone z z' \<Longrightarrow> layout z' = layout z"
  by (simp add: layout_def own_def zone_spans_pfn_def same_zone_def)

lemma same_zone_block: "same_zone z z' \<Longrightarrow> block_ok z' p k = block_ok z p k"
  by (simp add: same_zone_def block_ok_def own_def)

text \<open>The state between calls, except for the counter of pages on the per-CPU lists.\<close>

definition zone_sound :: "zone \<Rightarrow> bool" where
  "zone_sound z \<longleftrightarrow> zone_inv z \<and> layout z \<and> counted z \<and> pcp_sound z"

text \<open>All pages the allocator has, on either kind of list.\<close>

definition held_pages :: "zone \<Rightarrow> nat set" where
  "held_pages z = free_set z \<union> set (pcp_pages z)"

definition pcp_type :: "migratetype \<Rightarrow> bool" where
  "pcp_type mt \<longleftrightarrow> mt \<noteq> MIGRATE_RESERVE"

lemma pcp_pages_split:
  assumes "pcp_type mt"
  obtains xs ys where "pcp_pages z = xs @ pcp_lists z mt @ ys"
    and "\<And>ps. pcp_pages (set_pcp_list mt ps z) = xs @ ps @ ys"
proof (cases mt)
  case MIGRATE_UNMOVABLE
  show ?thesis
    by (rule that [of "[]" "pcp_lists z MIGRATE_RECLAIMABLE @ pcp_lists z MIGRATE_MOVABLE"])
      (simp_all add: MIGRATE_UNMOVABLE pcp_pages_def set_pcp_list_def)
next
  case MIGRATE_RECLAIMABLE
  show ?thesis
    by (rule that [of "pcp_lists z MIGRATE_UNMOVABLE" "pcp_lists z MIGRATE_MOVABLE"])
      (simp_all add: MIGRATE_RECLAIMABLE pcp_pages_def set_pcp_list_def)
next
  case MIGRATE_MOVABLE
  show ?thesis
    by (rule that [of "pcp_lists z MIGRATE_UNMOVABLE @ pcp_lists z MIGRATE_RECLAIMABLE" "[]"])
      (simp_all add: MIGRATE_MOVABLE pcp_pages_def set_pcp_list_def)
qed (use assms in \<open>simp add: pcp_type_def\<close>)

lemma floating_0: "floating z p 0 \<longleftrightarrow> block_ok z p 0 \<and> p \<notin> free_set z"
  by (auto simp: floating_def blk_def)

lemma pcp_pages_same [simp]:
  "pcp_pages (add_pcp_count d z) = pcp_pages z" "pcp_pages (alloc_statistics k z) = pcp_pages z"
  "pcp_pages (mod_zone_freepage_state e z) = pcp_pages z" "pcp_pages (set_freepage_migratetype p mt z) = pcp_pages z"
  "pcp_pages (clear_scanned z) = pcp_pages z"
  by (simp_all add: pcp_pages_def add_pcp_count_def alloc_statistics_def mod_zone_freepage_state_def
      set_freepage_migratetype_def clear_scanned_def Let_def)

lemma pcp_pages_of_same: "same_pages z z' \<Longrightarrow> pcp_pages z' = pcp_pages z"
  by (simp add: same_pages_def pcp_pages_def)

lemma zone_sound_same:
  assumes "same_lists z z'" and "same_zone z z'" and "pcp_pages z' = pcp_pages z" and "nr_free_pages z' = nr_free_pages z"
  shows "zone_sound z' = zone_sound z" and "held_pages z' = held_pages z"
  using assms same_listsD [OF assms(1)] layout_zone [OF assms(2)]
  by (simp_all add: zone_sound_def held_pages_def counted_def pcp_sound_def)

subsection \<open>Draining\<close>

text \<open>Freeing one page from a per-CPU list into the buddy lists.\<close>

lemma drain_one:
  assumes z: "zone_sound z" and ty: "pcp_type mt" and ne: "pcp_lists z mt \<noteq> []"
    and good: "\<not> compound_bad chk (last (pcp_lists z mt)) 0"
    and z'_def: "z' = free_one_page_locked chk (last (pcp_lists z mt)) 0 mt' (set_pcp_list mt (butlast (pcp_lists z mt)) z)"
  shows "zone_sound z' \<and> held_pages z' = held_pages z \<and> length (pcp_pages z) = Suc (length (pcp_pages z')) \<and>
    same_zone z z' \<and> pcp_lists z' mt = butlast (pcp_lists z mt) \<and> pcp_count z' = pcp_count z"
proof -
  let ?p = "last (pcp_lists z mt)" and ?z = "set_pcp_list mt (butlast (pcp_lists z mt)) z"
  obtain xs ys where sp: "pcp_pages z = xs @ pcp_lists z mt @ ys"
    and sp': "pcp_pages ?z = xs @ butlast (pcp_lists z mt) @ ys"
    using pcp_pages_split [OF ty, of z] by metis
  have ps: "pcp_lists z mt = butlast (pcp_lists z mt) @ [?p]" using ne by simp
  have pp: "pcp_pages z = xs @ butlast (pcp_lists z mt) @ ?p # ys" using sp ps by (metis append.assoc append_Cons append_Nil)
  have set': "set (pcp_pages z) = insert ?p (set (pcp_pages ?z))" "?p \<notin> set (pcp_pages ?z)" "distinct (pcp_pages ?z)"
    using z unfolding zone_sound_def pcp_sound_def pp sp' by auto
  have inv: "zone_inv ?z" and fl: "floating ?z ?p 0" and fs: "free_set ?z = free_set z"
    using z set' by (auto simp: same_listsD [OF same_lists_simps(5)] zone_sound_def pcp_sound_def)
  note f = free_one_page_locked_ok [OF inv fl good z'_def]
  have pl: "pcp_pages z' = pcp_pages ?z" using f pcp_pages_of_same by blast
  have sz: "same_zone z z'"
    using same_zone_trans [OF same_zone_simps(1)] f same_pages_zone by blast
  have nf: "?p \<notin> free_set z" using z set'(1) by (auto simp: zone_sound_def pcp_sound_def floating_0)
  have "floating z' q 0" if "q \<in> set (pcp_pages ?z)" for q
    using z set' that f fs same_zone_block [OF sz]
    by (auto simp: zone_sound_def pcp_sound_def floating_0 blk_def)
  moreover have "counted z'"
  proof -
    have "card (insert ?p (free_set z)) = Suc (card (free_set z))"
      using nf card_free_set(1) z by (simp add: zone_sound_def)
    moreover have "free_set z' = insert ?p (free_set z)" using f fs by (auto simp: blk_def)
    ultimately show ?thesis
      using z f by (simp add: counted_def zone_sound_def set_pcp_list_def)
  qed
  ultimately have "zone_sound z'"
    using z f set' layout_zone [OF sz] by (simp add: zone_sound_def pcp_sound_def pl)
  moreover have "held_pages z' = held_pages z"
    using f fs set' by (auto simp: held_pages_def pl blk_def)
  moreover have "length (pcp_pages z) = Suc (length (pcp_pages z'))" by (simp only: pl pp sp') simp
  moreover have "pcp_lists z' mt = butlast (pcp_lists z mt)" "pcp_count z' = pcp_count z"
    using f by (simp_all add: same_pages_def set_pcp_list_def)
  ultimately show ?thesis using sz by blast
qed

definition drained :: "zone \<Rightarrow> nat \<Rightarrow> zone \<Rightarrow> bool" where
  "drained z n z' \<longleftrightarrow> zone_sound z' \<and> held_pages z' = held_pages z \<and>
     length (pcp_pages z) = n + length (pcp_pages z') \<and> same_zone z z' \<and> pcp_count z' = pcp_count z"

lemma drained_trans: "drained z n z' \<Longrightarrow> drained z' m z'' \<Longrightarrow> drained z (n + m) z''"
  by (auto simp: drained_def intro: same_zone_trans)

lemma drain_list_ok:
  assumes "zone_sound z" and "pcp_type mt" and "pcp_lists z mt \<noteq> []" and "\<And>p. \<not> compound_bad chk p 0"
    and "drain_list chk mt n b z = (n', b', z')" and "0 < n"
  shows "drained z (n - n') z' \<and> n' < n"
  using assms
proof (induction chk mt n b z rule: drain_list.induct)
  case (2 chk mt n b z)
  let ?z = "free_one_page_locked chk (last (pcp_lists z mt)) 0 (freepage_mt z (last (pcp_lists z mt)))
    (set_pcp_list mt (butlast (pcp_lists z mt)) z)"
  note d1 = drain_one [OF 2(2,3,4) 2(5) refl, of "freepage_mt z (last (pcp_lists z mt))"]
  then have dr: "drained z 1 ?z" by (simp add: drained_def)
  consider (last) "n = 0" | (more) "n \<noteq> 0" "b - 1 = 0 \<or> pcp_lists ?z mt = []"
    | (rec) "n \<noteq> 0" "b - 1 \<noteq> 0" "pcp_lists ?z mt \<noteq> []" by blast
  then show ?case
  proof cases
    case last
    then show ?thesis using 2(6) dr by (auto simp: Let_def)
  next
    case more
    then have "n' = n" "z' = ?z" using 2(6) by (auto simp: Let_def split: if_splits)
    then show ?thesis using dr by simp
  next
    case rec
    then have run: "drain_list chk mt n (b - 1) ?z = (n', b', z')" using 2(6) by (simp add: Let_def)
    have "drained ?z (n - n') z' \<and> n' < n"
      using 2(1) [OF refl refl rec(1) _ _ _ 2(3) rec(3) 2(5) run] rec d1 by simp
    then show ?thesis using drained_trans [OF dr, of "n - n'" z'] by (auto simp: Suc_diff_le)
  qed
qed simp


text \<open>The round-robin search ends because some list is not empty.\<close>

lemma pcp_scan_ok:
  assumes "pcp_pages z \<noteq> []"
  shows "\<exists>mt' b'. pcp_scan mt b z = Some (mt', b') \<and> pcp_type mt' \<and> pcp_lists z mt' \<noteq> []"
proof -
  note u = pcp_scan.simps
  have ne: "pcp_lists z MIGRATE_UNMOVABLE \<noteq> [] \<or> pcp_lists z MIGRATE_RECLAIMABLE \<noteq> [] \<or> pcp_lists z MIGRATE_MOVABLE \<noteq> []"
    using assms by (auto simp: pcp_pages_def)
  have s1: "pcp_scan t c z = (if pcp_lists z (next_pcp_type t) = [] then pcp_scan (next_pcp_type t) (Suc c) z
      else Some (next_pcp_type t, Suc c))" for t c
    by (rule u)
  show ?thesis
    using ne s1 [of mt b] s1 [of "next_pcp_type mt" "Suc b"]
      s1 [of "next_pcp_type (next_pcp_type mt)" "Suc (Suc b)"]
      s1 [of "next_pcp_type (next_pcp_type (next_pcp_type mt))" "Suc (Suc (Suc b))"]
    by (cases mt) (auto simp: pcp_type_def split: if_splits)
qed

lemma pcp_bulk_loop_ok:
  assumes "zone_sound z" and "n \<le> length (pcp_pages z)" and good: "\<And>p. \<not> compound_bad chk p 0"
  shows "\<exists>z'. pcp_bulk_loop chk mt b n z = Some z' \<and> drained z n z'"
  using assms(1,2)
proof (induction n arbitrary: mt b z rule: less_induct)
  case (less n)
  show ?case
  proof (cases "n = 0")
    case True
    then show ?thesis
      using less.prems by (subst pcp_bulk_loop.simps) (simp add: drained_def)
  next
    case False
    then have "pcp_pages z \<noteq> []" using less.prems(2) by auto
    then obtain mt1 b1 where s: "pcp_scan mt b z = Some (mt1, b1)" "pcp_type mt1" "pcp_lists z mt1 \<noteq> []"
      using pcp_scan_ok by metis
    obtain n2 b2 z2 where d: "drain_list chk mt1 n (if b1 = MIGRATE_PCPTYPES then n else b1) z = (n2, b2, z2)"
      by (metis prod_cases3)
    have dr: "drained z (n - n2) z2" "n2 < n"
      using drain_list_ok [OF less.prems(1) s(2,3) good d] False by auto
    then have "zone_sound z2" "n2 \<le> length (pcp_pages z2)"
      using less.prems(2) by (auto simp: drained_def)
    from less.IH [OF dr(2) this] obtain z' where z': "pcp_bulk_loop chk mt1 b2 n2 z2 = Some z'" "drained z2 n2 z'"
      by blast
    have "pcp_bulk_loop chk mt b n z = Some z'"
      using False s(1) d z'(1) by (subst pcp_bulk_loop.simps) simp
    moreover have "drained z n z'" using drained_trans [OF dr(1) z'(2)] dr(2) by simp
    ultimately show ?thesis by blast
  qed
qed

lemma clear_scanned_frame [simp]: "nr_free_pages (clear_scanned z) = nr_free_pages z"
  "pcp_count (clear_scanned z) = pcp_count z"
  by (simp_all add: clear_scanned_def)

lemma free_pcppages_bulk_ok:
  assumes "zone_sound z" and "n \<le> length (pcp_pages z)" and "\<And>p. \<not> compound_bad chk p 0"
  shows "\<exists>z'. free_pcppages_bulk chk n z = Some z' \<and> drained z n z'"
proof -
  have c: "zone_sound (clear_scanned z)" "held_pages (clear_scanned z) = held_pages z"
    using zone_sound_same [of z "clear_scanned z"] assms(1) by simp_all
  from pcp_bulk_loop_ok [OF c(1) _ assms(3), of n MIGRATE_UNMOVABLE 0] assms(2) c(2)
  show ?thesis
    unfolding free_pcppages_bulk_def drained_def by (auto intro: same_zone_trans [OF same_zone_simps(6)])
qed

subsection \<open>Freeing a single page\<close>

text \<open>The state between calls.\<close>

definition zone_ready :: "zone \<Rightarrow> bool" where
  "zone_ready z \<longleftrightarrow> zone_sound z \<and> pcp_count z = int (length (pcp_pages z)) \<and> int (pcp_batch z) \<le> pcp_high z"

lemma pcp_put:
  assumes z: "zone_sound z" and ty: "pcp_type mt" and fl: "floating z p 0" and new: "p \<notin> set (pcp_pages z)"
    and l: "l = p # pcp_lists z mt \<or> l = pcp_lists z mt @ [p]"
  shows "zone_sound (set_pcp_list mt l z)" and "held_pages (set_pcp_list mt l z) = insert p (held_pages z)"
    and "length (pcp_pages (set_pcp_list mt l z)) = Suc (length (pcp_pages z))"
proof -
  let ?z = "set_pcp_list mt l z"
  obtain xs ys where sp: "pcp_pages z = xs @ pcp_lists z mt @ ys" "pcp_pages ?z = xs @ l @ ys"
    using pcp_pages_split [OF ty, of z] by metis
  have pp: "set (pcp_pages ?z) = insert p (set (pcp_pages z))" "distinct (pcp_pages ?z)"
    using l new z unfolding zone_sound_def pcp_sound_def sp by auto
  have sl: "same_lists z ?z" by simp
  show "zone_sound ?z"
    using z fl pp layout_zone [OF same_zone_simps(1)] same_listsD [OF sl]
    by (simp add: zone_sound_def pcp_sound_def counted_def) (simp add: set_pcp_list_def)
  show "held_pages ?z = insert p (held_pages z)" by (simp add: held_pages_def pp same_listsD [OF sl])
  show "length (pcp_pages ?z) = Suc (length (pcp_pages z))" using l by (auto simp: sp)
qed

lemma free_hot_cold_ok:
  assumes r: "zone_ready z" and fl: "floating z p 0" and new: "p \<notin> set (pcp_pages z)"
    and good: "\<And>p. \<not> compound_bad chk p 0" and prep: "\<not> free_bad chk p 0"
  shows "\<exists>z'. free_hot_cold_page chk p cold z = Some z' \<and> zone_ready z' \<and>
    held_pages z' = insert p (held_pages z) \<and> same_zone z z'"
proof -
  define mt0 where "mt0 = get_pageblock_migratetype p z"
  define mt where "mt = (if mt0 = MIGRATE_RESERVE then MIGRATE_MOVABLE else mt0)"
  define z1 where "z1 = set_freepage_migratetype p mt0 z"
  define l where "l = (if \<not> cold then p # pcp_lists z1 mt else pcp_lists z1 mt @ [p])"
  define z2 where "z2 = add_pcp_count 1 (set_pcp_list mt l z1)"
  have ty: "pcp_type mt" by (simp add: mt_def pcp_type_def)
  have n1: "nr_free_pages z1 = nr_free_pages z" "pcp_count z1 = pcp_count z"
    by (simp_all add: z1_def set_freepage_migratetype_def)
  have "zone_sound z1" "held_pages z1 = held_pages z" "pcp_pages z1 = pcp_pages z" "same_zone z z1"
    using r zone_sound_same [of z z1] n1 by (simp_all add: z1_def zone_ready_def)
  moreover have "floating z1 p 0" using fl by (simp add: z1_def same_listsD [OF same_lists_simps(2)])
  ultimately have put: "zone_sound (set_pcp_list mt l z1)"
    "held_pages (set_pcp_list mt l z1) = insert p (held_pages z)"
    "length (pcp_pages (set_pcp_list mt l z1)) = Suc (length (pcp_pages z))" and sz1: "same_zone z z1"
    using pcp_put [OF _ ty, of z1 p l] new by (auto simp: l_def)
  have n2: "nr_free_pages z2 = nr_free_pages (set_pcp_list mt l z1)" by (simp add: z2_def add_pcp_count_def)
  have s2: "zone_sound z2" "held_pages z2 = insert p (held_pages z)" "length (pcp_pages z2) = Suc (length (pcp_pages z))"
    using zone_sound_same [of "set_pcp_list mt l z1" z2] put n2 by (simp_all add: z2_def)
  have sz: "same_zone z z2"
    using same_zone_trans [OF same_zone_trans [OF sz1 same_zone_simps(1)] same_zone_simps(2)] by (simp add: z2_def)
  have c2: "pcp_count z2 = int (length (pcp_pages z2))" "int (pcp_batch z2) \<le> pcp_high z2"
    using r n1 s2(3) sz by (simp_all add: z2_def add_pcp_count_def set_pcp_list_def zone_ready_def same_zone_def)
  have run: "free_hot_cold_page chk p cold z =
      (if pcp_count z2 \<ge> pcp_high z2 then
         case free_pcppages_bulk chk (pcp_batch z2) z2 of None \<Rightarrow> None
         | Some z3 \<Rightarrow> Some (add_pcp_count (- int (pcp_batch z2)) z3)
       else Some z2)"
    unfolding free_hot_cold_page_def Let_def using prep
    by (simp only: mt0_def [symmetric] mt_def [symmetric] z1_def [symmetric] l_def [symmetric]
        z2_def [symmetric] if_False)
  show ?thesis
  proof (cases "pcp_count z2 \<ge> pcp_high z2")
    case False
    then show ?thesis using run s2 c2 sz by (simp add: zone_ready_def)
  next
    case True
    then have "pcp_batch z2 \<le> length (pcp_pages z2)" using c2 by linarith
    from free_pcppages_bulk_ok [OF s2(1) this good] obtain z3 where z3:
      "free_pcppages_bulk chk (pcp_batch z2) z2 = Some z3" "drained z2 (pcp_batch z2) z3" by blast
    let ?z = "add_pcp_count (- int (pcp_batch z2)) z3"
    have "nr_free_pages ?z = nr_free_pages z3" by (simp add: add_pcp_count_def)
    then have "zone_sound ?z" "held_pages ?z = held_pages z3"
      using zone_sound_same [of z3 ?z] z3(2) by (simp_all add: drained_def)
    moreover have "pcp_count ?z = int (length (pcp_pages ?z))" "int (pcp_batch ?z) \<le> pcp_high ?z"
      using z3(2) c2 by (simp_all add: drained_def add_pcp_count_def same_zone_def pcp_pages_def)
    moreover have "same_zone z ?z"
      using same_zone_trans [OF same_zone_trans [OF sz] same_zone_simps(2)] z3(2) by (auto simp: drained_def)
    ultimately show ?thesis
      using run True z3 s2(2) by (auto simp: zone_ready_def drained_def)
  qed
qed


lemma drain_pages_ok:
  assumes r: "zone_ready z" and good: "\<And>p. \<not> compound_bad chk p 0"
  shows "\<exists>z'. drain_pages chk z = Some z' \<and> zone_ready z' \<and> pcp_pages z' = [] \<and>
    free_set z' = held_pages z \<and> same_zone z z'"
proof (cases "pcp_count z = 0")
  case True
  then show ?thesis using r by (simp add: drain_pages_def zone_ready_def held_pages_def)
next
  case False
  have n: "nat (pcp_count z) = length (pcp_pages z)" using r by (simp add: zone_ready_def)
  obtain z1 where z1: "free_pcppages_bulk chk (length (pcp_pages z)) z = Some z1" "drained z (length (pcp_pages z)) z1"
    using free_pcppages_bulk_ok [OF _ order_refl good] r by (auto simp: zone_ready_def)
  let ?z = "z1\<lparr>pcp_count := 0\<rparr>"
  have pp: "pcp_pages z1 = []" "pcp_pages ?z = pcp_pages z1" using z1(2) by (simp_all add: drained_def pcp_pages_def)
  have "zone_sound ?z" "held_pages ?z = held_pages z1"
    using zone_sound_same [of z1 ?z] z1(2) pp by (simp_all add: drained_def same_lists_def same_zone_def)
  with z1 pp r n False show ?thesis
    by (simp add: drain_pages_def drained_def zone_ready_def held_pages_def same_zone_def)
qed

subsection \<open>Allocating\<close>

lemma taken_trans_pages:
  assumes "taken z k p z1"
  shows "zone_inv z1" and "layout z1 = layout z" and "pcp_pages z1 = pcp_pages z" and "same_zone z z1"
    and "pcp_count z1 = pcp_count z" and "pcp_lists z1 = pcp_lists z"
proof -
  have s: "same_pages z z1" using assms by (simp add: taken_def)
  show "zone_inv z1" using assms by (simp add: taken_def)
  show "same_zone z z1" by (rule same_pages_zone [OF s])
  then show "layout z1 = layout z" by (rule layout_zone)
  show "pcp_pages z1 = pcp_pages z" by (rule pcp_pages_of_same [OF s])
  show "pcp_count z1 = pcp_count z" "pcp_lists z1 = pcp_lists z" using s by (simp_all add: same_pages_def)
qed

text \<open>A batch of pages leaves the free set; the pages are distinct and on no list.\<close>

lemma rmqueue_pages_ok:
  assumes "zone_inv z" and "layout z" and "mt \<noteq> MIGRATE_RESERVE" and "rmqueue_pages n 0 mt z = (ps, z')"
  shows "zone_inv z' \<and> distinct ps \<and> set ps \<subseteq> free_set z \<and> free_set z' = free_set z - set ps \<and>
    same_pages z z' \<and> nr_free_pages z' = nr_free_pages z \<and> (\<forall>p \<in> set ps. block_ok z p 0) \<and>
    (ps = [] \<and> n \<noteq> 0 \<longrightarrow> free_set z = {})"
  using assms
proof (induction n arbitrary: z ps)
  case (Suc n)
  obtain r z1 where q: "rmqueue 0 mt z = (r, z1)" by fastforce
  note ok = rmqueue_ok [OF Suc.prems(1,2,3), of 0, unfolded q prod.case]
  show ?case
  proof (cases r)
    case None
    then have "ps = []" "z' = z" "free_set z = {}"
      using Suc.prems(4) q ok by (auto simp: free_set_def)
    then show ?thesis using Suc.prems(1) by simp
  next
    case (Some p)
    then have t: "taken z 0 p z1" using ok by simp
    obtain qs where rs: "rmqueue_pages n 0 mt z1 = (qs, z')" "ps = p # qs"
      using Suc.prems(4) q Some by (auto split: prod.splits)
    have IH: "zone_inv z' \<and> distinct qs \<and> set qs \<subseteq> free_set z1 \<and> free_set z' = free_set z1 - set qs \<and>
        same_pages z1 z' \<and> nr_free_pages z' = nr_free_pages z1 \<and> (\<forall>p \<in> set qs. block_ok z1 p 0)"
      using Suc.IH [OF _ _ Suc.prems(3) rs(1)] taken_trans_pages(1,2) [OF t] Suc.prems(2) by blast
    have "blk p 0 = {p}" by (auto simp: blk_def)
    then have "free_set z1 = free_set z - {p}" "p \<in> free_set z" "block_ok z p 0" "same_pages z z1"
      using t by (auto simp: taken_def floating_def same_pages_block)
    with IH t rs(2) show ?thesis
      by (auto simp: taken_def same_pages_block intro: same_pages_trans)
  qed
qed simp

text \<open>The refill of a per-CPU list moves pages from one kind of list to the other.\<close>

lemma rmqueue_bulk_ok:
  assumes z: "zone_sound z" and ty: "pcp_type mt" and run: "rmqueue_bulk 0 nr mt cold z = (n, z')"
  shows "zone_sound z'" and "held_pages z' = held_pages z" and "same_zone z z'" and "pcp_count z' = pcp_count z"
    and "length (pcp_pages z') = length (pcp_pages z) + n" and "n \<noteq> 0 \<longrightarrow> pcp_lists z' mt \<noteq> []"
    and "n = 0 \<and> nr \<noteq> 0 \<longrightarrow> free_set z = {}"
proof -
  obtain ps z1 where q: "rmqueue_pages nr 0 mt z = (ps, z1)" by fastforce
  define l where "l = (if \<not> cold then ps @ pcp_lists z1 mt else pcp_lists z1 mt @ rev ps)"
  define z2 where "z2 = set_pcp_list mt l z1"
  have z': "z' = mod_zone_freepage_state (- int (length ps)) z2" and n: "n = length ps"
    using run by (auto simp: rmqueue_bulk_def q z2_def l_def)
  have ok: "zone_inv z1" "distinct ps" "set ps \<subseteq> free_set z" "free_set z1 = free_set z - set ps" "same_pages z z1"
      "nr_free_pages z1 = nr_free_pages z" "\<forall>p \<in> set ps. block_ok z p 0" "ps = [] \<and> nr \<noteq> 0 \<longrightarrow> free_set z = {}"
    using rmqueue_pages_ok [OF _ _ _ q] z ty by (auto simp: zone_sound_def pcp_type_def)
  obtain xs ys where sp: "pcp_pages z1 = xs @ pcp_lists z1 mt @ ys" "pcp_pages z2 = xs @ l @ ys"
    unfolding z2_def using pcp_pages_split [OF ty, of z1] by metis
  have pz: "pcp_pages z1 = pcp_pages z" and sz1: "same_zone z z1"
    using ok(5) by (simp_all add: pcp_pages_of_same same_pages_zone)
  have fz: "floating z p 0" if "p \<in> set (pcp_pages z)" for p
    using z that by (simp add: zone_sound_def pcp_sound_def)
  have dz: "distinct (xs @ pcp_lists z1 mt @ ys)" using z by (simp add: zone_sound_def pcp_sound_def flip: pz sp(1))
  have new: "set ps \<inter> set (pcp_pages z) = {}"
    using ok(3) fz by (auto simp: floating_0)
  have pp: "set (pcp_pages z2) = set (pcp_pages z) \<union> set ps" "distinct (pcp_pages z2)"
      "length (pcp_pages z2) = length (pcp_pages z) + n"
    using new ok(2) dz unfolding sp(2) pz [symmetric] sp(1) l_def n by auto
  have sl: "same_lists z1 z'" "same_zone z1 z'" and pz': "pcp_pages z' = pcp_pages z2"
    using same_zone_trans [of z1 z2] by (simp_all add: z' z2_def same_lists_def set_pcp_list_def
      mod_zone_freepage_state_def same_zone_def pcp_pages_def)
  show sz: "same_zone z z'" by (rule same_zone_trans [OF sz1 sl(2)])
  have fs: "free_set z' = free_set z - set ps" "zone_inv z'" using same_listsD [OF sl(1)] ok by simp_all
  show "held_pages z' = held_pages z" using pp(1) ok(3) fs(1) by (auto simp: held_pages_def pz')
  show "length (pcp_pages z') = length (pcp_pages z) + n" by (simp add: pz' pp)
  show "pcp_count z' = pcp_count z" using ok(5) by (simp add: z' z2_def mod_zone_freepage_state_def set_pcp_list_def same_pages_def)
  show "n \<noteq> 0 \<longrightarrow> pcp_lists z' mt \<noteq> []"
    by (simp add: n z' z2_def l_def mod_zone_freepage_state_def set_pcp_list_def)
  show "n = 0 \<and> nr \<noteq> 0 \<longrightarrow> free_set z = {}" using ok(8) n by simp
  have "floating z' p 0" if "p \<in> set (pcp_pages z')" for p
    using that pp(1) fz ok(7) by (auto simp: pz' floating_0 fs same_zone_block [OF sz])
  moreover have "counted z'"
  proof -
    have "finite (free_set z)" using card_free_set(1) z by (simp add: zone_sound_def)
    then have "card (free_set z') = card (free_set z) - length ps" "length ps \<le> card (free_set z)"
      using ok(2,3) by (simp_all add: fs(1) card_Diff_subset distinct_card [symmetric] card_mono)
    moreover have "nr_free_pages z' = nr_free_pages z - int (length ps)"
      using ok(6) by (simp add: z' z2_def mod_zone_freepage_state_def set_pcp_list_def)
    ultimately show ?thesis using z by (simp add: zone_sound_def counted_def of_nat_diff)
  qed
  ultimately show "zone_sound z'"
    using fs(2) pp(2) z layout_zone [OF sz] by (simp add: zone_sound_def pcp_sound_def pz')
qed

text \<open>Taking one page off a per-CPU list.\<close>

lemma pcp_take:
  assumes z: "zone_sound z" and ty: "pcp_type mt" and ne: "pcp_lists z mt \<noteq> []"
    and l: "p = hd (pcp_lists z mt) \<and> l = tl (pcp_lists z mt) \<or> p = last (pcp_lists z mt) \<and> l = butlast (pcp_lists z mt)"
  shows "zone_sound (set_pcp_list mt l z)" and "held_pages (set_pcp_list mt l z) = held_pages z - {p}"
    and "p \<in> held_pages z" and "floating z p 0" and "p \<notin> set (pcp_pages (set_pcp_list mt l z))"
    and "Suc (length (pcp_pages (set_pcp_list mt l z))) = length (pcp_pages z)"
proof -
  let ?z = "set_pcp_list mt l z"
  obtain xs ys where sp: "pcp_pages z = xs @ pcp_lists z mt @ ys" "pcp_pages ?z = xs @ l @ ys"
    using pcp_pages_split [OF ty, of z] by metis
  have cs: "pcp_lists z mt = p # l \<or> pcp_lists z mt = l @ [p]" using l ne by auto
  have d: "distinct (pcp_pages z)" and fl: "\<forall>p \<in> set (pcp_pages z). floating z p 0"
    using z by (auto simp: zone_sound_def pcp_sound_def)
  have pp: "set (pcp_pages ?z) = set (pcp_pages z) - {p}" "distinct (pcp_pages ?z)" "p \<in> set (pcp_pages z)"
      "Suc (length (pcp_pages ?z)) = length (pcp_pages z)"
    using cs d unfolding sp by auto
  have sl: "same_lists z ?z" by simp
  show "p \<notin> set (pcp_pages ?z)" "Suc (length (pcp_pages ?z)) = length (pcp_pages z)" using pp by auto
  show "floating z p 0" "p \<in> held_pages z" using fl pp(3) by (auto simp: held_pages_def)
  then have "p \<notin> free_set z" by (simp add: floating_0)
  then show "held_pages ?z = held_pages z - {p}" by (auto simp: held_pages_def pp(1) same_listsD [OF sl])
  show "zone_sound ?z"
    using z fl pp layout_zone [OF same_zone_simps(1)] same_listsD [OF sl]
    by (simp add: zone_sound_def pcp_sound_def counted_def) (simp add: set_pcp_list_def)
qed

text \<open>A block handed to the caller: it was held, and exactly it is held no longer.\<close>

definition handed :: "zone \<Rightarrow> nat \<Rightarrow> nat \<Rightarrow> zone \<Rightarrow> bool" where
  "handed z order p z' \<longleftrightarrow> zone_ready z' \<and> block_ok z p order \<and> blk p order \<subseteq> held_pages z \<and>
     held_pages z' = held_pages z - blk p order \<and> same_zone z z'"

lemma zone_ready_frame:
  assumes "zone_ready z" and "same_lists z z'" and "same_zone z z'" and "pcp_pages z' = pcp_pages z"
    and "nr_free_pages z' = nr_free_pages z" and "pcp_count z' = pcp_count z"
  shows "zone_ready z'" and "held_pages z' = held_pages z"
  using assms zone_sound_same [OF assms(2-5)] by (simp_all add: zone_ready_def same_zone_def)

lemma head_free_set: "head z p k \<Longrightarrow> p \<in> free_set z"
  unfolding free_set_def by (rule CollectI, rule exI [of _ p], rule exI [of _ k]) (simp add: blk_def)

lemma rmqueue_handed:
  assumes r: "zone_ready z" and t: "taken z order p z1"
  shows "handed z order p (mod_zone_freepage_state (- (2 ^ order)) z1)"
proof -
  let ?z = "mod_zone_freepage_state (- (2 ^ order)) z1"
  note tp = taken_trans_pages [OF t]
  have sl: "same_lists z1 ?z" by simp
  have sz: "same_zone z ?z" by (rule same_zone_trans [OF tp(4)]) simp
  have fs: "free_set ?z = free_set z - blk p order" and sub: "blk p order \<subseteq> free_set z"
    and bo: "block_ok z p order" and n: "nr_free_pages z1 = nr_free_pages z"
    using t same_listsD(2) [OF sl] same_pages_block [of z z1] by (simp_all add: taken_def floating_def)
  have dz: "distinct (pcp_pages z)" and fz: "\<forall>q \<in> set (pcp_pages z). block_ok z q 0 \<and> q \<notin> free_set z"
    using r by (auto simp: zone_ready_def zone_sound_def pcp_sound_def floating_0)
  have pp: "pcp_pages ?z = pcp_pages z" using tp(3) by simp
  have "pcp_sound ?z" using dz fz unfolding pcp_sound_def pp floating_0 fs same_zone_block [OF sz] by auto
  moreover have "counted ?z"
  proof -
    have fin: "finite (free_set z)" using card_free_set(1) r by (simp add: zone_ready_def zone_sound_def)
    have c: "card (blk p order) = 2 ^ order" by (simp add: blk_def)
    then have "card (free_set ?z) = card (free_set z) - 2 ^ order" "2 ^ order \<le> card (free_set z)"
      using fin sub card_mono [OF fin sub] by (simp_all add: fs card_Diff_subset finite_subset)
    then show ?thesis using r n
      by (simp add: counted_def zone_ready_def zone_sound_def mod_zone_freepage_state_def of_nat_diff)
  qed
  ultimately have "zone_sound ?z"
    using tp(1) same_listsD(1) [OF sl] layout_zone [OF sz] r by (simp add: zone_sound_def zone_ready_def)
  moreover have "pcp_count ?z = pcp_count z" using tp(5) by (simp add: mod_zone_freepage_state_def)
  ultimately have "zone_ready ?z" using r sz pp by (simp add: zone_ready_def same_zone_def)
  moreover have "held_pages ?z = held_pages z - blk p order"
    using sub fz unfolding held_pages_def fs pp by auto
  ultimately show ?thesis using bo sub sz by (auto simp: handed_def held_pages_def)
qed

lemma pcp_take_handed:
  assumes r: "zone_ready z" and ty: "pcp_type mt" and ne: "pcp_lists z mt \<noteq> []"
    and l: "p = hd (pcp_lists z mt) \<and> l = tl (pcp_lists z mt) \<or> p = last (pcp_lists z mt) \<and> l = butlast (pcp_lists z mt)"
  shows "handed z 0 p (add_pcp_count (-1) (set_pcp_list mt l z))"
proof -
  let ?y = "set_pcp_list mt l z" and ?z = "add_pcp_count (-1) (set_pcp_list mt l z)"
  have zs: "zone_sound z" using r by (simp add: zone_ready_def)
  note tk = pcp_take [OF zs ty ne l]
  have sz: "same_zone z ?z" by (rule same_zone_trans [OF same_zone_simps(1) same_zone_simps(2)])
  have "nr_free_pages ?z = nr_free_pages ?y" by (simp add: add_pcp_count_def)
  then have s: "zone_sound ?z" "held_pages ?z = held_pages ?y"
    using zone_sound_same [of ?y ?z] tk(1) by simp_all
  have "pcp_count ?z = int (length (pcp_pages ?z))"
    using r tk(6) by (simp add: zone_ready_def) (simp add: add_pcp_count_def set_pcp_list_def)
  then have "zone_ready ?z" using r s(1) sz by (simp add: zone_ready_def same_zone_def)
  moreover have "blk p 0 = {p}" by (auto simp: blk_def)
  ultimately show ?thesis using s tk sz by (simp add: handed_def floating_0)
qed

lemma handed_trans:
  assumes "held_pages z1 = held_pages z" and "same_zone z z1" and "handed z1 k p z'"
  shows "handed z k p z'"
  using assms same_zone_trans [OF assms(2)] same_zone_block [OF assms(2)] by (simp add: handed_def)

text \<open>The per-CPU list after the refill that precedes a single-page allocation.\<close>

lemma refill_ok:
  assumes r: "zone_ready z" and ty: "pcp_type mt" and b: "rmqueue_bulk 0 (pcp_batch z) mt cold z = (n, z1)"
  defines "z' \<equiv> add_pcp_count (int n) z1"
  shows "zone_ready z'" and "held_pages z' = held_pages z" and "same_zone z z'"
    and "n \<noteq> 0 \<longrightarrow> pcp_lists z' mt \<noteq> []" and "n = 0 \<and> 0 < pcp_batch z \<longrightarrow> free_set z = {}"
proof -
  have zs: "zone_sound z" using r by (simp add: zone_ready_def)
  note bk = rmqueue_bulk_ok [OF zs ty b]
  show sz: "same_zone z z'" unfolding z'_def by (rule same_zone_trans [OF bk(3) same_zone_simps(2)])
  have "nr_free_pages z' = nr_free_pages z1" by (simp add: z'_def add_pcp_count_def)
  then have s: "zone_sound z'" "held_pages z' = held_pages z1"
    using zone_sound_same [of z1 z'] bk(1) by (simp_all add: z'_def)
  show "held_pages z' = held_pages z" using s(2) bk(2) by simp
  have "pcp_count z' = pcp_count z1 + int n" "pcp_pages z' = pcp_pages z1" "pcp_lists z' mt = pcp_lists z1 mt"
    by (simp_all add: z'_def add_pcp_count_def pcp_pages_def)
  then show "zone_ready z'" "n \<noteq> 0 \<longrightarrow> pcp_lists z' mt \<noteq> []"
    using r s(1) bk(4,5,6) sz by (simp_all add: zone_ready_def same_zone_def)
  show "n = 0 \<and> 0 < pcp_batch z \<longrightarrow> free_set z = {}" using bk(7) by simp
qed

lemma buffered_take_ok:
  assumes r: "zone_ready z" and ty: "pcp_type mt" and run: "buffered_take order cold mt z = (res, z')"
  shows "case res of
      None \<Rightarrow> zone_ready z' \<and> held_pages z' = held_pages z \<and> same_zone z z' \<and>
        (0 < pcp_batch z \<longrightarrow> (\<forall>p k. head z p k \<longrightarrow> k < order))
    | Some p \<Rightarrow> handed z order p z'"
proof (cases "order = 0")
  case False
  have inv: "zone_inv z" "layout z" "mt \<noteq> MIGRATE_RESERVE"
    using r ty by (simp_all add: zone_ready_def zone_sound_def pcp_type_def)
  obtain q z1 where rq: "rmqueue order mt z = (q, z1)" by fastforce
  note ok = rmqueue_ok [OF inv, of order, unfolded rq prod.case]
  show ?thesis
  proof (cases q)
    case None
    then show ?thesis using run False rq ok r by (auto simp: buffered_take_def)
  next
    case (Some p)
    then have "res = Some p" "z' = mod_zone_freepage_state (- (2 ^ order)) z1" "taken z order p z1"
      using run False rq ok by (auto simp: buffered_take_def)
    then show ?thesis using rmqueue_handed [OF r] by simp
  qed
next
  case True
  obtain n y where b: "rmqueue_bulk 0 (pcp_batch z) mt cold z = (n, y)" by fastforce
  define z1 where "z1 = (if pcp_lists z mt = [] then add_pcp_count (int n) y else z)"
  note rf = refill_ok [OF r ty b]
  have z1: "zone_ready z1" "held_pages z1 = held_pages z" "same_zone z z1"
    using r rf(1-3) by (auto simp: z1_def)
  have split: "(res, z') = (if pcp_lists z1 mt = [] then (None, z1)
      else if cold then (Some (last (pcp_lists z1 mt)), add_pcp_count (-1) (set_pcp_list mt (butlast (pcp_lists z1 mt)) z1))
      else (Some (hd (pcp_lists z1 mt)), add_pcp_count (-1) (set_pcp_list mt (tl (pcp_lists z1 mt)) z1)))"
    unfolding run [symmetric] buffered_take_def b Let_def prod.case z1_def [symmetric] by (simp add: True)
  show ?thesis
  proof (cases "pcp_lists z1 mt = []")
    case e: True
    then have "n = 0" "pcp_lists z mt = []" using rf(4) by (auto simp: z1_def split: if_splits)
    then have "0 < pcp_batch z \<longrightarrow> free_set z = {}" using rf(5) by simp
    then have "0 < pcp_batch z \<longrightarrow> (\<forall>p k. \<not> head z p k)" using head_free_set by blast
    then show ?thesis using e split z1 by simp
  next
    case ne: False
    have "\<exists>p l. res = Some p \<and> z' = add_pcp_count (-1) (set_pcp_list mt l z1) \<and>
        (p = hd (pcp_lists z1 mt) \<and> l = tl (pcp_lists z1 mt) \<or> p = last (pcp_lists z1 mt) \<and> l = butlast (pcp_lists z1 mt))"
      using split ne by (auto split: if_splits)
    then obtain p l where "res = Some p" "z' = add_pcp_count (-1) (set_pcp_list mt l z1)"
        "handed z1 0 p (add_pcp_count (-1) (set_pcp_list mt l z1))"
      using pcp_take_handed [OF z1(1) ty ne] by blast
    then show ?thesis using handed_trans [OF z1(2,3)] True by simp
  qed
qed

lemma finite_held: "zone_ready z \<Longrightarrow> finite (held_pages z)"
  using card_free_set(1) by (simp add: zone_ready_def zone_sound_def held_pages_def)

lemma alloc_statistics_ready:
  assumes "zone_ready z"
  shows "zone_ready (alloc_statistics k z)" and "held_pages (alloc_statistics k z) = held_pages z"
proof -
  have "nr_free_pages (alloc_statistics k z) = nr_free_pages z" "pcp_count (alloc_statistics k z) = pcp_count z"
    by (simp_all add: alloc_statistics_def Let_def)
  then show "zone_ready (alloc_statistics k z)" "held_pages (alloc_statistics k z) = held_pages z"
    using zone_ready_frame [OF assms, of "alloc_statistics k z"] by simp_all
qed

lemma head_zone_free: "zone_ready z \<Longrightarrow> head z p k \<Longrightarrow> blk p k \<subseteq> held_pages z"
  by (auto simp: held_pages_def free_set_def)

text \<open>
  The allocation loop ends, since every rejected block leaves the allocator. \<open>bad\<close> are the rejected
  blocks; they are what is missing afterwards, next to the block that is returned.
\<close>

lemma buffered_rmqueue_ok:
  assumes "zone_ready z" and ty: "pcp_type mt"
  shows "\<exists>res z' bad. buffered_rmqueue chk order cold mt z = Some (res, z') \<and> zone_ready z' \<and> same_zone z z' \<and>
    (\<forall>q \<in> set bad. new_bad chk q order \<and> blk q order \<subseteq> held_pages z) \<and>
    (case res of
       None \<Rightarrow> held_pages z' = held_pages z - (\<Union>q \<in> set bad. blk q order)
     | Some p \<Rightarrow> \<not> new_bad chk p order \<and> block_ok z p order \<and>
         blk p order \<subseteq> held_pages z - (\<Union>q \<in> set bad. blk q order) \<and>
         held_pages z' = held_pages z - (\<Union>q \<in> set bad. blk q order) - blk p order)"
  using assms(1)
proof (induction "card (held_pages z)" arbitrary: z rule: less_induct)
  case less
  obtain r z1 where t: "buffered_take order cold mt z = (r, z1)" by fastforce
  note ok = buffered_take_ok [OF less.prems ty t]
  show ?case
  proof (cases r)
    case None
    then show ?thesis using ok t by (intro exI [of _ None] exI [of _ z1] exI [of _ "[]"]) (simp add: buffered_rmqueue.simps)
  next
    case (Some p)
    define z2 where "z2 = alloc_statistics order z1"
    have h: "zone_ready z1" "block_ok z p order" "blk p order \<subseteq> held_pages z"
        "held_pages z1 = held_pages z - blk p order" "same_zone z z1"
      using ok Some by (simp_all add: handed_def)
    have z2: "zone_ready z2" "held_pages z2 = held_pages z - blk p order" "same_zone z z2"
      using alloc_statistics_ready [OF h(1)] h(4) same_zone_trans [OF h(5)] by (simp_all add: z2_def)
    show ?thesis
    proof (cases "new_bad chk p order")
      case False
      then show ?thesis using t Some h z2
        by (intro exI [of _ "Some p"] exI [of _ z2] exI [of _ "[]"]) (simp add: buffered_rmqueue.simps z2_def)
    next
      case True
      have "p \<in> blk p order" by (simp add: blk_def)
      then have "p \<in> held_pages z" "p \<notin> held_pages z2" using h(3) z2(2) by auto
      then have "held_pages z2 \<subset> held_pages z" using z2(2) Diff_subset [of "held_pages z" "blk p order"] by blast
      then have "card (held_pages z2) < card (held_pages z)"
        using finite_held [OF less.prems] by (rule psubset_card_mono [rotated])
      from less.hyps [OF this z2(1)] obtain res z' bad where IH:
        "buffered_rmqueue chk order cold mt z2 = Some (res, z')" "zone_ready z'" "same_zone z2 z'"
        "\<forall>q \<in> set bad. new_bad chk q order \<and> blk q order \<subseteq> held_pages z2"
        "case res of
           None \<Rightarrow> held_pages z' = held_pages z2 - (\<Union>q \<in> set bad. blk q order)
         | Some p \<Rightarrow> \<not> new_bad chk p order \<and> block_ok z2 p order \<and>
             blk p order \<subseteq> held_pages z2 - (\<Union>q \<in> set bad. blk q order) \<and>
             held_pages z' = held_pages z2 - (\<Union>q \<in> set bad. blk q order) - blk p order" by blast
      have "buffered_rmqueue chk order cold mt z = Some (res, z')"
        using t Some True IH(1) by (simp add: buffered_rmqueue.simps z2_def)
      moreover have eq: "held_pages z2 - (\<Union>q \<in> set bad. blk q order) = held_pages z - (\<Union>q \<in> set (p # bad). blk q order)"
        using z2(2) by auto
      moreover have "\<forall>q \<in> set (p # bad). new_bad chk q order \<and> blk q order \<subseteq> held_pages z"
        using True h(3) z2(2) IH(4) by auto
      ultimately show ?thesis
        using IH(2) IH(5) [unfolded eq same_zone_block [OF z2(3)]] same_zone_trans [OF z2(3) IH(3)]
        by (intro exI [of _ res] exI [of _ z'] exI [of _ "p # bad"] conjI)
    qed
  qed
qed

text \<open>If the zone has a free block that is large enough and no page fails the checks, one is returned.\<close>

lemma buffered_rmqueue_succeeds:
  assumes r: "zone_ready z" and ty: "pcp_type mt" and "0 < pcp_batch z" and good: "\<And>p. \<not> new_bad chk p order"
    and hd: "head z q k" "order \<le> k"
  shows "\<exists>p z'. buffered_rmqueue chk order cold mt z = Some (Some p, z') \<and> handed z order p z'"
proof -
  obtain res z1 where t: "buffered_take order cold mt z = (res, z1)" by fastforce
  note ok = buffered_take_ok [OF r ty t]
  show ?thesis
  proof (cases res)
    case None
    then have "k < order" using ok assms(3) hd(1) by simp
    then show ?thesis using hd(2) by simp
  next
    case (Some p)
    let ?z = "alloc_statistics order z1"
    have h: "handed z order p z1" using ok Some by simp
    then have "zone_ready z1" "same_zone z z1" by (simp_all add: handed_def)
    then have "handed z order p ?z"
      using h alloc_statistics_ready [of z1 order] same_zone_trans [of z z1 ?z] by (simp add: handed_def)
    moreover have "buffered_rmqueue chk order cold mt z = Some (Some p, ?z)"
      using t Some good by (simp add: buffered_rmqueue.simps)
    ultimately show ?thesis by blast
  qed
qed

end
