(* ===== verification/Buddy_Props.thy ===== *)
theory Buddy_Props
  imports Buddy_Pcp
begin

text \<open>
  The properties of the page allocator: freeing, allocating, the watermark test, the per-CPU lists, and
  every sequence of calls that frees only what it was given.
\<close>

subsection \<open>Freeing and isolating a block\<close>

lemma free_pages_ready:
  assumes r: "zone_ready z" and fl: "floating z p k" and sep: "blk p k \<inter> set (pcp_pages z) = {}"
    and good: "\<not> free_bad chk p k" "\<not> compound_bad chk p k"
  shows "zone_ready (free_pages_ok chk p k z)" and "held_pages (free_pages_ok chk p k z) = held_pages z \<union> blk p k"
    and "free_set (free_pages_ok chk p k z) = free_set z \<union> blk p k" and "same_zone z (free_pages_ok chk p k z)"
proof -
  define mt where "mt = get_pageblock_migratetype p z"
  define z1 where "z1 = clear_scanned (set_freepage_migratetype p mt z)"
  have run: "free_pages_ok chk p k z = free_one_page_locked chk p k mt z1"
    using good(1) by (simp add: free_pages_ok_def free_one_page_def z1_def mt_def Let_def)
  have sl: "same_lists z z1" "same_zone z z1" "pcp_pages z1 = pcp_pages z" "nr_free_pages z1 = nr_free_pages z"
      "pcp_count z1 = pcp_count z"
    by (simp_all add: z1_def same_lists_def same_zone_def set_freepage_migratetype_def clear_scanned_def pcp_pages_def)
  have r1: "zone_ready z1" "held_pages z1 = held_pages z" using zone_ready_frame [OF r sl] by simp_all
  have fl1: "floating z1 p k" and f1: "free_set z1 = free_set z" using fl same_listsD [OF sl(1)] by simp_all
  have inv1: "zone_inv z1" using r1(1) by (simp add: zone_ready_def zone_sound_def)
  let ?z = "free_one_page_locked chk p k mt z1"
  have ok: "zone_inv ?z" "free_set ?z = free_set z1 \<union> blk p k" "same_pages z1 ?z" "nr_free_pages ?z = nr_free_pages z1 + 2 ^ k"
    using free_one_page_locked_ok [OF inv1 fl1 good(2) refl] by blast+
  have sz: "same_zone z ?z" by (rule same_zone_trans [OF sl(2) same_pages_zone [OF ok(3)]])
  have pp: "pcp_pages ?z = pcp_pages z" using pcp_pages_of_same [OF ok(3)] sl(3) by simp
  show "free_set (free_pages_ok chk p k z) = free_set z \<union> blk p k" using ok(2) f1 by (simp add: run)
  show "held_pages (free_pages_ok chk p k z) = held_pages z \<union> blk p k"
    unfolding run held_pages_def ok(2) f1 pp by auto
  show "same_zone z (free_pages_ok chk p k z)" using sz by (simp add: run)
  have "counted ?z"
  proof -
    have "finite (free_set z)" using card_free_set(1) r by (simp add: zone_ready_def zone_sound_def)
    moreover have "free_set z \<inter> blk p k = {}" using fl by (auto simp: floating_def)
    ultimately have "card (free_set ?z) = card (free_set z) + 2 ^ k"
      by (simp add: ok(2) f1 card_Un_disjoint blk_def)
    then show ?thesis using ok(4) sl(4) r by (simp add: counted_def zone_ready_def zone_sound_def)
  qed
  moreover have "pcp_sound ?z"
    using r sep unfolding pcp_sound_def pp floating_0 ok(2) f1 same_zone_block [OF sz] zone_ready_def zone_sound_def
    by blast
  moreover have "pcp_count ?z = pcp_count z" using ok(3) sl(5) by (simp add: same_pages_def)
  ultimately show "zone_ready (free_pages_ok chk p k z)"
    using ok(1) layout_zone [OF sz] r sz pp unfolding run by (simp add: zone_ready_def zone_sound_def same_zone_def)
qed

lemma claim_pageblocks_frame:
  "same_lists z (claim_pageblocks n p z) \<and> same_zone z (claim_pageblocks n p z) \<and>
   pcp_pages (claim_pageblocks n p z) = pcp_pages z \<and> nr_free_pages (claim_pageblocks n p z) = nr_free_pages z \<and>
   pcp_count (claim_pageblocks n p z) = pcp_count z"
proof (induction n p z rule: claim_pageblocks.induct)
  case (2 n p z)
  let ?y = "set_pageblock_migratetype p MIGRATE_MOVABLE z"
  have "same_lists z ?y" "same_zone z ?y" "pcp_pages ?y = pcp_pages z" "nr_free_pages ?y = nr_free_pages z" "pcp_count ?y = pcp_count z"
    by (simp_all add: set_pageblock_migratetype_def same_lists_def same_zone_def pcp_pages_def Let_def)
  then show ?case using 2 by (auto simp: same_lists_def intro: same_zone_trans)
qed (simp add: same_lists_def)

lemma isolate_free_page_ok:
  assumes r: "zone_ready z" and hd: "head z p k" and run: "isolate_free_page shift p k z = Return (n, z')"
  shows "n = 0 \<and> z' = z \<or> n = 2 ^ k \<and> handed z k p z'"
proof (cases "zone_watermark_ok shift z 0 (low_wmark z + 2 ^ k) 0 False False")
  case False
  then show ?thesis using run hd by (auto simp: isolate_free_page_def head_def)
next
  case True
  have inv: "zone_inv z" using r by (simp add: zone_ready_def zone_sound_def)
  define y where "y = rmv_page_order p (nr_free_dec k (list_del p z))"
  define y1 where "y1 = mod_zone_freepage_state (- (2 ^ k)) y"
  note tb = take_buddy [OF inv hd, folded y_def]
  have "blk p k \<subseteq> free_set z" using hd by (auto simp: free_set_def)
  then have "taken z k p y" using tb by (simp add: taken_def)
  then have h: "handed z k p y1" unfolding y1_def by (rule rmqueue_handed [OF r])
  have y1: "rmv_page_order p (nr_free_dec k (list_del p (mod_zone_freepage_state (- (2 ^ k)) z))) = y1"
    by (simp add: y1_def y_def rmv_page_order_def nr_free_dec_def list_del_def mod_zone_freepage_state_def)
  obtain m where z': "z' = claim_pageblocks m p y1 \<or> z' = y1" and n: "n = 2 ^ k"
    using run hd True y1 by (auto simp: isolate_free_page_def head_def Let_def split: if_splits)
  have f: "same_lists y1 z'" "same_zone y1 z'" "pcp_pages z' = pcp_pages y1" "nr_free_pages z' = nr_free_pages y1"
      "pcp_count z' = pcp_count y1"
    using z' claim_pageblocks_frame [of y1 m p] by (auto simp: same_lists_def)
  have "zone_ready y1" "same_zone z y1" using h by (simp_all add: handed_def)
  then have "handed z k p z'"
    using h zone_ready_frame [OF _ f] same_zone_trans [OF _ f(2)] by (simp add: handed_def)
  with n show ?thesis by simp
qed

subsection \<open>Sequences of calls\<close>

text \<open>
  The callers of the allocator hold the blocks they were given and free only those. The state is the
  zone and the set of blocks that are out, as pairs of page and order.
\<close>

inductive alloc_step :: "page_checks \<Rightarrow> zone \<times> (nat \<times> nat) set \<Rightarrow> zone \<times> (nat \<times> nat) set \<Rightarrow> bool" for chk where
  Alloc: "buffered_rmqueue chk order cold mt z = Some (Some p, z') \<Longrightarrow> mt \<noteq> MIGRATE_RESERVE \<Longrightarrow>
    alloc_step chk (z, A) (z', insert (p, order) A)"
| Alloc_fail: "buffered_rmqueue chk order cold mt z = Some (None, z') \<Longrightarrow> mt \<noteq> MIGRATE_RESERVE \<Longrightarrow>
    alloc_step chk (z, A) (z', A)"
| Free_page: "(p, 0) \<in> A \<Longrightarrow> free_hot_cold_page chk p cold z = Some z' \<Longrightarrow> alloc_step chk (z, A) (z', A - {(p, 0)})"
| Free_block: "(p, k) \<in> A \<Longrightarrow> alloc_step chk (z, A) (free_pages_ok chk p k z, A - {(p, k)})"
| Isolate: "head z p k \<Longrightarrow> isolate_free_page shift p k z = Return (n, z') \<Longrightarrow>
    alloc_step chk (z, A) (z', if n = 0 then A else insert (p, k) A)"
| Drain: "drain_pages chk z = Some z' \<Longrightarrow> alloc_step chk (z, A) (z', A)"

inductive alloc_run :: "page_checks \<Rightarrow> zone \<times> (nat \<times> nat) set \<Rightarrow> zone \<times> (nat \<times> nat) set \<Rightarrow> bool" for chk where
  Start: "alloc_run chk s s"
| Next: "alloc_run chk s t \<Longrightarrow> alloc_step chk t u \<Longrightarrow> alloc_run chk s u"

definition sane :: "page_checks \<Rightarrow> bool" where
  "sane chk \<longleftrightarrow> (\<forall>p k. \<not> compound_bad chk p k \<and> \<not> free_bad chk p k \<and> \<not> new_bad chk p k)"

lemma saneD: "sane chk \<Longrightarrow> \<not> compound_bad chk p k" "sane chk \<Longrightarrow> \<not> free_bad chk p k" "sane chk \<Longrightarrow> \<not> new_bad chk p k"
  by (simp_all add: sane_def)

definition out_pages :: "(nat \<times> nat) set \<Rightarrow> nat set" where
  "out_pages A = (\<Union>(p, k) \<in> A. blk p k)"

definition alloc_safe :: "zone \<Rightarrow> zone \<times> (nat \<times> nat) set \<Rightarrow> bool" where
  "alloc_safe z0 s \<longleftrightarrow> (case s of (z, A) \<Rightarrow>
     zone_ready z \<and> same_zone z0 z \<and> (\<forall>(p, k) \<in> A. block_ok z0 p k) \<and>
     (\<forall>a \<in> A. \<forall>b \<in> A. a \<noteq> b \<longrightarrow> blk (fst a) (snd a) \<inter> blk (fst b) (snd b) = {}) \<and>
     held_pages z \<inter> out_pages A = {} \<and> held_pages z \<union> out_pages A = held_pages z0)"

lemma out_pages_insert: "out_pages (insert (p, k) A) = blk p k \<union> out_pages A"
  by (simp add: out_pages_def)

lemma alloc_safeD:
  assumes "alloc_safe z0 (z, A)"
  shows "zone_ready z" and "same_zone z0 z" and "\<And>p k. (p, k) \<in> A \<Longrightarrow> block_ok z p k"
    and "held_pages z \<inter> out_pages A = {}" and "held_pages z \<union> out_pages A = held_pages z0"
    and "\<And>p k q j. (p, k) \<in> A \<Longrightarrow> (q, j) \<in> A \<Longrightarrow> (p, k) \<noteq> (q, j) \<Longrightarrow> blk p k \<inter> blk q j = {}"
  using assms same_zone_block [of z0 z] unfolding alloc_safe_def by fastforce+

lemma alloc_safeI:
  assumes "zone_ready z" and "same_zone z0 z" and "\<And>p k. (p, k) \<in> A \<Longrightarrow> block_ok z p k"
    and "held_pages z \<inter> out_pages A = {}" and "held_pages z \<union> out_pages A = held_pages z0"
    and "\<And>p k q j. (p, k) \<in> A \<Longrightarrow> (q, j) \<in> A \<Longrightarrow> (p, k) \<noteq> (q, j) \<Longrightarrow> blk p k \<inter> blk q j = {}"
  shows "alloc_safe z0 (z, A)"
proof -
  have "blk (fst a) (snd a) \<inter> blk (fst b) (snd b) = {}" if "a \<in> A" "b \<in> A" "a \<noteq> b" for a b
    using that assms(6) [of "fst a" "snd a" "fst b" "snd b"] by simp
  then show ?thesis using assms(1-5) same_zone_block [OF assms(2)] by (auto simp: alloc_safe_def)
qed

lemma alloc_safe_out:
  assumes s: "alloc_safe z0 (z, A)" and h: "handed z k p z'"
  shows "alloc_safe z0 (z', insert (p, k) A)"
proof (rule alloc_safeI)
  note d = alloc_safeD [OF s]
  have hd: "zone_ready z'" "block_ok z p k" "blk p k \<subseteq> held_pages z" "held_pages z' = held_pages z - blk p k" "same_zone z z'"
    using h by (auto simp: handed_def)
  show "zone_ready z'" "same_zone z0 z'" using hd same_zone_trans [OF d(2)] by auto
  show "block_ok z' q j" if "(q, j) \<in> insert (p, k) A" for q j
    using that d(3) hd(2) same_zone_block [OF hd(5)] by auto
  show "held_pages z' \<inter> out_pages (insert (p, k) A) = {}"
    using d(4) hd(4) by (auto simp: out_pages_insert)
  show "held_pages z' \<union> out_pages (insert (p, k) A) = held_pages z0"
    using d(5) hd(3,4) by (auto simp: out_pages_insert)
  have sep: "blk p k \<inter> blk q j = {}" if "(q, j) \<in> A" for q j
    using that d(4) hd(3) by (force simp: out_pages_def)
  then show "blk q j \<inter> blk q' j' = {}" if "(q, j) \<in> insert (p, k) A" "(q', j') \<in> insert (p, k) A" "(q, j) \<noteq> (q', j')" for q j q' j'
    using that d(6) [of q j q' j'] by (cases "(q, j) = (p, k)"; cases "(q', j') = (p, k)") (auto simp: Int_commute)
qed

lemma alloc_safe_back:
  assumes s: "alloc_safe z0 (z, A)" and a: "(p, k) \<in> A" and z': "zone_ready z'" "same_zone z z'"
    "held_pages z' = held_pages z \<union> blk p k"
  shows "alloc_safe z0 (z', A - {(p, k)})"
proof (rule alloc_safeI)
  note d = alloc_safeD [OF s]
  show "zone_ready z'" "same_zone z0 z'" using z' same_zone_trans [OF d(2)] by auto
  show "block_ok z' q j" if "(q, j) \<in> A - {(p, k)}" for q j
    using that d(3) same_zone_block [OF z'(2)] by auto
  have out: "out_pages A = blk p k \<union> out_pages (A - {(p, k)})"
    using out_pages_insert [of p k "A - {(p, k)}"] a by (simp add: insert_absorb)
  have "blk p k \<inter> blk q j = {}" if "(q, j) \<in> A - {(p, k)}" for q j using that d(6) [OF a, of q j] by auto
  then have sep: "blk p k \<inter> out_pages (A - {(p, k)}) = {}" unfolding out_pages_def by blast
  show "held_pages z' \<inter> out_pages (A - {(p, k)}) = {}" using d(4) sep out z'(3) by auto
  show "held_pages z' \<union> out_pages (A - {(p, k)}) = held_pages z0" using d(5) out z'(3) by auto
  show "blk q j \<inter> blk q' j' = {}" if "(q, j) \<in> A - {(p, k)}" "(q', j') \<in> A - {(p, k)}" "(q, j) \<noteq> (q', j')" for q j q' j'
    using that d(6) by blast
qed

lemma alloc_safe_same:
  assumes s: "alloc_safe z0 (z, A)" and z': "zone_ready z'" "same_zone z z'" "held_pages z' = held_pages z"
  shows "alloc_safe z0 (z', A)"
  using alloc_safeD [OF s] z' same_zone_trans [of z0 z z'] same_zone_block [OF z'(2)]
  by (intro alloc_safeI) simp_all

lemma alloc_step_safe:
  assumes "alloc_step chk s t" and "sane chk" and "alloc_safe z0 s"
  shows "alloc_safe z0 t"
  using assms
proof (induction rule: alloc_step.induct)
  case (Alloc order cold mt z p z' A)
  note d = alloc_safeD [OF Alloc.prems(2)]
  have ty: "pcp_type mt" using Alloc.hyps(2) by (simp add: pcp_type_def)
  obtain r z1 where t: "buffered_take order cold mt z = (r, z1)" by fastforce
  note ok = buffered_take_ok [OF d(1) ty t]
  have r: "r = Some p" "z' = alloc_statistics order z1"
    using Alloc.hyps(1) t Alloc.prems(1) by (cases r; simp add: buffered_rmqueue.simps sane_def)+
  then have h: "handed z order p z1" using ok by simp
  then have "zone_ready z1" "same_zone z z1" by (simp_all add: handed_def)
  then have "handed z order p z'"
    using h r(2) alloc_statistics_ready [of z1 order] same_zone_trans [of z z1 z'] by (simp add: handed_def)
  then show ?case by (rule alloc_safe_out [OF Alloc.prems(2)])
next
  case (Alloc_fail order cold mt z z' A)
  note d = alloc_safeD [OF Alloc_fail.prems(2)]
  have ty: "pcp_type mt" using Alloc_fail.hyps(2) by (simp add: pcp_type_def)
  obtain r z1 where t: "buffered_take order cold mt z = (r, z1)" by fastforce
  have "r = None" "z' = z1"
    using Alloc_fail.hyps(1) t Alloc_fail.prems(1) by (cases r; simp add: buffered_rmqueue.simps sane_def)+
  then show ?case
    using buffered_take_ok [OF d(1) ty t] by (intro alloc_safe_same [OF Alloc_fail.prems(2)]) simp_all
next
  case (Free_page p A cold z z')
  note d = alloc_safeD [OF Free_page.prems(2)]
  have b: "blk p 0 = {p}" by (auto simp: blk_def)
  have "p \<in> out_pages A" using Free_page.hyps(1) b by (auto simp: out_pages_def)
  then have "p \<notin> held_pages z" using d(4) by blast
  then have "floating z p 0" "p \<notin> set (pcp_pages z)"
    using d(3) [OF Free_page.hyps(1)] by (auto simp: floating_0 held_pages_def)
  from free_hot_cold_ok [OF d(1) this saneD(1) saneD(2), OF Free_page.prems(1) Free_page.prems(1), of cold] Free_page.hyps(2)
  have "zone_ready z'" "held_pages z' = insert p (held_pages z)" "same_zone z z'" by auto
  then show ?case using b by (intro alloc_safe_back [OF Free_page.prems(2) Free_page.hyps(1)]) auto
next
  case (Free_block p k A z)
  note d = alloc_safeD [OF Free_block.prems(2)]
  have "blk p k \<subseteq> out_pages A" using Free_block.hyps by (auto simp: out_pages_def)
  then have "blk p k \<inter> held_pages z = {}" using d(4) by blast
  then have "floating z p k" "blk p k \<inter> set (pcp_pages z) = {}"
    using d(3) [OF Free_block.hyps] by (auto simp: floating_def held_pages_def)
  from free_pages_ready [OF d(1) this] Free_block.prems(1)
  show ?case by (intro alloc_safe_back [OF Free_block.prems(2) Free_block.hyps]) (simp_all add: sane_def)
next
  case (Isolate z p k shift n z' A)
  note d = alloc_safeD [OF Isolate.prems(2)]
  from isolate_free_page_ok [OF d(1) Isolate.hyps] show ?case
    using Isolate.prems(2) alloc_safe_out [OF Isolate.prems(2)] by auto
next
  case (Drain z z' A)
  note d = alloc_safeD [OF Drain.prems(2)]
  from drain_pages_ok [OF d(1) saneD(1), OF Drain.prems(1)] Drain.hyps
  have "zone_ready z'" "pcp_pages z' = []" "free_set z' = held_pages z" "same_zone z z'" by auto
  then show ?case by (intro alloc_safe_same [OF Drain.prems(2)]) (simp_all add: held_pages_def)
qed

subsection \<open>A zone to run on\<close>

text \<open>Sixteen pages from frame 16 on, all allocated; then the upper eight freed as one block.\<close>

definition all_good :: page_checks where
  "all_good = \<lparr>compound_bad = (\<lambda>_ _. False), free_bad = (\<lambda>_ _. False), new_bad = (\<lambda>_ _. False)\<rparr>"

definition boot_zone :: zone where
  "boot_zone = \<lparr>zone_id = 1, zone_start_pfn = 16, spanned_pages = 16, free_list = (\<lambda>_ _. []), nr_free = (\<lambda>_. 0),
     nr_free_pages = 0, nr_pages_scanned = 0, nr_alloc_batch = 4, fair_depleted = False, lowmem_reserve = (\<lambda>_. 0),
     low_wmark = 0, pcp_count = 0, pcp_high = 6, pcp_batch = 2, pcp_lists = (\<lambda>_. []), page_buddy = (\<lambda>_. None),
     freepage_mt = (\<lambda>_. MIGRATE_MOVABLE), pageblock_mt = (\<lambda>_. MIGRATE_MOVABLE),
     page_zone_id = (\<lambda>p. if 16 \<le> p \<and> p < 32 then 1 else 0), pfn_valid_within = (\<lambda>_. True),
     pageblock_order = 9, page_group_by_mobility_disabled = False\<rparr>"

definition demo_zone :: zone where
  "demo_zone = free_pages_ok all_good 24 3 boot_zone"

lemma sane_all_good: "sane all_good"
  by (simp add: sane_def all_good_def)

lemma boot_zone_empty: "\<not> head boot_zone p k" "free_set boot_zone = {}" "pcp_pages boot_zone = []" "held_pages boot_zone = {}"
  by (simp_all add: boot_zone_def head_def free_set_def pcp_pages_def held_pages_def)

lemma boot_zone_ready: "zone_ready boot_zone"
proof -
  have "lists_ok boot_zone" by (simp add: lists_ok_def boot_zone_empty) (simp add: boot_zone_def)
  moreover have "layout boot_zone" by (simp add: layout_def own_def zone_spans_pfn_def boot_zone_def)
  moreover have "nr_free boot_zone k = list_total boot_zone k" for k by (simp add: list_total_def boot_zone_def)
  moreover have "nr_free_pages boot_zone = 0" "pcp_count boot_zone = 0" "pcp_batch boot_zone = 2" "pcp_high boot_zone = 6"
    by (simp_all add: boot_zone_def)
  ultimately show ?thesis
    by (simp add: zone_ready_def zone_sound_def zone_inv_def disjoint_blocks_def coalesced_def counted_def
        pcp_sound_def boot_zone_empty)
qed

lemma boot_zone_block: "block_ok boot_zone p k" if "k < 4" "2 ^ k dvd p" "16 \<le> p" "p + 2 ^ k \<le> 32"
  using that by (auto simp: block_ok_def own_def boot_zone_def MAX_ORDER_def blk_def)

lemma demo_zone_ready: "zone_ready demo_zone" and demo_zone_held: "held_pages demo_zone = {24..<32}"
  and demo_zone_free: "free_set demo_zone = {24..<32}" and demo_zone_same: "same_zone boot_zone demo_zone"
proof -
  have "floating boot_zone 24 3" using boot_zone_block [of 3 24] by (simp add: floating_def boot_zone_empty)
  from free_pages_ready [OF boot_zone_ready this, of all_good]
  show "zone_ready demo_zone" "held_pages demo_zone = {24..<32}" "free_set demo_zone = {24..<32}" "same_zone boot_zone demo_zone"
    by (simp_all add: boot_zone_empty demo_zone_def all_good_def blk_def)
qed

lemma demo_zone_head: "head demo_zone 24 3"
proof -
  have "24 AND (2 ^ 11 - 1) = (24 :: nat)" "(24 :: nat) XOR 2 ^ 3 = 16" "(24 :: nat) AND 16 = 16" "(16 :: nat) AND 24 = 16"
    by code_simp+
  then show ?thesis
    by (simp add: demo_zone_def free_pages_ok_def free_one_page_def free_one_page_locked_def free_merge.simps all_good_def
      boot_zone_def find_buddy_index_def page_is_buddy_def MAX_ORDER_def head_def own_def Let_def clear_scanned_def
      set_freepage_migratetype_def get_pageblock_migratetype_def mod_zone_freepage_state_def set_page_order_def
      list_add_def list_add_tail_def nr_free_inc_def)
qed

subsection \<open>Properties\<close>

text \<open>
  C2. In every sequence of allocations, frees, drains and isolations that frees only blocks that
  are out, from any well-formed zone and with pages that pass the allocator's checks: the blocks handed
  out are aligned and lie in the zone, no two of them overlap, none overlaps a page the allocator still
  holds, no page is lost, and the zone keeps its invariant.
\<close>

theorem buddy_run_safe:
  assumes "alloc_run chk (z0, {}) (z, A)" and "sane chk" and "zone_ready z0"
  shows "zone_ready z \<and> (\<forall>(p, k) \<in> A. block_ok z0 p k) \<and>
    (\<forall>a \<in> A. \<forall>b \<in> A. a \<noteq> b \<longrightarrow> blk (fst a) (snd a) \<inter> blk (fst b) (snd b) = {}) \<and>
    held_pages z \<inter> out_pages A = {} \<and> held_pages z \<union> out_pages A = held_pages z0"
proof -
  have "alloc_safe z0 t" if "alloc_run chk s t" "s = (z0, {})" for s t
    using that
  proof (induction rule: alloc_run.induct)
    case (Start s)
    then show ?case using assms(3) by (auto simp: alloc_safe_def out_pages_def)
  next
    case (Next s t u)
    then show ?case using alloc_step_safe [OF Next.hyps(2) assms(2)] by simp
  qed
  from this [OF assms(1) refl] show ?thesis by (simp add: alloc_safe_def)
qed

theorem buddy_run_safe_witness:
  "\<exists>z. alloc_run all_good (demo_zone, {}) (z, {(24, 3)}) \<and> held_pages z \<union> out_pages {(24, 3)} = {24..<32}"
proof -
  obtain p z where a: "buffered_rmqueue all_good 3 False MIGRATE_MOVABLE demo_zone = Some (Some p, z)" and h: "handed demo_zone 3 p z"
    using buffered_rmqueue_succeeds [OF demo_zone_ready _ _ _ demo_zone_head order_refl, of MIGRATE_MOVABLE all_good False] demo_zone_same
    by (auto simp: pcp_type_def all_good_def same_zone_def boot_zone_def)
  have "{p..<p + 8} \<subseteq> {24..<32}" using h by (simp add: handed_def demo_zone_held blk_def)
  then have p: "p = 24" by simp
  have "alloc_run all_good (demo_zone, {}) (z, {(24, 3)})"
    using alloc_run.Next [OF alloc_run.Start alloc_step.Alloc [OF a]] p by simp
  with buddy_run_safe [OF this sane_all_good demo_zone_ready] demo_zone_held show ?thesis by auto
qed

text \<open>
  C4. Freeing an allocated aligned block with \<^verbatim>\<open>__free_pages_ok\<close> keeps the zone well formed, adds
  exactly the block's pages to the free pages and its size to the counter, and leaves no two free buddies
  of the same order unmerged.
\<close>

theorem buddy_free_correct:
  assumes "zone_ready z" and "floating z p k" and "blk p k \<inter> set (pcp_pages z) = {}"
    and "\<not> free_bad chk p k" and "\<not> compound_bad chk p k"
  shows "zone_ready (free_pages_ok chk p k z) \<and> free_set (free_pages_ok chk p k z) = free_set z \<union> blk p k \<and>
    nr_free_pages (free_pages_ok chk p k z) = nr_free_pages z + 2 ^ k \<and> coalesced (free_pages_ok chk p k z)"
proof -
  note fr = free_pages_ready [OF assms]
  have fin: "finite (free_set z)" and c: "counted z" "counted (free_pages_ok chk p k z)" "zone_inv (free_pages_ok chk p k z)"
    using assms(1) fr(1) card_free_set(1) by (simp_all add: zone_ready_def zone_sound_def)
  have "free_set z \<inter> blk p k = {}" using assms(2) by (auto simp: floating_def)
  then have "card (free_set (free_pages_ok chk p k z)) = card (free_set z) + 2 ^ k"
    using fin by (simp add: fr(3) card_Un_disjoint blk_def)
  then show ?thesis using fr c by (simp add: counted_def zone_inv_def)
qed

theorem buddy_free_correct_witness:
  "free_set (free_pages_ok all_good 16 3 demo_zone) = {24..<32} \<union> blk 16 3 \<and> coalesced (free_pages_ok all_good 16 3 demo_zone)"
proof -
  have "block_ok demo_zone 16 3" using boot_zone_block [of 3 16] same_zone_block [OF demo_zone_same] by simp
  moreover have "set (pcp_pages demo_zone) \<subseteq> {24..<32}" using demo_zone_held unfolding held_pages_def by blast
  ultimately have "floating demo_zone 16 3" "blk 16 3 \<inter> set (pcp_pages demo_zone) = {}"
    by (auto simp: floating_def demo_zone_free blk_def)
  from buddy_free_correct [OF demo_zone_ready this, of all_good] show ?thesis
    by (simp add: demo_zone_free all_good_def)
qed

text \<open>
  C5. \<^verbatim>\<open>__rmqueue\<close> for a block of a given order and any migrate type but the reserve: it returns an
  aligned block of that order all of whose pages were free and takes exactly these out of the free
  pages, keeping the invariant; it fails, changing nothing, only when no free block of any migrate type
  is large enough.
\<close>

theorem buddy_rmqueue_correct:
  assumes "zone_inv z" and "layout z" and "mt \<noteq> MIGRATE_RESERVE"
  shows "case rmqueue order mt z of
      (None, z') \<Rightarrow> z' = z \<and> (\<forall>p k. head z p k \<longrightarrow> k < order)
    | (Some p, z') \<Rightarrow> zone_inv z' \<and> block_ok z p order \<and> blk p order \<subseteq> free_set z \<and>
        free_set z' = free_set z - blk p order"
  using rmqueue_ok [OF assms, of order]
  by (auto simp: taken_def floating_def same_pages_block split: option.splits prod.splits)

theorem buddy_rmqueue_correct_witness:
  "case rmqueue 0 MIGRATE_UNMOVABLE demo_zone of
      (None, z') \<Rightarrow> z' = demo_zone \<and> (\<forall>p k. head demo_zone p k \<longrightarrow> k < 0)
    | (Some p, z') \<Rightarrow> zone_inv z' \<and> block_ok demo_zone p 0 \<and> blk p 0 \<subseteq> free_set demo_zone \<and>
        free_set z' = free_set demo_zone - blk p 0"
  using demo_zone_ready by (intro buddy_rmqueue_correct) (simp_all add: zone_ready_def zone_sound_def)




text \<open>
  C7. The allocation loop of \<^verbatim>\<open>buffered_rmqueue\<close>, which tries again when a page it took fails the
  checks of \<^verbatim>\<open>prep_new_page\<close>, always returns. A page it returns passed the checks, its block was held and
  is not held any more; the rejected blocks are the only other pages the allocator has lost.
\<close>

theorem buddy_alloc_terminates:
  assumes "zone_ready z" and "mt \<noteq> MIGRATE_RESERVE"
  shows "\<exists>res z' bad. buffered_rmqueue chk order cold mt z = Some (res, z') \<and> zone_ready z' \<and>
    (\<forall>q \<in> set bad. new_bad chk q order \<and> blk q order \<subseteq> held_pages z) \<and>
    (case res of
       None \<Rightarrow> held_pages z' = held_pages z - (\<Union>q \<in> set bad. blk q order)
     | Some p \<Rightarrow> \<not> new_bad chk p order \<and> block_ok z p order \<and>
         blk p order \<subseteq> held_pages z - (\<Union>q \<in> set bad. blk q order) \<and>
         held_pages z' = held_pages z - (\<Union>q \<in> set bad. blk q order) - blk p order)"
  using buffered_rmqueue_ok [OF assms(1), of mt chk order cold] assms(2) unfolding pcp_type_def by blast

theorem buddy_alloc_terminates_witness:
  "\<exists>res z'. buffered_rmqueue (all_good\<lparr>new_bad := \<lambda>p k. p = 24\<rparr>) 0 True MIGRATE_MOVABLE demo_zone = Some (res, z') \<and>
    zone_ready z'"
  using buddy_alloc_terminates [OF demo_zone_ready, of MIGRATE_MOVABLE "all_good\<lparr>new_bad := \<lambda>p k. p = 24\<rparr>" 0 True] by auto

text \<open>
  C8. Freeing a single page through the per-CPU lists always returns, although the search for a
  non-empty list in \<^verbatim>\<open>free_pcppages_bulk\<close> has no bound of its own. The page is then held by the
  allocator, and draining the per-CPU lists afterwards also returns, with every held page in the buddy
  lists and none on a per-CPU list.
\<close>

theorem pcp_free_terminates:
  assumes "zone_ready z" and "block_ok z p 0" and "p \<notin> held_pages z" and "sane chk"
  shows "\<exists>z1 z2. free_hot_cold_page chk p cold z = Some z1 \<and> zone_ready z1 \<and> held_pages z1 = insert p (held_pages z) \<and>
    drain_pages chk z1 = Some z2 \<and> zone_ready z2 \<and> pcp_pages z2 = [] \<and> free_set z2 = insert p (held_pages z)"
proof -
  have "floating z p 0" "p \<notin> set (pcp_pages z)" using assms(2,3) by (auto simp: floating_0 held_pages_def)
  from free_hot_cold_ok [OF assms(1) this saneD(1) saneD(2), OF assms(4) assms(4), of cold] obtain z1 where
    z1: "free_hot_cold_page chk p cold z = Some z1" "zone_ready z1" "held_pages z1 = insert p (held_pages z)" by blast
  from drain_pages_ok [OF z1(2) saneD(1), OF assms(4)] z1 show ?thesis by metis
qed

theorem pcp_free_terminates_witness:
  "\<exists>z1 z2. free_hot_cold_page all_good 17 False demo_zone = Some z1 \<and> drain_pages all_good z1 = Some z2 \<and>
    free_set z2 = insert 17 {24..<32}"
proof -
  have "block_ok demo_zone 17 0" "17 \<notin> held_pages demo_zone"
    using boot_zone_block [of 0 17] same_zone_block [OF demo_zone_same] by (simp_all add: demo_zone_held)
  from pcp_free_terminates [OF demo_zone_ready this sane_all_good, of False] show ?thesis
    by (auto simp: demo_zone_held)
qed



end
