(* ===== verification/Kfifo.thy ===== *)
theory Kfifo
  imports Kernel_Base
begin

text \<open>
  The byte FIFO of \<^verbatim>\<open>lib/kfifo.c\<close> and \<^verbatim>\<open>include/linux/kfifo.h\<close>: a ring buffer whose two indices count up
  for ever and wrap at 32 bits, in its plain form (elements of a fixed size), with transfers from and to
  user memory that may stop early, in its record form (each record preceded by its length), and the
  scatter lists prepared for DMA.
\<close>

subsection \<open>State\<close>

type_synonym byte = "8 word"
type_synonym u32 = "32 word"

text \<open>\<^verbatim>\<open>struct __kfifo\<close>. A \<^verbatim>\<open>NULL\<close> buffer is the empty list.\<close>

record kfifo =
  kf_in :: u32
  kf_out :: u32
  kf_mask :: u32
  kf_esize :: u32
  kf_data :: "byte list"


definition kfifo_unused :: "kfifo \<Rightarrow> u32" where
  "kfifo_unused f = (kf_mask f + 1) - (kf_in f - kf_out f)"

definition kfifo_len :: "kfifo \<Rightarrow> u32" where
  "kfifo_len f = kf_in f - kf_out f"

definition kfifo_is_empty :: "kfifo \<Rightarrow> bool" where
  "kfifo_is_empty f \<longleftrightarrow> kf_in f = kf_out f"

definition kfifo_is_full :: "kfifo \<Rightarrow> bool" where
  "kfifo_is_full f \<longleftrightarrow> kfifo_len f > kf_mask f"

definition kfifo_reset :: "kfifo \<Rightarrow> kfifo" where
  "kfifo_reset f = f\<lparr>kf_in := 0, kf_out := 0\<rparr>"

definition kfifo_reset_out :: "kfifo \<Rightarrow> kfifo" where
  "kfifo_reset_out f = f\<lparr>kf_out := kf_in f\<rparr>"

subsection \<open>Setting up\<close>

text \<open>\<^verbatim>\<open>fls_long\<close>: the position of the highest set bit, counted from 1.\<close>

fun fls_long :: "nat \<Rightarrow> nat" where
  "fls_long n = (if n = 0 then 0 else Suc (fls_long (n div 2)))"

declare fls_long.simps [simp del]

definition roundup_pow_of_two :: "nat \<Rightarrow> nat" where
  "roundup_pow_of_two n = shl64 1 (fls_long (sub64 n 1))"

text \<open>\<open>kmalloc\<close> is the allocator: the bytes it finds, or nothing.\<close>

definition kfifo_alloc :: "(nat \<Rightarrow> byte list option) \<Rightarrow> u32 \<Rightarrow> nat \<Rightarrow> int \<times> kfifo" where
  "kfifo_alloc kmalloc size0 esize =
     (let size = word_of_nat (roundup_pow_of_two (unat size0)) :: u32;
          f = \<lparr>kf_in = 0, kf_out = 0, kf_mask = 0, kf_esize = word_of_nat esize, kf_data = []\<rparr>
      in if size < 2 then (- EINVAL, f)
         else case kmalloc (unat size * esize) of
                None \<Rightarrow> (- ENOMEM, f)
              | Some d \<Rightarrow> (0, f\<lparr>kf_data := d, kf_mask := size - 1\<rparr>))"

definition kfifo_free :: "kfifo \<Rightarrow> kfifo" where
  "kfifo_free f = \<lparr>kf_in = 0, kf_out = 0, kf_mask = 0, kf_esize = 0, kf_data = []\<rparr>"

definition kfifo_init :: "byte list \<Rightarrow> u32 \<Rightarrow> nat \<Rightarrow> int \<times> kfifo" where
  "kfifo_init buffer size0 esize =
     (let size = word_of_nat (roundup_pow_of_two (unat size0 div esize)) :: u32;
          f = \<lparr>kf_in = 0, kf_out = 0, kf_mask = 0, kf_esize = word_of_nat esize, kf_data = buffer\<rparr>
      in if size < 2 then (- EINVAL, f) else (0, f\<lparr>kf_mask := size - 1\<rparr>))"

subsection \<open>Copying\<close>

text \<open>\<open>memcpy_at o xs d\<close> writes the bytes \<open>xs\<close> at offset \<open>o\<close> of \<open>d\<close>.\<close>

definition memcpy_at :: "nat \<Rightarrow> 'a list \<Rightarrow> 'a list \<Rightarrow> 'a list" where
  "memcpy_at off xs d = take off d @ xs @ drop (off + length xs) d"

text \<open>
  What every copy routine computes first: the offset in bytes, the bytes up to the end of the
  buffer, and the length in bytes.
\<close>

definition kfifo_span :: "kfifo \<Rightarrow> u32 \<Rightarrow> u32 \<Rightarrow> nat \<times> nat \<times> nat" where
  "kfifo_span f len0 off0 =
     (let esize = kf_esize f;
          off1 = off0 AND kf_mask f;
          off = (if esize \<noteq> 1 then off1 * esize else off1);
          size = (if esize \<noteq> 1 then (kf_mask f + 1) * esize else kf_mask f + 1);
          len = (if esize \<noteq> 1 then len0 * esize else len0);
          l = min len (size - off)
      in (unat off, unat l, unat len))"

definition kfifo_copy_in :: "kfifo \<Rightarrow> byte list \<Rightarrow> u32 \<Rightarrow> u32 \<Rightarrow> kfifo" where
  "kfifo_copy_in f src len off =
     (case kfifo_span f len off of (o', l, n) \<Rightarrow>
        f\<lparr>kf_data := memcpy_at 0 (take (n - l) (drop l src)) (memcpy_at o' (take l src) (kf_data f))\<rparr>)"

definition kfifo_in :: "kfifo \<Rightarrow> byte list \<Rightarrow> u32 \<Rightarrow> u32 \<times> kfifo" where
  "kfifo_in f buf len0 =
     (let l = kfifo_unused f;
          len = (if len0 > l then l else len0);
          f1 = kfifo_copy_in f buf len (kf_in f)
      in (len, f1\<lparr>kf_in := kf_in f1 + len\<rparr>))"

definition kfifo_copy_out :: "kfifo \<Rightarrow> u32 \<Rightarrow> u32 \<Rightarrow> byte list" where
  "kfifo_copy_out f len off =
     (case kfifo_span f len off of (o', l, n) \<Rightarrow>
        take l (drop o' (kf_data f)) @ take (n - l) (kf_data f))"

definition kfifo_out_peek :: "kfifo \<Rightarrow> u32 \<Rightarrow> u32 \<times> byte list" where
  "kfifo_out_peek f len0 =
     (let l = kf_in f - kf_out f;
          len = (if len0 > l then l else len0)
      in (len, kfifo_copy_out f len (kf_out f)))"

definition kfifo_out :: "kfifo \<Rightarrow> u32 \<Rightarrow> u32 \<times> byte list \<times> kfifo" where
  "kfifo_out f len0 =
     (case kfifo_out_peek f len0 of (len, dst) \<Rightarrow> (len, dst, f\<lparr>kf_out := kf_out f + len\<rparr>))"

subsection \<open>User memory\<close>

text \<open>
  A user copy of \<open>n\<close> bytes from or to offset \<open>o'\<close> leaves \<open>left o' n\<close> bytes undone; reading from user
  memory zeroes that part of the destination.
\<close>

type_synonym uaccess = "nat \<Rightarrow> nat \<Rightarrow> nat"

definition copy_from_user :: "uaccess \<Rightarrow> byte list \<Rightarrow> nat \<Rightarrow> nat \<Rightarrow> byte list" where
  "copy_from_user left from o' n = take (n - left o' n) (drop o' from) @ replicate (left o' n) 0"

definition DIV_ROUND_UP :: "nat \<Rightarrow> nat \<Rightarrow> nat" where
  "DIV_ROUND_UP n d = (n + d - 1) div d"

text \<open>The result: elements not copied, bytes reported, and the new state.\<close>

definition kfifo_copy_from_user :: "uaccess \<Rightarrow> kfifo \<Rightarrow> byte list \<Rightarrow> u32 \<Rightarrow> u32 \<Rightarrow> nat \<times> u32 \<times> kfifo" where
  "kfifo_copy_from_user left f from len off =
     (case kfifo_span f len off of (o', l, n) \<Rightarrow>
        let esize = unat (kf_esize f);
            ret1 = left 0 l;
            f1 = f\<lparr>kf_data := memcpy_at o' (copy_from_user left from 0 l) (kf_data f)\<rparr>;
            ret2 = left l (n - l);
            f2 = f1\<lparr>kf_data := memcpy_at 0 (copy_from_user left from l (n - l)) (kf_data f1)\<rparr>;
            ret = (if ret1 \<noteq> 0 then DIV_ROUND_UP (ret1 + n - l) esize
                   else if ret2 \<noteq> 0 then DIV_ROUND_UP ret2 esize else 0)
        in (ret, word_of_nat n - word_of_nat (ret * esize), if ret1 \<noteq> 0 then f1 else f2))"

definition kfifo_from_user :: "uaccess \<Rightarrow> kfifo \<Rightarrow> byte list \<Rightarrow> nat \<Rightarrow> int \<times> u32 \<times> kfifo" where
  "kfifo_from_user left f from len0 =
     (let len1 = (if kf_esize f \<noteq> 1 then len0 div unat (kf_esize f) else len0);
          l = unat (kfifo_unused f);
          len = (if len1 > l then l else len1)
      in case kfifo_copy_from_user left f from (word_of_nat len) (kf_in f) of
           (ret, copied, f1) \<Rightarrow>
             (if ret \<noteq> 0 then - EFAULT else 0, copied, f1\<lparr>kf_in := kf_in f1 + word_of_nat (len - ret)\<rparr>))"

text \<open>The bytes that reach user memory, the elements not copied, and the bytes reported.\<close>

definition kfifo_copy_to_user :: "uaccess \<Rightarrow> kfifo \<Rightarrow> u32 \<Rightarrow> u32 \<Rightarrow> byte list \<times> nat \<times> u32" where
  "kfifo_copy_to_user left f len off =
     (case kfifo_span f len off of (o', l, n) \<Rightarrow>
        let esize = unat (kf_esize f);
            ret1 = left 0 l;
            ret2 = left l (n - l);
            ret = (if ret1 \<noteq> 0 then DIV_ROUND_UP (ret1 + n - l) esize
                   else if ret2 \<noteq> 0 then DIV_ROUND_UP ret2 esize else 0)
        in (take (l - ret1) (drop o' (kf_data f)) @
              (if ret1 \<noteq> 0 then [] else take (n - l - ret2) (kf_data f)),
            ret, word_of_nat n - word_of_nat (ret * esize)))"

definition kfifo_to_user :: "uaccess \<Rightarrow> kfifo \<Rightarrow> nat \<Rightarrow> int \<times> u32 \<times> byte list \<times> kfifo" where
  "kfifo_to_user left f len0 =
     (let len1 = (if kf_esize f \<noteq> 1 then len0 div unat (kf_esize f) else len0);
          l = unat (kf_in f - kf_out f);
          len = (if len1 > l then l else len1)
      in case kfifo_copy_to_user left f (word_of_nat len) (kf_out f) of
           (dst, ret, copied) \<Rightarrow>
             (if ret \<noteq> 0 then - EFAULT else 0, copied, dst, f\<lparr>kf_out := kf_out f + word_of_nat (len - ret)\<rparr>))"

subsection \<open>Records\<close>

definition kfifo_max_r :: "u32 \<Rightarrow> nat \<Rightarrow> u32" where
  "kfifo_max_r len recsize =
     (let mx = push_bit (8 * recsize) 1 - 1 in if len > mx then mx else len)"

text \<open>\<^verbatim>\<open>__KFIFO_PEEK\<close> and \<^verbatim>\<open>__KFIFO_POKE\<close>.\<close>

definition kfifo_peek_byte :: "kfifo \<Rightarrow> u32 \<Rightarrow> byte" where
  "kfifo_peek_byte f out = kf_data f ! unat (out AND kf_mask f)"

definition kfifo_poke_byte :: "kfifo \<Rightarrow> u32 \<Rightarrow> u32 \<Rightarrow> kfifo" where
  "kfifo_poke_byte f i v = f\<lparr>kf_data := (kf_data f)[unat (i AND kf_mask f) := ucast v]\<rparr>"

definition kfifo_peek_n :: "kfifo \<Rightarrow> nat \<Rightarrow> u32" where
  "kfifo_peek_n f recsize =
     (let l = ucast (kfifo_peek_byte f (kf_out f)) :: u32
      in if recsize - 1 \<noteq> 0 then l OR push_bit 8 (ucast (kfifo_peek_byte f (kf_out f + 1))) else l)"

definition kfifo_poke_n :: "kfifo \<Rightarrow> u32 \<Rightarrow> nat \<Rightarrow> kfifo" where
  "kfifo_poke_n f n recsize =
     (let f1 = kfifo_poke_byte f (kf_in f) n
      in if recsize > 1 then kfifo_poke_byte f1 (kf_in f + 1) (drop_bit 8 n) else f1)"

definition kfifo_len_r :: "kfifo \<Rightarrow> nat \<Rightarrow> u32" where
  "kfifo_len_r f recsize = kfifo_peek_n f recsize"

definition kfifo_in_r :: "kfifo \<Rightarrow> byte list \<Rightarrow> u32 \<Rightarrow> nat \<Rightarrow> u32 \<times> kfifo" where
  "kfifo_in_r f buf len recsize =
     (if unat len + recsize > unat (kfifo_unused f) then (0, f)
      else
        let f1 = kfifo_poke_n f len recsize;
            f2 = kfifo_copy_in f1 buf len (kf_in f1 + word_of_nat recsize)
        in (len, f2\<lparr>kf_in := kf_in f2 + (len + word_of_nat recsize)\<rparr>))"

text \<open>The record's length, the length copied, and the bytes copied.\<close>

definition kfifo_out_copy_r :: "kfifo \<Rightarrow> u32 \<Rightarrow> nat \<Rightarrow> u32 \<times> u32 \<times> byte list" where
  "kfifo_out_copy_r f len0 recsize =
     (let n = kfifo_peek_n f recsize;
          len = (if len0 > n then n else len0)
      in (n, len, kfifo_copy_out f len (kf_out f + word_of_nat recsize)))"

definition kfifo_out_peek_r :: "kfifo \<Rightarrow> u32 \<Rightarrow> nat \<Rightarrow> u32 \<times> byte list" where
  "kfifo_out_peek_r f len0 recsize =
     (if kf_in f = kf_out f then (0, [])
      else case kfifo_out_copy_r f len0 recsize of (n, len, dst) \<Rightarrow> (len, dst))"

definition kfifo_out_r :: "kfifo \<Rightarrow> u32 \<Rightarrow> nat \<Rightarrow> u32 \<times> byte list \<times> kfifo" where
  "kfifo_out_r f len0 recsize =
     (if kf_in f = kf_out f then (0, [], f)
      else case kfifo_out_copy_r f len0 recsize of
             (n, len, dst) \<Rightarrow> (len, dst, f\<lparr>kf_out := kf_out f + (n + word_of_nat recsize)\<rparr>))"

definition kfifo_skip_r :: "kfifo \<Rightarrow> nat \<Rightarrow> kfifo" where
  "kfifo_skip_r f recsize = f\<lparr>kf_out := kf_out f + (kfifo_peek_n f recsize + word_of_nat recsize)\<rparr>"

definition kfifo_from_user_r :: "uaccess \<Rightarrow> kfifo \<Rightarrow> byte list \<Rightarrow> u32 \<Rightarrow> nat \<Rightarrow> int \<times> u32 \<times> kfifo" where
  "kfifo_from_user_r left f from len0 recsize =
     (let len = kfifo_max_r len0 recsize
      in if unat len + recsize > unat (kfifo_unused f) then (0, 0, f)
         else
           let f1 = kfifo_poke_n f len recsize
           in case kfifo_copy_from_user left f1 from len (kf_in f1 + word_of_nat recsize) of
                (ret, copied, f2) \<Rightarrow>
                  if ret \<noteq> 0 then (- EFAULT, 0, f2)
                  else (0, copied, f2\<lparr>kf_in := kf_in f2 + (len + word_of_nat recsize)\<rparr>))"

definition kfifo_to_user_r :: "uaccess \<Rightarrow> kfifo \<Rightarrow> u32 \<Rightarrow> nat \<Rightarrow> int \<times> u32 \<times> byte list \<times> kfifo" where
  "kfifo_to_user_r left f len0 recsize =
     (if kf_in f = kf_out f then (0, 0, [], f)
      else
        let n = kfifo_peek_n f recsize;
            len = (if len0 > n then n else len0)
        in case kfifo_copy_to_user left f len (kf_out f + word_of_nat recsize) of
             (dst, ret, copied) \<Rightarrow>
               if ret \<noteq> 0 then (- EFAULT, 0, dst, f)
               else (0, copied, dst, f\<lparr>kf_out := kf_out f + (n + word_of_nat recsize)\<rparr>))"

definition kfifo_dma_in_finish_r :: "kfifo \<Rightarrow> u32 \<Rightarrow> nat \<Rightarrow> kfifo" where
  "kfifo_dma_in_finish_r f len0 recsize =
     (let len = kfifo_max_r len0 recsize;
          f1 = kfifo_poke_n f len recsize
      in f1\<lparr>kf_in := kf_in f1 + (len + word_of_nat recsize)\<rparr>)"

definition kfifo_dma_out_finish_r :: "kfifo \<Rightarrow> nat \<Rightarrow> kfifo" where
  "kfifo_dma_out_finish_r f recsize = f\<lparr>kf_out := kf_out f + (kfifo_peek_n f recsize + word_of_nat recsize)\<rparr>"

definition kfifo_avail :: "kfifo \<Rightarrow> nat \<Rightarrow> u32" where
  "kfifo_avail f recsize =
     (let avail = kf_mask f + 1 - kfifo_len f
      in if recsize \<noteq> 0 then (if unat avail \<le> recsize then 0 else kfifo_max_r (avail - word_of_nat recsize) recsize)
         else avail)"

definition kfifo_skip :: "kfifo \<Rightarrow> nat \<Rightarrow> kfifo" where
  "kfifo_skip f recsize = (if recsize \<noteq> 0 then kfifo_skip_r f recsize else f\<lparr>kf_out := kf_out f + 1\<rparr>)"

text \<open>\<^verbatim>\<open>kfifo_put\<close> and \<^verbatim>\<open>kfifo_get\<close> without records: one element, stored by index.\<close>

definition kfifo_put :: "kfifo \<Rightarrow> byte list \<Rightarrow> u32 \<times> kfifo" where
  "kfifo_put f val =
     (if \<not> kfifo_is_full f then
        (1, f\<lparr>kf_data := memcpy_at (unat (kf_in f AND kf_mask f) * unat (kf_esize f)) val (kf_data f), kf_in := kf_in f + 1\<rparr>)
      else (0, f))"

definition kfifo_get :: "kfifo \<Rightarrow> u32 \<times> byte list \<times> kfifo" where
  "kfifo_get f =
     (if \<not> kfifo_is_empty f then
        (1, take (unat (kf_esize f)) (drop (unat (kf_out f AND kf_mask f) * unat (kf_esize f)) (kf_data f)),
         f\<lparr>kf_out := kf_out f + 1\<rparr>)
      else (0, [], f))"

subsection \<open>Scatter lists\<close>

text \<open>
  \<^verbatim>\<open>setup_sgl_buf\<close>. \<open>phys\<close> gives the physical address of a virtual page, by page number; an entry is a
  physical page, a length and an offset; \<open>room\<close> is the number of entries up to the end of the list.
\<close>

type_synonym sg_entry = "nat \<times> nat \<times> nat"

function setup_sgl_loop :: "(nat \<Rightarrow> nat) \<Rightarrow> nat \<Rightarrow> nat \<Rightarrow> nat \<Rightarrow> nat \<Rightarrow> nat \<Rightarrow> nat \<Rightarrow> nat \<Rightarrow> sg_entry list" where
  "setup_sgl_loop phys buf page off l len nents room =
     (if off < PAGE_SIZE \<and> len \<ge> l + PAGE_SIZE - off then
        if page + (l + PAGE_SIZE) \<noteq> phys ((buf + PAGE_SIZE) div PAGE_SIZE) then
          (page, l + PAGE_SIZE - off, off) #
            (if nents = 1 \<or> room = 1 then []
             else setup_sgl_loop phys (buf + PAGE_SIZE) (phys ((buf + PAGE_SIZE) div PAGE_SIZE)) 0 0
                    (len - (l + PAGE_SIZE - off)) (nents - 1) (room - 1))
        else setup_sgl_loop phys (buf + PAGE_SIZE) page off (l + PAGE_SIZE) len nents room
      else [(page, len, off)])"
  by pat_completeness auto
termination
  by (relation "measure (\<lambda>(phys, buf, page, off, l, len, nents, room). len + off - l)")
    (auto simp: PAGE_SIZE_def)

declare setup_sgl_loop.simps [simp del]

definition setup_sgl_buf :: "(nat \<Rightarrow> nat) \<Rightarrow> nat \<Rightarrow> nat \<Rightarrow> nat \<Rightarrow> nat \<Rightarrow> sg_entry list" where
  "setup_sgl_buf phys buf nents len room =
     (if nents = 0 then [] else if len = 0 then []
      else setup_sgl_loop phys buf (phys (buf div PAGE_SIZE)) (buf mod PAGE_SIZE) 0 len nents room)"

text \<open>\<open>data\<close> is the address of the buffer.\<close>

definition setup_sgl :: "(nat \<Rightarrow> nat) \<Rightarrow> nat \<Rightarrow> kfifo \<Rightarrow> nat \<Rightarrow> u32 \<Rightarrow> u32 \<Rightarrow> nat \<Rightarrow> sg_entry list" where
  "setup_sgl phys data f nents len off room =
     (case kfifo_span f len off of (o', l, n) \<Rightarrow>
        let es = setup_sgl_buf phys (data + o') nents l room
        in es @ setup_sgl_buf phys data (nents - length es) (n - l) (room - length es))"

definition kfifo_dma_in_prepare :: "(nat \<Rightarrow> nat) \<Rightarrow> nat \<Rightarrow> kfifo \<Rightarrow> nat \<Rightarrow> u32 \<Rightarrow> nat \<Rightarrow> sg_entry list" where
  "kfifo_dma_in_prepare phys data f nents len0 room =
     (let l = kfifo_unused f;
          len = (if len0 > l then l else len0)
      in setup_sgl phys data f nents len (kf_in f) room)"

definition kfifo_dma_out_prepare :: "(nat \<Rightarrow> nat) \<Rightarrow> nat \<Rightarrow> kfifo \<Rightarrow> nat \<Rightarrow> u32 \<Rightarrow> nat \<Rightarrow> sg_entry list" where
  "kfifo_dma_out_prepare phys data f nents len0 room =
     (let l = kf_in f - kf_out f;
          len = (if len0 > l then l else len0)
      in setup_sgl phys data f nents len (kf_out f) room)"

definition kfifo_dma_in_prepare_r :: "(nat \<Rightarrow> nat) \<Rightarrow> nat \<Rightarrow> kfifo \<Rightarrow> nat \<Rightarrow> u32 \<Rightarrow> nat \<Rightarrow> nat \<Rightarrow> sg_entry list outcome" where
  "kfifo_dma_in_prepare_r phys data f nents len0 room recsize =
     (if nents = 0 then Bug
      else
        let len = kfifo_max_r len0 recsize
        in if unat len + recsize > unat (kfifo_unused f) then Return []
           else Return (setup_sgl phys data f nents len (kf_in f + word_of_nat recsize) room))"

definition kfifo_dma_out_prepare_r :: "(nat \<Rightarrow> nat) \<Rightarrow> nat \<Rightarrow> kfifo \<Rightarrow> nat \<Rightarrow> u32 \<Rightarrow> nat \<Rightarrow> nat \<Rightarrow> sg_entry list outcome" where
  "kfifo_dma_out_prepare_r phys data f nents len0 room recsize =
     (if nents = 0 then Bug
      else
        let len = kfifo_max_r len0 recsize
        in if unat len + recsize > unat (kf_in f - kf_out f) then Return []
           else Return (setup_sgl phys data f nents len (kf_out f + word_of_nat recsize) room))"

end
