(* ===== verification/Kfifo_Inv.thy ===== *)
theory Kfifo_Inv
  imports Kfifo
begin

text \<open>
  The invariant of the FIFO and its abstraction. \<open>ring\<close> turns the buffer so that the oldest byte comes
  first; the queued bytes are a prefix of it. Reading and writing at a distance from the oldest byte
  are \<open>take\<close>, \<open>drop\<close> and \<open>append\<close> on the ring, with no wrap-around left.
\<close>

subsection \<open>Word arithmetic\<close>

lemma unat_and_mask: "unat (x AND mask k :: 'a::len word) = unat x mod 2 ^ k"
  unfolding take_bit_eq_mask [symmetric] unsigned_take_bit_eq by (rule take_bit_eq_mod)

lemma unat_mask32: "k < 32 \<Longrightarrow> unat (mask k :: u32) = 2 ^ k - 1"
  by (simp only: unat_eq_nat_uint uint_mask_eq) (simp add: min_def mask_eq_exp_minus_1 nat_diff_distrib nat_power_eq)

lemma unat_mult_lt: "unat x * unat y < 2 ^ 32 \<Longrightarrow> unat (x * y :: u32) = unat x * unat y"
  by (simp add: unat_mult_lem [THEN iffD1])

lemma unat_add_lt: "unat x + unat y < 2 ^ 32 \<Longrightarrow> unat (x + y :: u32) = unat x + unat y"
  by (simp add: unat_add_lem [THEN iffD1])

lemma pow_dvd_32: "k < 32 \<Longrightarrow> (2 :: nat) ^ k dvd 2 ^ 32"
  by (rule le_imp_power_dvd) simp

lemma unat_add_mod:
  assumes "k < 32"
  shows "unat (x + y :: u32) mod 2 ^ k = (unat x + unat y) mod 2 ^ k"
proof -
  have "unat (x + y) = (unat x + unat y) mod 2 ^ 32" by (simp add: unat_word_ariths)
  then show ?thesis using pow_dvd_32 [OF assms] by (simp add: mod_mod_cancel)
qed

subsection \<open>Rotations\<close>

lemma take_rotate:
  assumes "p \<le> length d" and "n \<le> length d"
  shows "take n (rotate p d) = take (min n (length d - p)) (drop p d) @ take (n - min n (length d - p)) d"
proof (cases "p = length d")
  case True
  then show ?thesis using assms by (simp add: rotate_drop_take)
next
  case False
  then have "rotate p d = drop p d @ take p d" using assms by (simp add: rotate_drop_take)
  then show ?thesis using assms by (auto simp: min_def)
qed

lemma rotate_inj_len: "rotate n xs = rotate n ys \<Longrightarrow> length xs = length ys \<Longrightarrow> xs = ys"
proof -
  assume eq: "rotate n xs = rotate n ys" and len: "length xs = length ys"
  let ?m = "n mod length ys"
  have "drop ?m xs @ take ?m xs = drop ?m ys @ take ?m ys" using eq len by (simp only: rotate_drop_take)
  then have "drop ?m xs = drop ?m ys" "take ?m xs = take ?m ys" using len by simp_all
  then show ?thesis by (metis append_take_drop_id)
qed

lemma split_at: "xs = ys @ zs \<Longrightarrow> length ys = p \<Longrightarrow> drop p xs = zs \<and> take p xs = ys"
  by auto

lemma length_memcpy_at [simp]: "off + length xs \<le> length d \<Longrightarrow> length (memcpy_at off xs d) = length d"
  by (simp add: memcpy_at_def)

text \<open>A write that may wrap, seen from the position it starts at.\<close>

definition ring_store :: "nat \<Rightarrow> 'a list \<Rightarrow> 'a list \<Rightarrow> 'a list" where
  "ring_store p xs d = memcpy_at 0 (drop (length d - p) xs) (memcpy_at p (take (length d - p) xs) d)"

lemma ring_store_rotate:
  assumes "p < length d" and "length xs \<le> length d"
  shows "length (ring_store p xs d) = length d" and "rotate p (ring_store p xs d) = xs @ drop (length xs) (rotate p d)"
proof -
  let ?A = "take p d" and ?B = "drop p d" and ?l = "length d - p"
  have rot: "rotate p d = ?B @ ?A" using assms by (simp add: rotate_drop_take)
  show len: "length (ring_store p xs d) = length d" using assms by (simp add: ring_store_def memcpy_at_def)
  then have r: "rotate p (ring_store p xs d) = drop p (ring_store p xs d) @ take p (ring_store p xs d)"
    using assms by (simp add: rotate_drop_take)
  show "rotate p (ring_store p xs d) = xs @ drop (length xs) (rotate p d)"
  proof (cases "length xs \<le> ?l")
    case True
    then have "ring_store p xs d = ?A @ xs @ drop (p + length xs) d"
      by (simp add: ring_store_def memcpy_at_def)
    then show ?thesis using True assms unfolding r rot by (simp add: add.commute)
  next
    case False
    then have "ring_store p xs d = drop ?l xs @ drop (length xs - ?l) ?A @ take ?l xs"
      using assms by (simp add: ring_store_def memcpy_at_def)
    moreover have "length (drop ?l xs @ drop (length xs - ?l) ?A) = p" using False assms by simp
    ultimately have "drop p (ring_store p xs d) = take ?l xs" "take p (ring_store p xs d) = drop ?l xs @ drop (length xs - ?l) ?A"
      using split_at [of "ring_store p xs d" "drop ?l xs @ drop (length xs - ?l) ?A" "take ?l xs" p]
      unfolding append.assoc by blast+
    then show ?thesis using False assms unfolding r rot by simp
  qed
qed

text \<open>The same write, seen from a position \<open>u\<close> before it.\<close>

lemma ring_store_shift:
  assumes q: "q = (p + u) mod length d" and pd: "p < length d" and fit: "u + length xs \<le> length d"
  shows "rotate p (ring_store q xs d) = take u (rotate p d) @ xs @ drop (u + length xs) (rotate p d)"
proof (cases "u = length d")
  case True
  then have "xs = []" "q = p" using fit q pd by simp_all
  then show ?thesis using pd True by (simp add: ring_store_def memcpy_at_def)
next
  case False
  then have ul: "u < length d" using fit by simp
  let ?R = "rotate p d" and ?d = "ring_store q xs d"
  have ql: "q < length d" unfolding q by (rule mod_less_divisor) (use pd in linarith)
  note st = ring_store_rotate [OF ql, of xs]
  have lx: "length xs \<le> length d" using fit by simp
  have "rotate q d = rotate (u + p) d" using q rotate_conv_mod [of "u + p" d] by (simp add: add.commute)
  then have rq: "rotate q d = rotate u ?R" by (simp add: rotate_rotate)
  have "rotate q ?d = rotate (u + p) ?d" using q rotate_conv_mod [of "u + p" ?d] st(1) [OF lx] by (simp add: add.commute)
  then have "rotate u (rotate p ?d) = xs @ drop (length xs) (rotate u ?R)"
    using st(2) [OF lx] rq by (simp add: rotate_rotate)
  also have "rotate u ?R = drop u ?R @ take u ?R" using ul by (simp add: rotate_drop_take)
  also have "xs @ drop (length xs) (drop u ?R @ take u ?R) = xs @ drop (u + length xs) ?R @ take u ?R"
    using fit by (simp add: add.commute)
  also have "\<dots> = rotate u (take u ?R @ xs @ drop (u + length xs) ?R)"
    using rotate_append [of "take u ?R" "xs @ drop (u + length xs) ?R"] ul by simp
  finally show ?thesis
    by (rule rotate_inj_len) (use fit st(1) [OF lx] in simp)
qed

subsection \<open>Invariant and abstraction\<close>

definition fifo_size :: "kfifo \<Rightarrow> nat" where "fifo_size f = Suc (unat (kf_mask f))"

abbreviation esz :: "kfifo \<Rightarrow> nat" where "esz f \<equiv> unat (kf_esize f)"

text \<open>The shape: a power of two many elements, and a buffer of exactly that size.\<close>

definition kfifo_shape :: "kfifo \<Rightarrow> bool" where
  "kfifo_shape f \<longleftrightarrow> (\<exists>k < 32. kf_mask f = mask k) \<and> 0 < esz f \<and> fifo_size f * esz f < 2 ^ 32 \<and>
     length (kf_data f) = fifo_size f * esz f"

definition used :: "kfifo \<Rightarrow> nat" where "used f = unat (kf_in f - kf_out f)"

definition kfifo_inv :: "kfifo \<Rightarrow> bool" where
  "kfifo_inv f \<longleftrightarrow> kfifo_shape f \<and> used f \<le> fifo_size f"

definition ring :: "kfifo \<Rightarrow> byte list" where
  "ring f = rotate (unat (kf_out f AND kf_mask f) * esz f) (kf_data f)"

definition content :: "kfifo \<Rightarrow> byte list" where
  "content f = take (used f * esz f) (ring f)"

lemma length_ring [simp]: "length (ring f) = length (kf_data f)"
  by (simp add: ring_def)

lemma shape_pow:
  assumes "kfifo_shape f"
  obtains k where "k < 32" "kf_mask f = mask k" "fifo_size f = 2 ^ k" "\<And>x. unat (x AND kf_mask f) = unat x mod fifo_size f"
proof -
  obtain k where k: "k < 32" "kf_mask f = mask k" using assms by (auto simp: kfifo_shape_def)
  have "fifo_size f = 2 ^ k" using k by (simp add: fifo_size_def unat_mask32)
  with k show thesis by (intro that) (auto simp: unat_and_mask)
qed

lemma shape_pos: "kfifo_shape f \<Longrightarrow> 0 < fifo_size f" "kfifo_shape f \<Longrightarrow> 0 < esz f"
  by (simp_all add: kfifo_shape_def fifo_size_def)

lemma offset_lt: "kfifo_shape f \<Longrightarrow> unat (off AND kf_mask f) < fifo_size f"
proof -
  assume s: "kfifo_shape f"
  then obtain k where "\<And>x. unat (x AND kf_mask f) = unat x mod fifo_size f" using shape_pow by metis
  then show ?thesis using shape_pos(1) [OF s] by simp
qed

lemma fifo_size_lt: "kfifo_shape f \<Longrightarrow> fifo_size f < 2 ^ 32"
  using mult_le_mono2 [of 1 "esz f" "fifo_size f"] unfolding kfifo_shape_def by linarith

lemma size_word: "kfifo_shape f \<Longrightarrow> unat (kf_mask f + 1) = fifo_size f"
  using fifo_size_lt [of f] unat_add_lt [of "kf_mask f" 1] by (simp add: fifo_size_def)

lemma unused_eq:
  assumes "kfifo_inv f"
  shows "unat (kfifo_unused f) = fifo_size f - used f"
proof -
  have "kf_in f - kf_out f \<le> kf_mask f + 1"
    using assms size_word [of f] by (simp add: word_le_nat_alt kfifo_inv_def used_def)
  then show ?thesis
    using assms size_word [of f] by (simp add: kfifo_unused_def unat_sub kfifo_inv_def used_def)
qed

lemma kfifo_span_eq:
  assumes s: "kfifo_shape f" and len: "unat len \<le> fifo_size f"
  shows "kfifo_span f len off =
    (unat (off AND kf_mask f) * esz f,
     min (unat len * esz f) (length (kf_data f) - unat (off AND kf_mask f) * esz f), unat len * esz f)"
proof -
  let ?o = "off AND kf_mask f"
  have sz: "fifo_size f * esz f < 2 ^ 32" "length (kf_data f) = fifo_size f * esz f" using s by (simp_all add: kfifo_shape_def)
  have o: "unat ?o < fifo_size f" by (rule offset_lt [OF s])
  then have ol: "unat ?o * esz f \<le> fifo_size f * esz f" "unat len * esz f \<le> fifo_size f * esz f" using len by simp_all
  let ?off = "if kf_esize f \<noteq> 1 then ?o * kf_esize f else ?o"
    and ?size = "if kf_esize f \<noteq> 1 then (kf_mask f + 1) * kf_esize f else kf_mask f + 1"
    and ?len = "if kf_esize f \<noteq> 1 then len * kf_esize f else len"
  have 1: "unat ?off = unat ?o * esz f"
    using unat_mult_lt [of ?o "kf_esize f", OF le_less_trans [OF ol(1) sz(1)]] by simp
  have 2: "unat ?size = fifo_size f * esz f"
    using unat_mult_lt [of "kf_mask f + 1" "kf_esize f"] sz(1) size_word [OF s] by simp
  have 3: "unat ?len = unat len * esz f"
    using unat_mult_lt [of len "kf_esize f", OF le_less_trans [OF ol(2) sz(1)]] by simp
  have "?off \<le> ?size" unfolding word_le_nat_alt 1 2 by (rule ol(1))
  then have 4: "unat (?size - ?off) = fifo_size f * esz f - unat ?o * esz f" using 1 2 by (simp only: unat_sub)
  have "unat (min ?len (?size - ?off)) = min (unat ?len) (unat (?size - ?off))"
    by (simp only: min_def word_le_nat_alt if_distrib [of unat])
  then show ?thesis unfolding kfifo_span_def Let_def 1 3 sz(2) using 4 3 by simp
qed

text \<open>Positions are counted from the oldest element.\<close>

lemma ring_position:
  assumes s: "kfifo_shape f"
  shows "unat ((kf_out f + w) AND kf_mask f) * esz f =
    (unat (kf_out f AND kf_mask f) * esz f + unat w * esz f) mod length (kf_data f)"
    and "unat (kf_out f AND kf_mask f) * esz f < length (kf_data f)"
proof -
  obtain k where k: "k < 32" "fifo_size f = 2 ^ k" "\<And>x. unat (x AND kf_mask f) = unat x mod fifo_size f"
    using shape_pow [OF s] by metis
  have sz: "length (kf_data f) = fifo_size f * esz f" using s by (simp add: kfifo_shape_def)
  have "unat (kf_out f + w) mod fifo_size f = (unat (kf_out f) mod fifo_size f + unat w) mod fifo_size f"
    using unat_add_mod [OF k(1)] k(2) by (simp add: mod_add_left_eq)
  then show "unat ((kf_out f + w) AND kf_mask f) * esz f =
      (unat (kf_out f AND kf_mask f) * esz f + unat w * esz f) mod length (kf_data f)"
    unfolding k(3) sz distrib_right [symmetric] by (simp only: mult_mod_left)
  show "unat (kf_out f AND kf_mask f) * esz f < length (kf_data f)"
    using shape_pos [OF s] by (simp add: k(3) sz)
qed

lemma copy_out_ring:
  assumes s: "kfifo_shape f" and fit: "unat w + unat len \<le> fifo_size f"
  shows "kfifo_copy_out f len (kf_out f + w) = take (unat len * esz f) (drop (unat w * esz f) (ring f))"
proof -
  let ?p = "unat (kf_out f AND kf_mask f) * esz f" and ?u = "unat w * esz f" and ?n = "unat len * esz f" and ?d = "kf_data f"
  define q where "q = (?p + ?u) mod length ?d"
  have lenle: "unat len \<le> fifo_size f" using fit by simp
  have ld: "length ?d = fifo_size f * esz f" using s by (simp add: kfifo_shape_def)
  have un: "?u + ?n \<le> length ?d" using mult_le_mono1 [OF fit, of "esz f"] by (simp add: ld distrib_right)
  have ql: "q < length ?d" unfolding q_def by (rule mod_less_divisor) (use ring_position(2) [OF s] in linarith)
  have "kfifo_copy_out f len (kf_out f + w) = take ?n (rotate q ?d)"
    unfolding kfifo_copy_out_def kfifo_span_eq [OF s lenle] ring_position(1) [OF s] q_def [symmetric]
    using take_rotate [of q ?d ?n] ql un by simp
  also have "rotate q ?d = rotate ?u (ring f)"
    using rotate_conv_mod [of "?u + ?p" ?d] by (simp add: q_def ring_def rotate_rotate add.commute)
  also have "take ?n (rotate ?u (ring f)) = take ?n (drop ?u (ring f))"
  proof (cases "?u = length ?d")
    case True
    then have "?n = 0" using un by simp
    then show ?thesis by (simp only: take0)
  next
    case False
    then have "rotate ?u (ring f) = drop ?u (ring f) @ take ?u (ring f)"
      using un by (simp add: rotate_drop_take)
    then show ?thesis using un by simp
  qed
  finally show ?thesis .
qed

lemma copy_in_ring:
  assumes s: "kfifo_shape f" and fit: "unat w + unat len \<le> fifo_size f" and src: "unat len * esz f \<le> length src"
  shows "ring (kfifo_copy_in f src len (kf_out f + w)) =
      take (unat w * esz f) (ring f) @ take (unat len * esz f) src @ drop ((unat w + unat len) * esz f) (ring f)"
    and "kfifo_shape (kfifo_copy_in f src len (kf_out f + w))"
    and "kfifo_copy_in f src len (kf_out f + w) = f\<lparr>kf_data := kf_data (kfifo_copy_in f src len (kf_out f + w))\<rparr>"
proof -
  let ?p = "unat (kf_out f AND kf_mask f) * esz f" and ?u = "unat w * esz f" and ?n = "unat len * esz f" and ?d = "kf_data f"
  define q where "q = (?p + ?u) mod length ?d"
  have lenle: "unat len \<le> fifo_size f" using fit by simp
  have ld: "length ?d = fifo_size f * esz f" using s by (simp add: kfifo_shape_def)
  have un: "?u + ?n \<le> length ?d" using mult_le_mono1 [OF fit, of "esz f"] by (simp add: ld distrib_right)
  have ql: "q < length ?d" unfolding q_def by (rule mod_less_divisor) (use ring_position(2) [OF s] in linarith)
  have "take (?n - min ?n (length ?d - q)) (drop (min ?n (length ?d - q)) src) = drop (length ?d - q) (take ?n src)"
    "take (min ?n (length ?d - q)) src = take (length ?d - q) (take ?n src)"
    by (auto simp: min_def drop_take)
  then have run: "kfifo_copy_in f src len (kf_out f + w) = f\<lparr>kf_data := ring_store q (take ?n src) ?d\<rparr>"
    unfolding kfifo_copy_in_def kfifo_span_eq [OF s lenle] ring_position(1) [OF s] q_def [symmetric] ring_store_def prod.case
    by simp
  show "kfifo_copy_in f src len (kf_out f + w) = f\<lparr>kf_data := kf_data (kfifo_copy_in f src len (kf_out f + w))\<rparr>"
    by (simp add: run)
  have lx: "length (take ?n src) = ?n" using src by simp
  show "ring (kfifo_copy_in f src len (kf_out f + w)) =
      take ?u (ring f) @ take ?n src @ drop ((unat w + unat len) * esz f) (ring f)"
    using ring_store_shift [OF q_def ring_position(2) [OF s], of "take ?n src"] un lx
    by (simp add: run ring_def distrib_right)
  show "kfifo_shape (kfifo_copy_in f src len (kf_out f + w))"
    using s ring_store_rotate(1) [OF ql, of "take ?n src"] un lx by (simp add: run kfifo_shape_def fifo_size_def)
qed

end
