(* ===== verification/Kfifo_Ops.thy ===== *)
theory Kfifo_Ops
  imports Kfifo_Inv
begin

text \<open>
  Each operation of the FIFO on the queued bytes, and the contract the three kinds of transfer share: a
  stream that hands out what it accepted, in order.
\<close>

subsection \<open>The stream contract\<close>

text \<open>
  \<open>put c\<close> offers items and returns those accepted; \<open>get d\<close> returns the items it took. A run is a sequence
  of both.
\<close>

fun stream_run :: "('c \<Rightarrow> 'f \<Rightarrow> 'b list \<times> 'f) \<Rightarrow> ('d \<Rightarrow> 'f \<Rightarrow> 'b list \<times> 'f) \<Rightarrow> ('c + 'd) list \<Rightarrow> 'f \<Rightarrow>
    'b list \<times> 'b list \<times> 'f" where
  "stream_run put get [] f = ([], [], f)"
| "stream_run put get (Inl c # ops) f =
     (case put c f of (xs, f1) \<Rightarrow> case stream_run put get ops f1 of (ins, outs, f2) \<Rightarrow> (xs @ ins, outs, f2))"
| "stream_run put get (Inr d # ops) f =
     (case get d f of (ys, f1) \<Rightarrow> case stream_run put get ops f1 of (ins, outs, f2) \<Rightarrow> (ins, ys @ outs, f2))"

locale stream =
  fixes inv :: "'f \<Rightarrow> bool" and queue :: "'f \<Rightarrow> 'b list"
    and put :: "'c \<Rightarrow> 'f \<Rightarrow> 'b list \<times> 'f" and get :: "'d \<Rightarrow> 'f \<Rightarrow> 'b list \<times> 'f"
    and offer :: "'c \<Rightarrow> bool" and ask :: "'d \<Rightarrow> bool"
  assumes put_law: "inv f \<Longrightarrow> offer c \<Longrightarrow> put c f = (xs, f') \<Longrightarrow> inv f' \<and> queue f' = queue f @ xs"
    and get_law: "inv f \<Longrightarrow> ask d \<Longrightarrow> get d f = (ys, f') \<Longrightarrow> inv f' \<and> queue f = ys @ queue f'"
begin

text \<open>What went in, after what was there, is what came out, before what is still there.\<close>

lemma run_order:
  assumes "stream_run put get ops f = (ins, outs, f')" and "inv f"
    and "\<forall>op \<in> set ops. case op of Inl c \<Rightarrow> offer c | Inr d \<Rightarrow> ask d"
  shows "inv f' \<and> queue f @ ins = outs @ queue f'"
  using assms
proof (induction ops arbitrary: f ins outs f')
  case (Cons op ops)
  show ?case
  proof (cases op)
    case (Inl c)
    obtain xs f1 where p: "put c f = (xs, f1)" by fastforce
    obtain i o' f2 where r: "stream_run put get ops f1 = (i, o', f2)" using prod_cases3 by blast
    have "inv f1 \<and> queue f1 = queue f @ xs" using put_law [OF Cons.prems(2) _ p] Cons.prems(3) Inl by simp
    moreover from this have "inv f2 \<and> queue f1 @ i = o' @ queue f2" using Cons.IH [OF r] Cons.prems(3) by simp
    ultimately show ?thesis using Cons.prems(1) by (simp add: Inl p r)
  next
    case (Inr d)
    obtain ys f1 where p: "get d f = (ys, f1)" by fastforce
    obtain i o' f2 where r: "stream_run put get ops f1 = (i, o', f2)" using prod_cases3 by blast
    have "inv f1 \<and> queue f = ys @ queue f1" using get_law [OF Cons.prems(2) _ p] Cons.prems(3) Inr by simp
    moreover from this have "inv f2 \<and> queue f1 @ i = o' @ queue f2" using Cons.IH [OF r] Cons.prems(3) by simp
    ultimately show ?thesis using Cons.prems(1) by (auto simp: Inr p r)
  qed
qed simp

end

subsection \<open>Plain transfers\<close>

lemma in_as_out: "kf_in f = kf_out f + word_of_nat (used f)"
  by (simp add: used_def)

lemma used_le: "unat (word_of_nat (used f) :: u32) = used f"
  by (simp add: used_def)

text \<open>Advancing the write index by \<open>len\<close> elements after they were stored behind the queued ones.\<close>

lemma advance_in:
  assumes inv: "kfifo_inv f" and shape: "kfifo_shape g" and same: "g = f\<lparr>kf_data := kf_data g\<rparr>"
    and ring: "ring g = take (used f * esz f) (ring f) @ xs @ rest" and len: "length xs = unat n * esz f"
    and fit: "used f + unat n \<le> fifo_size f"
  shows "kfifo_inv (g\<lparr>kf_in := kf_in g + n\<rparr>)" and "content (g\<lparr>kf_in := kf_in g + n\<rparr>) = content f @ xs"
    and "fifo_size (g\<lparr>kf_in := kf_in g + n\<rparr>) = fifo_size f" and "kf_esize (g\<lparr>kf_in := kf_in g + n\<rparr>) = kf_esize f"
proof -
  let ?h = "g\<lparr>kf_in := kf_in g + n\<rparr>"
  have eq: "kf_in g = kf_in f" "kf_out g = kf_out f" "kf_mask g = kf_mask f" "kf_esize g = kf_esize f"
    using arg_cong [OF same, of kf_in] arg_cong [OF same, of kf_out] arg_cong [OF same, of kf_mask] arg_cong [OF same, of kf_esize]
    by simp_all
  have "unat ((kf_in f - kf_out f) + n) = used f + unat n"
    using unat_add_lt [of "kf_in f - kf_out f" n] fit fifo_size_lt [of f] inv by (simp add: used_def kfifo_inv_def)
  then have us: "used ?h = used f + unat n" by (simp add: used_def eq algebra_simps)
  show "fifo_size ?h = fifo_size f" "kf_esize ?h = kf_esize f" by (simp_all add: fifo_size_def eq)
  have "kfifo_shape ?h" using shape by (simp add: kfifo_shape_def fifo_size_def)
  then show "kfifo_inv ?h" using us fit by (simp add: kfifo_inv_def fifo_size_def eq)
  have "used f * esz f \<le> length (ring f)" using inv by (simp add: kfifo_inv_def kfifo_shape_def)
  moreover have "ring ?h = ring g" by (simp add: ring_def)
  moreover have "kf_esize ?h = kf_esize f" by (simp add: eq)
  ultimately show "content ?h = content f @ xs"
    unfolding content_def us distrib_right using ring len by simp
qed

text \<open>Advancing the read index by \<open>len\<close> queued elements.\<close>

lemma advance_out:
  assumes inv: "kfifo_inv f" and fit: "unat n \<le> used f"
  shows "kfifo_inv (f\<lparr>kf_out := kf_out f + n\<rparr>)" and "content (f\<lparr>kf_out := kf_out f + n\<rparr>) = drop (unat n * esz f) (content f)"
    and "fifo_size (f\<lparr>kf_out := kf_out f + n\<rparr>) = fifo_size f"
proof -
  let ?g = "f\<lparr>kf_out := kf_out f + n\<rparr>"
  have s: "kfifo_shape f" and uf: "used f \<le> fifo_size f" using inv by (simp_all add: kfifo_inv_def)
  have "n \<le> kf_in f - kf_out f" using fit by (simp add: word_le_nat_alt used_def)
  then have us: "used ?g = used f - unat n" by (simp add: used_def unat_sub diff_diff_eq [symmetric])
  have sg: "kfifo_shape ?g" using s by (simp add: kfifo_shape_def fifo_size_def)
  then show "kfifo_inv ?g" using us uf by (simp add: kfifo_inv_def fifo_size_def)
  show "fifo_size ?g = fifo_size f" by (simp add: fifo_size_def)
  let ?p = "unat (kf_out f AND kf_mask f) * esz f" and ?u = "unat n * esz f"
  have "ring ?g = rotate ((?p + ?u) mod length (kf_data f)) (kf_data f)"
    using ring_position(1) [OF s, of n] by (simp add: ring_def)
  also have "\<dots> = rotate (?u + ?p) (kf_data f)" using rotate_conv_mod [of "?p + ?u" "kf_data f"] by (simp add: add.commute)
  also have "\<dots> = rotate ?u (ring f)" by (simp add: ring_def rotate_rotate)
  finally have rg: "ring ?g = rotate ?u (ring f)" .
  have le: "used f * esz f \<le> length (ring f)" "?u \<le> used f * esz f" using inv fit by (simp_all add: kfifo_inv_def kfifo_shape_def)
  have "take (used f * esz f - ?u) (rotate ?u (ring f)) = take (used f * esz f - ?u) (drop ?u (ring f))"
  proof (cases "?u = length (ring f)")
    case False
    then have ul: "?u < length (ring f)" using le by linarith
    then have "rotate ?u (ring f) = drop ?u (ring f) @ take ?u (ring f)" by (simp only: rotate_drop_take mod_less)
    moreover have "used f * esz f - ?u \<le> length (drop ?u (ring f))" using le by simp
    ultimately show ?thesis by (simp only: take_append) simp
  next
    case True
    then have "used f * esz f - ?u = 0" using le by linarith
    then show ?thesis by (simp only: take0)
  qed
  then show "content ?g = drop ?u (content f)"
    by (simp add: content_def us rg diff_mult_distrib drop_take)
qed

text \<open>\<^verbatim>\<open>__kfifo_in\<close> appends as many elements as fit.\<close>

lemma kfifo_in_ok:
  assumes inv: "kfifo_inv f" and buf: "unat len * esz f \<le> length buf" and run: "kfifo_in f buf len = (n, f')"
  shows "kfifo_inv f'" and "content f' = content f @ take (unat n * esz f) buf"
    and "unat n = min (unat len) (fifo_size f - used f)" and "fifo_size f' = fifo_size f" and "kf_esize f' = kf_esize f"
proof -
  let ?g = "kfifo_copy_in f buf n (kf_in f)"
  have n: "n = (if len > kfifo_unused f then kfifo_unused f else len)" and f': "f' = ?g\<lparr>kf_in := kf_in ?g + n\<rparr>"
    using run by (auto simp: kfifo_in_def Let_def)
  show un: "unat n = min (unat len) (fifo_size f - used f)"
    using unused_eq [OF inv] by (auto simp: n word_less_nat_alt min_def)
  have s: "kfifo_shape f" and fit: "used f + unat n \<le> fifo_size f" using inv un by (auto simp: kfifo_inv_def min_def)
  have nb: "unat n * esz f \<le> length buf" using buf mult_le_mono1 [of "unat n" "unat len" "esz f"] un by linarith
  let ?w = "word_of_nat (used f) :: u32"
  have w: "unat ?w = used f" by (rule used_le)
  have c: "ring ?g = take (used f * esz f) (ring f) @ take (unat n * esz f) buf @ drop ((used f + unat n) * esz f) (ring f)"
      "kfifo_shape ?g" "?g = f\<lparr>kf_data := kf_data ?g\<rparr>"
    using copy_in_ring [OF s, of ?w n buf] fit nb unfolding in_as_out [symmetric] w by simp_all
  have l: "length (take (unat n * esz f) buf) = unat n * esz f" using nb by simp
  note a = advance_in [OF inv c(2,3,1) l fit]
  show "kfifo_inv f'" "content f' = content f @ take (unat n * esz f) buf" "fifo_size f' = fifo_size f" "kf_esize f' = kf_esize f"
    using a unfolding f' by simp_all
qed

text \<open>\<^verbatim>\<open>__kfifo_out\<close> removes as many elements as are there.\<close>

lemma kfifo_out_ok:
  assumes inv: "kfifo_inv f" and run: "kfifo_out f len = (n, dst, f')"
  shows "kfifo_inv f'" and "content f = dst @ content f'" and "unat n = min (unat len) (used f)"
    and "length dst = unat n * esz f" and "fifo_size f' = fifo_size f" and "kf_esize f' = kf_esize f"
    and "kfifo_out_peek f len = (n, dst)"
proof -
  have n: "n = (if len > kf_in f - kf_out f then kf_in f - kf_out f else len)" and dst: "dst = kfifo_copy_out f n (kf_out f)"
    and f': "f' = f\<lparr>kf_out := kf_out f + n\<rparr>"
    using run by (auto simp: kfifo_out_def kfifo_out_peek_def Let_def)
  show un: "unat n = min (unat len) (used f)" by (auto simp: n word_less_nat_alt min_def used_def)
  have s: "kfifo_shape f" and uf: "used f \<le> fifo_size f" using inv by (simp_all add: kfifo_inv_def)
  have "dst = take (unat n * esz f) (ring f)"
    using copy_out_ring [OF s, of 0 n] un uf by (simp add: dst)
  moreover have le: "unat n * esz f \<le> used f * esz f" using un by simp
  ultimately have d: "dst = take (unat n * esz f) (content f)" by (simp add: content_def min_absorb1)
  have "unat n \<le> used f" using un by simp
  note a = advance_out [OF inv this]
  show "kfifo_inv f'" "content f = dst @ content f'" "fifo_size f' = fifo_size f" using a by (simp_all add: f' d)
  show "kf_esize f' = kf_esize f" by (simp add: f')
  have "used f * esz f \<le> length (ring f)" using inv by (simp add: kfifo_inv_def kfifo_shape_def)
  then have "length (content f) = used f * esz f" by (simp add: content_def)
  then show "length dst = unat n * esz f" unfolding d length_take using le by linarith
  show "kfifo_out_peek f len = (n, dst)" using run by (auto simp: kfifo_out_def split: prod.splits)
qed

subsection \<open>Single elements\<close>

text \<open>The indexed store and load of \<^verbatim>\<open>kfifo_put\<close> and \<^verbatim>\<open>kfifo_get\<close> are transfers of one element.\<close>

lemma kfifo_copy_in_one:
  assumes s: "kfifo_shape f" and val: "length val = esz f"
  shows "kfifo_copy_in f val 1 off = f\<lparr>kf_data := memcpy_at (unat (off AND kf_mask f) * esz f) val (kf_data f)\<rparr>"
proof -
  have sz: "length (kf_data f) = fifo_size f * esz f" using s by (simp add: kfifo_shape_def)
  have "Suc (unat (off AND kf_mask f)) * esz f \<le> fifo_size f * esz f"
    using offset_lt [OF s, of off] by (intro mult_le_mono1) simp
  then have le: "esz f \<le> length (kf_data f) - unat (off AND kf_mask f) * esz f" by (simp add: sz)
  have one: "unat (1 :: u32) \<le> fifo_size f" using shape_pos(1) [OF s] by simp
  show ?thesis
    unfolding kfifo_copy_in_def kfifo_span_eq [OF s one] using le val by (simp add: memcpy_at_def [of 0])
qed

lemma kfifo_copy_out_one:
  assumes s: "kfifo_shape f"
  shows "kfifo_copy_out f 1 off = take (esz f) (drop (unat (off AND kf_mask f) * esz f) (kf_data f))"
proof -
  have sz: "length (kf_data f) = fifo_size f * esz f" using s by (simp add: kfifo_shape_def)
  have "Suc (unat (off AND kf_mask f)) * esz f \<le> fifo_size f * esz f"
    using offset_lt [OF s, of off] by (intro mult_le_mono1) simp
  then have le: "esz f \<le> length (kf_data f) - unat (off AND kf_mask f) * esz f" by (simp add: sz)
  have one: "unat (1 :: u32) \<le> fifo_size f" using shape_pos(1) [OF s] by simp
  show ?thesis
    unfolding kfifo_copy_out_def kfifo_span_eq [OF s one] using le by simp
qed

lemma full_unused:
  assumes "kfifo_inv f"
  shows "kfifo_is_full f \<longleftrightarrow> kfifo_unused f = 0"
proof -
  have "kfifo_is_full f \<longleftrightarrow> used f = fifo_size f"
    using assms by (auto simp: kfifo_is_full_def kfifo_len_def word_less_nat_alt fifo_size_def used_def kfifo_inv_def)
  moreover have "kfifo_unused f = 0 \<longleftrightarrow> fifo_size f - used f = 0" unfolding unused_eq [OF assms, symmetric] by (rule unat_eq_zero [symmetric])
  ultimately show ?thesis using assms by (auto simp: kfifo_inv_def)
qed

lemma kfifo_put_in:
  assumes inv: "kfifo_inv f" and val: "length val = esz f"
  shows "kfifo_put f val = kfifo_in f val 1"
proof (cases "kfifo_is_full f")
  case True
  have s: "kfifo_shape f" using inv by (simp add: kfifo_inv_def)
  have z: "kfifo_span f 0 off = (unat (off AND kf_mask f) * esz f, 0, 0)" for off using kfifo_span_eq [OF s, of 0 off] by simp
  have "kfifo_copy_in f val 0 (kf_in f) = f"
    unfolding kfifo_copy_in_def z by (simp add: memcpy_at_def)
  then show ?thesis using True full_unused [OF inv] by (simp add: kfifo_put_def kfifo_in_def)
next
  case False
  have s: "kfifo_shape f" using inv by (simp add: kfifo_inv_def)
  have "\<not> 1 > kfifo_unused f" using False full_unused [OF inv] by (simp add: word_less_nat_alt unat_eq_zero)
  then show ?thesis
    using False kfifo_copy_in_one [OF s val, of "kf_in f"] by (simp add: kfifo_put_def kfifo_in_def)
qed

lemma kfifo_get_out:
  assumes inv: "kfifo_inv f"
  shows "kfifo_get f = kfifo_out f 1"
proof (cases "kfifo_is_empty f")
  case True
  have s: "kfifo_shape f" using inv by (simp add: kfifo_inv_def)
  have z: "kfifo_span f 0 off = (unat (off AND kf_mask f) * esz f, 0, 0)" for off using kfifo_span_eq [OF s, of 0 off] by simp
  then show ?thesis using True
    by (simp add: kfifo_get_def kfifo_out_def kfifo_out_peek_def kfifo_is_empty_def kfifo_copy_out_def Let_def)
next
  case False
  have s: "kfifo_shape f" using inv by (simp add: kfifo_inv_def)
  have "\<not> 1 > kf_in f - kf_out f" using False by (simp add: word_less_nat_alt unat_eq_zero kfifo_is_empty_def)
  then show ?thesis using False kfifo_copy_out_one [OF s, of "kf_out f"]
    by (simp add: kfifo_get_def kfifo_out_def kfifo_out_peek_def Let_def)
qed

subsection \<open>Transfers with user memory\<close>

text \<open>A user copy leaves at most all of its bytes undone.\<close>

definition uaccess_ok :: "uaccess \<Rightarrow> bool" where
  "uaccess_ok left \<longleftrightarrow> (\<forall>o' n. left o' n \<le> n)"

text \<open>The number of elements not copied, from the bytes left by the two parts of the copy.\<close>

definition user_ret :: "uaccess \<Rightarrow> nat \<Rightarrow> nat \<Rightarrow> nat \<Rightarrow> nat" where
  "user_ret left l n e = (if left 0 l \<noteq> 0 then DIV_ROUND_UP (left 0 l + n - l) e
     else if left l (n - l) \<noteq> 0 then DIV_ROUND_UP (left l (n - l)) e else 0)"

lemma DIV_ROUND_UP_bounds:
  assumes "0 < e"
  shows "n \<le> DIV_ROUND_UP n e * e" and "n \<le> m * e \<Longrightarrow> DIV_ROUND_UP n e \<le> m" and "0 < n \<Longrightarrow> 0 < DIV_ROUND_UP n e"
proof -
  have "(n + e - 1) div e * e + (n + e - 1) mod e = n + e - 1" by simp
  moreover have "(n + e - 1) mod e < e" using assms by simp
  ultimately show 1: "n \<le> DIV_ROUND_UP n e * e" unfolding DIV_ROUND_UP_def by linarith
  show "0 < DIV_ROUND_UP n e" if "0 < n" using 1 that by (cases "DIV_ROUND_UP n e") simp_all
  assume "n \<le> m * e"
  then have "n + e - 1 < Suc m * e" using assms by simp
  then have "DIV_ROUND_UP n e < Suc m" unfolding DIV_ROUND_UP_def by (rule less_mult_imp_div_less)
  then show "DIV_ROUND_UP n e \<le> m" by simp
qed

lemma user_ret_bounds:
  assumes ok: "uaccess_ok left" and e: "0 < e" and l: "l \<le> m * e"
  shows "user_ret left l (m * e) e \<le> m"
    and "user_ret left l (m * e) e \<noteq> 0 \<longleftrightarrow> left 0 l \<noteq> 0 \<or> left l (m * e - l) \<noteq> 0"
    and "left 0 l \<noteq> 0 \<Longrightarrow> m * e - user_ret left l (m * e) e * e \<le> l - left 0 l"
    and "left 0 l = 0 \<Longrightarrow> m * e - user_ret left l (m * e) e * e \<le> m * e - left l (m * e - l)"
proof -
  have a: "left 0 l \<le> l" "left l (m * e - l) \<le> m * e - l" using ok by (simp_all add: uaccess_ok_def)
  note d = DIV_ROUND_UP_bounds [OF e]
  show "user_ret left l (m * e) e \<le> m"
    using a l d(2) [of "left 0 l + m * e - l" m] d(2) [of "left l (m * e - l)" m] by (auto simp: user_ret_def)
  show "user_ret left l (m * e) e \<noteq> 0 \<longleftrightarrow> left 0 l \<noteq> 0 \<or> left l (m * e - l) \<noteq> 0"
    using d(3) [of "left 0 l + m * e - l"] d(3) [of "left l (m * e - l)"] l by (auto simp: user_ret_def)
  show "m * e - user_ret left l (m * e) e * e \<le> l - left 0 l" if "left 0 l \<noteq> 0"
    using d(1) [of "left 0 l + m * e - l"] that l a by (simp add: user_ret_def)
  show "m * e - user_ret left l (m * e) e * e \<le> m * e - left l (m * e - l)" if "left 0 l = 0"
    using d(1) [of "left l (m * e - l)"] that by (auto simp: user_ret_def intro: diff_le_mono2)
qed

lemma user_copied:
  assumes "r \<le> m" and "m * e < 2 ^ 32"
  shows "unat (word_of_nat (m * e) - word_of_nat (r * e) :: u32) = (m - r) * e"
proof -
  have le: "r * e \<le> m * e" using assms(1) by simp
  then have "word_of_nat (m * e) - word_of_nat (r * e) = (word_of_nat (m * e - r * e) :: u32)" by (simp only: of_nat_diff)
  moreover have "m * e - r * e < 2 ^ 32" using assms(2) by linarith
  ultimately show ?thesis by (simp add: unsigned_of_nat take_bit_nat_eq_self diff_mult_distrib)
qed

lemma take_eq_le: "take k xs = take k ys \<Longrightarrow> t \<le> k \<Longrightarrow> take t xs = take t ys"
  by (metis min.absorb1 take_take)

lemma length_copy_from_user: "left o' n \<le> n \<Longrightarrow> o' + n \<le> length from \<Longrightarrow> length (copy_from_user left from o' n) = n"
  by (simp add: copy_from_user_def)

text \<open>A copy from user memory is a copy of some bytes that agree with the source up to the elements reported.\<close>

lemma copy_from_user_in:
  assumes s: "kfifo_shape f" and len: "unat len \<le> fifo_size f" and ok: "uaccess_ok left"
    and fm: "unat len * esz f \<le> length from" and run: "kfifo_copy_from_user left f from len off = (ret, copied, g)"
  shows "ret \<le> unat len" and "unat copied = (unat len - ret) * esz f"
    and "\<exists>src. length src = unat len * esz f \<and> g = kfifo_copy_in f src len off \<and>
      take ((unat len - ret) * esz f) src = take ((unat len - ret) * esz f) from"
proof -
  let ?e = "esz f" and ?m = "unat len" and ?n = "unat len * esz f" and ?d = "kf_data f"
  let ?o = "unat (off AND kf_mask f) * esz f"
  define l where "l = min ?n (length ?d - ?o)"
  note sp = kfifo_span_eq [OF s len, of off, folded l_def]
  have ln: "l \<le> ?n" "l \<le> length ?d - ?o" "?n - l = ?n - (length ?d - ?o)" by (auto simp: l_def)
  have e: "0 < ?e" and sz: "length ?d = fifo_size f * ?e" "fifo_size f * ?e < 2 ^ 32" using s by (simp_all add: kfifo_shape_def)
  have n32: "?n < 2 ^ 32" using sz(2) mult_le_mono1 [OF len, of ?e] by linarith
  let ?c1 = "copy_from_user left from 0 l" and ?c2 = "copy_from_user left from l (?n - l)"
  let ?f1 = "f\<lparr>kf_data := memcpy_at ?o ?c1 ?d\<rparr>"
  have r: "ret = user_ret left l ?n ?e" and copied: "copied = word_of_nat ?n - word_of_nat (ret * ?e)"
    and g: "g = (if left 0 l \<noteq> 0 then ?f1 else f\<lparr>kf_data := memcpy_at 0 ?c2 (memcpy_at ?o ?c1 ?d)\<rparr>)"
    using run unfolding kfifo_copy_from_user_def sp by (auto simp: Let_def user_ret_def)
  note ub = user_ret_bounds [OF ok e ln(1)]
  show rm: "ret \<le> ?m" using ub(1) by (simp add: r)
  show "unat copied = (?m - ret) * ?e" using user_copied [OF rm n32] by (simp add: copied)
  have a: "left 0 l \<le> l" "left l (?n - l) \<le> ?n - l" using ok unfolding uaccess_ok_def by blast+
  have lc: "length ?c1 = l" "length ?c2 = ?n - l" 
    using length_copy_from_user [of left 0 l "from"] length_copy_from_user [of left l "?n - l" "from"] a fm ln(1) by simp_all
  let ?t = "(?m - ret) * ?e"
  have te: "?t = ?n - ret * ?e" by (rule diff_mult_distrib)
  show "\<exists>src. length src = ?n \<and> g = kfifo_copy_in f src len off \<and> take ?t src = take ?t from"
  proof (cases "left 0 l = 0")
    case True
    have "g = kfifo_copy_in f (?c1 @ ?c2) len off"
      unfolding kfifo_copy_in_def sp using True lc by (simp add: g)
    moreover have "take ?t (?c1 @ ?c2) = take ?t from"
    proof -
      have t: "?t \<le> ?n - left l (?n - l)" using ub(4) [OF True] unfolding r [symmetric] te .
      have "?c1 @ ?c2 = take (?n - left l (?n - l)) from @ replicate (left l (?n - l)) 0"
        using True a(2) ln(1) take_add [of l "?n - l - left l (?n - l)" "from"] by (simp add: copy_from_user_def)
      then show ?thesis using t fm by simp
    qed
    ultimately show ?thesis using lc ln(1) by (intro exI [of _ "?c1 @ ?c2"]) simp
  next
    case False
    let ?k = "take (?n - l) ?d"
    have o: "?o \<le> length ?d" using offset_lt [OF s, of off] by (simp add: sz(1))
    have nl: "?n - l \<le> ?o" using mult_le_mono1 [OF len, of ?e] o sz(1) ln(3) by linarith
    then have lk: "length ?k = ?n - l" using o by simp
    have "take (?n - l) (memcpy_at ?o ?c1 ?d) = ?k" using nl o by (simp add: memcpy_at_def)
    then have "memcpy_at 0 ?k (memcpy_at ?o ?c1 ?d) = memcpy_at ?o ?c1 ?d"
      using append_take_drop_id [of "?n - l" "memcpy_at ?o ?c1 ?d"] lk by (simp add: memcpy_at_def [of 0])
    then have "g = kfifo_copy_in f (?c1 @ ?k) len off"
      unfolding kfifo_copy_in_def sp using False lc lk by (simp add: g)
    moreover have "take ?t (?c1 @ ?k) = take ?t from"
    proof -
      have t: "?t \<le> l - left 0 l" using ub(3) [OF False] unfolding r [symmetric] te .
      have "take (l - left 0 l) (?c1 @ ?k) = take (l - left 0 l) from"
        using a(1) fm ln(1) by (simp add: copy_from_user_def)
      then show ?thesis using t by (rule take_eq_le)
    qed
    ultimately show ?thesis using lc lk ln(1) by (intro exI [of _ "?c1 @ ?k"]) simp
  qed
qed

lemma copy_to_user_out:
  assumes s: "kfifo_shape f" and len: "unat len \<le> fifo_size f" and ok: "uaccess_ok left"
    and run: "kfifo_copy_to_user left f len off = (dst, ret, copied)"
  shows "ret \<le> unat len" and "unat copied = (unat len - ret) * esz f"
    and "take (unat copied) dst = take (unat copied) (kfifo_copy_out f len off)"
    and "ret = 0 \<Longrightarrow> dst = kfifo_copy_out f len off"
proof -
  let ?e = "esz f" and ?m = "unat len" and ?n = "unat len * esz f" and ?d = "kf_data f"
  let ?o = "unat (off AND kf_mask f) * esz f"
  define l where "l = min ?n (length ?d - ?o)"
  note sp = kfifo_span_eq [OF s len, of off, folded l_def]
  have ln: "l \<le> ?n" "l \<le> length ?d - ?o" "?n - l = ?n - (length ?d - ?o)" by (auto simp: l_def)
  have e: "0 < ?e" and sz: "length ?d = fifo_size f * ?e" "fifo_size f * ?e < 2 ^ 32" using s by (simp_all add: kfifo_shape_def)
  have n32: "?n < 2 ^ 32" using sz(2) mult_le_mono1 [OF len, of ?e] by linarith
  have r: "ret = user_ret left l ?n ?e" and cp: "copied = word_of_nat ?n - word_of_nat (ret * ?e)"
    and dst: "dst = take (l - left 0 l) (drop ?o ?d) @ (if left 0 l \<noteq> 0 then [] else take (?n - l - left l (?n - l)) ?d)"
    using run unfolding kfifo_copy_to_user_def sp by (auto simp: Let_def user_ret_def)
  note ub = user_ret_bounds [OF ok e ln(1)]
  show rm: "ret \<le> ?m" using ub(1) by (simp add: r)
  show uc: "unat copied = (?m - ret) * ?e" using user_copied [OF rm n32] by (simp add: cp)
  have te: "(?m - ret) * ?e = ?n - ret * ?e" by (rule diff_mult_distrib)
  have out: "kfifo_copy_out f len off = take l (drop ?o ?d) @ take (?n - l) ?d"
    unfolding kfifo_copy_out_def sp by simp
  have a: "left 0 l \<le> l" "left l (?n - l) \<le> ?n - l" using ok unfolding uaccess_ok_def by blast+
  show "dst = kfifo_copy_out f len off" if "ret = 0"
    using ub(2) that by (simp add: out dst r)
  have l1: "length (take l (drop ?o ?d)) = l" using ln(2) by simp
  show "take (unat copied) dst = take (unat copied) (kfifo_copy_out f len off)"
  proof (cases "left 0 l = 0")
    case True
    have t: "unat copied \<le> ?n - left l (?n - l)" using ub(4) [OF True] unfolding uc r [symmetric] te .
    have "dst = take (?n - left l (?n - l)) (kfifo_copy_out f len off)"
      using True a ln(1) l1 by (simp add: out dst add.commute)
    then show ?thesis using t by (simp add: min_absorb1)
  next
    case False
    have t: "unat copied \<le> l - left 0 l" using ub(3) [OF False] unfolding uc r [symmetric] te .
    have "dst = take (l - left 0 l) (kfifo_copy_out f len off)"
      using False ln(1,2) by (simp add: out dst)
    then show ?thesis using t by (simp add: min_absorb1)
  qed
qed

text \<open>A fault in the middle of \<^verbatim>\<open>__kfifo_from_user\<close> queues exactly the elements reported as copied.\<close>

lemma kfifo_from_user_ok:
  assumes inv: "kfifo_inv f" and ok: "uaccess_ok left" and buf: "len \<le> length from"
    and run: "kfifo_from_user left f from len = (err, copied, f')"
  shows "kfifo_inv f'" and "content f' = content f @ take (unat copied) from" and "fifo_size f' = fifo_size f"
    and "kf_esize f' = kf_esize f"
    and "err = 0 \<longrightarrow> unat copied = min (len div esz f) (fifo_size f - used f) * esz f" and "err \<in> {0, - EFAULT}"
proof -
  have s: "kfifo_shape f" and uf: "used f \<le> fifo_size f" using inv by (simp_all add: kfifo_inv_def)
  have e: "0 < esz f" using s by (simp add: kfifo_shape_def)
  define m where "m = min (len div esz f) (fifo_size f - used f)"
  have m32: "unat (word_of_nat m :: u32) = m"
    using fifo_size_lt [OF s] by (simp add: unsigned_of_nat take_bit_nat_eq_self m_def)
  have "kf_esize f = 1 \<Longrightarrow> len div esz f = len" by simp
  then have "m = (let len1 = (if kf_esize f \<noteq> 1 then len div esz f else len); l = unat (kfifo_unused f)
      in if len1 > l then l else len1)" using unused_eq [OF inv] by (auto simp: m_def min_def Let_def)
  then obtain ret g where cu: "kfifo_copy_from_user left f from (word_of_nat m) (kf_in f) = (ret, copied, g)"
      and err: "err = (if ret \<noteq> 0 then - EFAULT else 0)" and f': "f' = g\<lparr>kf_in := kf_in g + word_of_nat (m - ret)\<rparr>"
    using run by (auto simp: kfifo_from_user_def Let_def split: prod.splits)
  have fit: "used f + m \<le> fifo_size f" and mle: "m \<le> len div esz f" using uf by (auto simp: m_def)
  have "m * esz f \<le> len" using mle e by (metis div_times_less_eq_dividend mult_le_mono1 order_trans)
  then have fm: "unat (word_of_nat m :: u32) * esz f \<le> length from" using buf m32 by simp
  have lm: "unat (word_of_nat m :: u32) \<le> fifo_size f" using fit m32 by simp
  note cf = copy_from_user_in [OF s lm ok fm cu, unfolded m32]
  then obtain src where src: "length src = m * esz f" "g = kfifo_copy_in f src (word_of_nat m) (kf_in f)"
    "take ((m - ret) * esz f) src = take ((m - ret) * esz f) from" by blast
  let ?w = "word_of_nat (used f) :: u32" and ?t = "(m - ret) * esz f"
  have w: "unat ?w = used f" by (rule used_le)
  have c: "ring g = take (used f * esz f) (ring f) @ src @ drop ((used f + m) * esz f) (ring f)"
      "kfifo_shape g" "g = f\<lparr>kf_data := kf_data g\<rparr>"
    using copy_in_ring [OF s, of ?w "word_of_nat m" src] fit src(1) unfolding in_as_out [symmetric] w m32 src(2) by simp_all
  have "src = take ?t from @ drop ?t src" using src(3) append_take_drop_id [of ?t src] by simp
  then have c1: "ring g = take (used f * esz f) (ring f) @ take ?t from @ drop ?t src @ drop ((used f + m) * esz f) (ring f)"
    using c(1) by (metis append.assoc)
  have n: "unat (word_of_nat (m - ret) :: u32) = m - ret"
    using m32 fifo_size_lt [OF s] by (simp add: unsigned_of_nat take_bit_nat_eq_self m_def)
  have "?t \<le> length from" using fm [unfolded m32] mult_le_mono1 [OF diff_le_self, of m ret "esz f"] by (rule order_trans [rotated])
  then have lt: "length (take ?t from) = unat (word_of_nat (m - ret) :: u32) * esz f" by (simp add: n)
  have fit': "used f + unat (word_of_nat (m - ret) :: u32) \<le> fifo_size f" using fit n by simp
  note a = advance_in [OF inv c(2,3) c1 lt fit']
  show "kfifo_inv f'" "content f' = content f @ take (unat copied) from" "fifo_size f' = fifo_size f" "kf_esize f' = kf_esize f"
    using a cf(2) by (simp_all add: f')
  show "err = 0 \<longrightarrow> unat copied = min (len div esz f) (fifo_size f - used f) * esz f"
    using cf(2) by (simp add: err EFAULT_def m_def)
  show "err \<in> {0, - EFAULT}" by (simp add: err)
qed

lemma kfifo_to_user_ok:
  assumes inv: "kfifo_inv f" and ok: "uaccess_ok left" and run: "kfifo_to_user left f len = (err, copied, dst, f')"
  shows "kfifo_inv f'" and "content f = take (unat copied) dst @ content f'" and "fifo_size f' = fifo_size f"
    and "kf_esize f' = kf_esize f" and "err = 0 \<longrightarrow> unat copied = min (len div esz f) (used f) * esz f" and "err \<in> {0, - EFAULT}"
proof -
  have s: "kfifo_shape f" and uf: "used f \<le> fifo_size f" using inv by (simp_all add: kfifo_inv_def)
  define m where "m = min (len div esz f) (used f)"
  have m32: "unat (word_of_nat m :: u32) = m"
    using fifo_size_lt [OF s] uf by (simp add: unsigned_of_nat take_bit_nat_eq_self m_def)
  have "kf_esize f = 1 \<Longrightarrow> len div esz f = len" by simp
  then have "m = (let len1 = (if kf_esize f \<noteq> 1 then len div esz f else len); l = unat (kf_in f - kf_out f)
      in if len1 > l then l else len1)" by (auto simp: m_def min_def Let_def used_def)
  then obtain ret where cu: "kfifo_copy_to_user left f (word_of_nat m) (kf_out f) = (dst, ret, copied)"
      and err: "err = (if ret \<noteq> 0 then - EFAULT else 0)" and f': "f' = f\<lparr>kf_out := kf_out f + word_of_nat (m - ret)\<rparr>"
    using run by (auto simp: kfifo_to_user_def Let_def split: prod.splits)
  have mu: "m \<le> used f" by (simp add: m_def)
  have lm: "unat (word_of_nat m :: u32) \<le> fifo_size f" using mu uf m32 by simp
  note ct = copy_to_user_out [OF s lm ok cu, unfolded m32]
  have out: "kfifo_copy_out f (word_of_nat m) (kf_out f) = take (m * esz f) (ring f)"
    using copy_out_ring [OF s, of 0 "word_of_nat m"] lm m32 by simp
  have n: "unat (word_of_nat (m - ret) :: u32) = m - ret"
    using fifo_size_lt [OF s] uf mu by (simp add: unsigned_of_nat take_bit_nat_eq_self)
  have nu: "unat (word_of_nat (m - ret) :: u32) \<le> used f" using mu n by simp
  note a = advance_out [OF inv nu]
  have le: "(m - ret) * esz f \<le> m * esz f" "m * esz f \<le> used f * esz f" using mu by simp_all
  have "take (unat copied) dst = take ((m - ret) * esz f) (content f)"
    using ct(2,3) le unfolding out content_def take_take by (metis min.absorb1 order_trans)
  then show "content f = take (unat copied) dst @ content f'" using a(2) n by (simp add: f')
  show "kfifo_inv f'" "fifo_size f' = fifo_size f" using a by (simp_all add: f')
  show "kf_esize f' = kf_esize f" by (simp add: f')
  show "err = 0 \<longrightarrow> unat copied = min (len div esz f) (used f) * esz f" using ct(2) by (simp add: err EFAULT_def m_def)
  show "err \<in> {0, - EFAULT}" by (simp add: err)
qed

subsection \<open>The byte streams\<close>

definition byte_put :: "byte list \<times> u32 \<Rightarrow> kfifo \<Rightarrow> byte list \<times> kfifo" where
  "byte_put c f = (case kfifo_in f (fst c) (snd c) of (n, f') \<Rightarrow> (take (unat n * esz f) (fst c), f'))"

definition byte_get :: "u32 \<Rightarrow> kfifo \<Rightarrow> byte list \<times> kfifo" where
  "byte_get len f = (case kfifo_out f len of (n, dst, f') \<Rightarrow> (dst, f'))"

definition user_put :: "uaccess \<times> byte list \<times> nat \<Rightarrow> kfifo \<Rightarrow> byte list \<times> kfifo" where
  "user_put c f = (case c of (left, from, len) \<Rightarrow>
     case kfifo_from_user left f from len of (err, copied, f') \<Rightarrow> (take (unat copied) from, f'))"

definition user_get :: "uaccess \<times> nat \<Rightarrow> kfifo \<Rightarrow> byte list \<times> kfifo" where
  "user_get c f = (case c of (left, len) \<Rightarrow>
     case kfifo_to_user left f len of (err, copied, dst, f') \<Rightarrow> (take (unat copied) dst, f'))"

text \<open>The element size is part of the state and does not change, so the caller's buffer is measured with it.\<close>

definition sized_inv :: "nat \<Rightarrow> kfifo \<Rightarrow> bool" where
  "sized_inv e f \<longleftrightarrow> kfifo_inv f \<and> esz f = e"

interpretation plain: stream "sized_inv e" content byte_put byte_get "\<lambda>c. unat (snd c) * e \<le> length (fst c)" "\<lambda>_. True" for e
proof unfold_locales
  show "sized_inv e f' \<and> content f' = content f @ xs"
    if "sized_inv e f" "unat (snd c) * e \<le> length (fst c)" "byte_put c f = (xs, f')" for f c xs f'
  proof -
    obtain n where n: "kfifo_in f (fst c) (snd c) = (n, f')" "xs = take (unat n * esz f) (fst c)"
      using \<open>byte_put c f = (xs, f')\<close> by (auto simp: byte_put_def split: prod.splits)
    show ?thesis using that(1,2) kfifo_in_ok [OF _ _ n(1)] n(2) by (simp add: sized_inv_def)
  qed
  show "sized_inv e f' \<and> content f = ys @ content f'" if "sized_inv e f" "True" "byte_get d f = (ys, f')" for f d ys f'
  proof -
    obtain n where "kfifo_out f d = (n, ys, f')" using \<open>byte_get d f = (ys, f')\<close> by (auto simp: byte_get_def split: prod.splits)
    from kfifo_out_ok [OF _ this] show ?thesis using that(1) by (simp add: sized_inv_def)
  qed
qed

interpretation user: stream kfifo_inv content user_put user_get
  "\<lambda>(left, from, len). uaccess_ok left \<and> len \<le> length from" "\<lambda>(left, len). uaccess_ok left"
proof unfold_locales
  show "kfifo_inv f' \<and> content f' = content f @ xs"
    if "kfifo_inv f" "case c of (left, from, len) \<Rightarrow> uaccess_ok left \<and> len \<le> length from" "user_put c f = (xs, f')" for f c xs f'
    using that kfifo_from_user_ok [OF that(1)] by (fastforce simp: user_put_def split: prod.splits)
  show "kfifo_inv f' \<and> content f = ys @ content f'"
    if "kfifo_inv f" "case d of (left, len) \<Rightarrow> uaccess_ok left" "user_get d f = (ys, f')" for f d ys f'
    using that kfifo_to_user_ok [OF that(1)] by (fastforce simp: user_get_def split: prod.splits)
qed

end
