(* ===== verification/Kfifo_Rec.thy ===== *)
theory Kfifo_Rec
  imports Kfifo_Ops
begin

text \<open>
  The record form of the FIFO: the queued bytes are a sequence of records, each a length of one or two
  bytes followed by the record.
\<close>

subsection \<open>Records as bytes\<close>

definition rec_hdr :: "nat \<Rightarrow> nat \<Rightarrow> byte list" where
  "rec_hdr r n = (if r > 1 then [word_of_nat n, word_of_nat (n div 256)] else [word_of_nat n])"

definition rec_enc :: "nat \<Rightarrow> byte list list \<Rightarrow> byte list" where
  "rec_enc r rs = concat (map (\<lambda>x. rec_hdr r (length x) @ x) rs)"

definition hdr_val :: "nat \<Rightarrow> byte list \<Rightarrow> nat" where
  "hdr_val r bs = (if r > 1 then unat (bs ! 0) + 256 * unat (bs ! 1) else unat (bs ! 0))"

function rec_parse :: "nat \<Rightarrow> byte list \<Rightarrow> byte list list" where
  "rec_parse r bs =
     (if r = 0 \<or> length bs < r then []
      else take (hdr_val r bs) (drop r bs) # rec_parse r (drop (r + hdr_val r bs) bs))"
  by pat_completeness auto
termination
  by (relation "measure (\<lambda>(r, bs). length bs)") auto

declare rec_parse.simps [simp del]

definition recsize_ok :: "nat \<Rightarrow> bool" where "recsize_ok r \<longleftrightarrow> r = 1 \<or> r = 2"

lemma length_hdr: "recsize_ok r \<Longrightarrow> length (rec_hdr r n) = r"
  by (auto simp: rec_hdr_def recsize_ok_def)

lemma rec_hdr_not_Nil [simp]: "rec_hdr r n \<noteq> []"
  by (simp add: rec_hdr_def)

lemma hdr_val_hdr:
  assumes "recsize_ok r" and "n < 2 ^ (8 * r)"
  shows "hdr_val r (rec_hdr r n @ bs) = n"
proof -
  have w: "unat (word_of_nat k :: byte) = k mod 256" for k
    by (simp add: unsigned_of_nat take_bit_eq_mod)
  show ?thesis
  proof (cases "r = 1")
    case True
    then show ?thesis using assms(2) w [of n] by (simp add: hdr_val_def rec_hdr_def)
  next
    case False
    then have r: "r = 2" using assms(1) by (simp add: recsize_ok_def)
    then have "n div 256 < 256" using assms(2) by (simp add: less_mult_imp_div_less)
    then show ?thesis using r w [of n] w [of "n div 256"] by (simp add: hdr_val_def rec_hdr_def)
  qed
qed

lemma rec_enc_Cons [simp]: "rec_enc r (x # rs) = rec_hdr r (length x) @ x @ rec_enc r rs"
  and rec_enc_Nil [simp]: "rec_enc r [] = []"
  by (simp_all add: rec_enc_def)

lemma rec_enc_append: "rec_enc r (xs @ ys) = rec_enc r xs @ rec_enc r ys"
  by (simp add: rec_enc_def)

text \<open>The encoding can be read back.\<close>

lemma rec_parse_enc:
  assumes "recsize_ok r" and "\<forall>x \<in> set rs. length x < 2 ^ (8 * r)"
  shows "rec_parse r (rec_enc r rs) = rs"
  using assms(2)
proof (induction rs)
  case Nil
  then show ?case using assms(1) by (auto simp: rec_parse.simps recsize_ok_def)
next
  case (Cons x rs)
  let ?b = "rec_enc r (x # rs)"
  have l: "length (rec_hdr r (length x)) = r" by (rule length_hdr [OF assms(1)])
  have "hdr_val r ?b = length x" using hdr_val_hdr [OF assms(1), of "length x" "x @ rec_enc r rs"] Cons.prems by simp
  moreover have "r \<noteq> 0" "\<not> length ?b < r" using assms(1) l by (auto simp: recsize_ok_def)
  ultimately show ?case using Cons l by (subst rec_parse.simps) simp
qed

subsection \<open>Length prefix in the ring\<close>

definition rec_inv :: "nat \<Rightarrow> kfifo \<Rightarrow> bool" where
  "rec_inv r f \<longleftrightarrow> kfifo_inv f \<and> kf_esize f = 1 \<and> (\<exists>rs. content f = rec_enc r rs \<and> (\<forall>x \<in> set rs. length x < 2 ^ (8 * r)))"

definition rec_queue :: "nat \<Rightarrow> kfifo \<Rightarrow> byte list list" where
  "rec_queue r f = rec_parse r (content f)"

lemma rec_invD:
  assumes "recsize_ok r" and "rec_inv r f"
  shows "content f = rec_enc r (rec_queue r f)" and "\<forall>x \<in> set (rec_queue r f). length x < 2 ^ (8 * r)"
    and "kfifo_inv f" and "kfifo_shape f" and "esz f = 1" and "kf_esize f = 1"
  using assms rec_parse_enc [OF assms(1)] by (auto simp: rec_inv_def rec_queue_def kfifo_inv_def)

lemma rec_invI:
  assumes "recsize_ok r" and "kfifo_inv f" and "kf_esize f = 1" and "content f = rec_enc r rs" and "\<forall>x \<in> set rs. length x < 2 ^ (8 * r)"
  shows "rec_inv r f" and "rec_queue r f = rs"
  using assms rec_parse_enc [OF assms(1,5)] by (auto simp: rec_inv_def rec_queue_def)

lemma memcpy_at_one: "p < length d \<Longrightarrow> memcpy_at p [v] d = d[p := v]"
  by (simp add: memcpy_at_def upd_conv_take_nth_drop)

lemma poke_byte_copy_in:
  assumes "kfifo_shape f" and "kf_esize f = 1"
  shows "kfifo_poke_byte f i v = kfifo_copy_in f [ucast v] 1 i"
proof -
  have "unat (i AND kf_mask f) < length (kf_data f)"
    using offset_lt [OF assms(1), of i] assms by (simp add: kfifo_shape_def)
  then show ?thesis
    using kfifo_copy_in_one [OF assms(1), of "[ucast v]" i] assms(2) by (simp add: kfifo_poke_byte_def memcpy_at_one)
qed

lemma peek_byte_ring:
  assumes s: "kfifo_shape f" and "kf_esize f = 1" and "unat w < fifo_size f"
  shows "kfifo_peek_byte f (kf_out f + w) = ring f ! unat w"
proof -
  have "unat w < length (kf_data f)" using assms by (simp add: kfifo_shape_def)
  then show ?thesis
    using ring_position(1) [OF s, of w] assms(2) by (simp add: kfifo_peek_byte_def ring_def nth_rotate)
qed

text \<open>Storing the length prefix behind the queued bytes.\<close>

lemma poke_n_ring:
  assumes s: "kfifo_shape f" and e: "kf_esize f = 1" and r: "recsize_ok r" and fit: "used f + r \<le> fifo_size f"
  shows "ring (kfifo_poke_n f n r) = take (used f) (ring f) @ rec_hdr r (unat n) @ drop (used f + r) (ring f)"
    and "kfifo_shape (kfifo_poke_n f n r)" and "kfifo_poke_n f n r = f\<lparr>kf_data := kf_data (kfifo_poke_n f n r)\<rparr>"
proof -
  let ?g = "kfifo_poke_byte f (kf_in f) n"
  let ?w = "word_of_nat (used f) :: u32"
  have w: "unat ?w = used f" by (rule used_le)
  have cast: "(ucast x :: byte) = word_of_nat (unat x)" for x :: u32
    by (simp add: unsigned_ucast_eq word_eq_iff_unsigned unsigned_of_nat)
  have "unat n < 2 ^ LENGTH(32)" by (rule unsigned_less)
  then have "unat (drop_bit 8 n) = unat n div 256"
    unfolding unsigned_drop_bit_eq by (simp add: drop_bit_eq_div take_bit_nat_eq_self)
  then have lo: "(ucast n :: byte) = word_of_nat (unat n)" and hi: "(ucast (drop_bit 8 n) :: byte) = word_of_nat (unat n div 256)"
    using cast by metis+
  have g: "ring ?g = take (used f) (ring f) @ [word_of_nat (unat n)] @ drop (Suc (used f)) (ring f)" "kfifo_shape ?g"
      "?g = f\<lparr>kf_data := kf_data ?g\<rparr>"
    using copy_in_ring [OF s, of ?w 1 "[ucast n]"] fit r e
    unfolding poke_byte_copy_in [OF s e] in_as_out [symmetric] w lo by (auto simp: recsize_ok_def)
  have lr: "length (ring f) = fifo_size f" using s e by (simp add: kfifo_shape_def)
  have "ring (kfifo_poke_n f n r) = take (used f) (ring f) @ rec_hdr r (unat n) @ drop (used f + r) (ring f) \<and>
    kfifo_shape (kfifo_poke_n f n r) \<and> kfifo_poke_n f n r = f\<lparr>kf_data := kf_data (kfifo_poke_n f n r)\<rparr>"
  proof (cases "r = 1")
    case True
    then have "kfifo_poke_n f n r = ?g" by (simp add: kfifo_poke_n_def)
    then show ?thesis using g True by (simp add: rec_hdr_def)
  next
    case False
    then have r2: "r = 2" using r by (simp add: recsize_ok_def)
    let ?h = "kfifo_poke_byte ?g (kf_in f + 1) (drop_bit 8 n)"
    have h: "kfifo_poke_n f n r = ?h" using r2 by (simp add: kfifo_poke_n_def)
    have eq: "kf_esize ?g = 1" "kf_out ?g = kf_out f" "fifo_size ?g = fifo_size f"
      using e by (simp_all add: kfifo_poke_byte_def fifo_size_def)
    have "unat (?w + 1) = used f + 1"
      using unat_add_lt [of ?w 1] w fit r2 fifo_size_lt [OF s] by simp
    then have w1: "unat (?w + 1) = Suc (used f)" by simp
    have pos: "kf_in f + 1 = kf_out ?g + (?w + 1)" using in_as_out [of f] eq(2) by (simp add: add.assoc)
    have "ring ?h = take (Suc (used f)) (ring ?g) @ [word_of_nat (unat n div 256)] @ drop (Suc (Suc (used f))) (ring ?g)"
        "kfifo_shape ?h" "?h = ?g\<lparr>kf_data := kf_data ?h\<rparr>"
      using copy_in_ring [OF g(2), of "?w + 1" 1 "[ucast (drop_bit 8 n)]"] fit r2 eq
      unfolding poke_byte_copy_in [OF g(2) eq(1)] pos w1 hi by simp_all
    moreover have "take (Suc (used f)) (ring ?g) = take (used f) (ring f) @ [word_of_nat (unat n)]"
        "drop (Suc (Suc (used f))) (ring ?g) = drop (used f + 2) (ring f)"
      using fit r2 lr by (simp_all add: g(1) Suc_diff_le)
    moreover have "?h = f\<lparr>kf_data := kf_data ?h\<rparr>" by (simp add: kfifo_poke_byte_def)
    ultimately show ?thesis unfolding h by (simp add: r2 rec_hdr_def)
  qed
  then show "ring (kfifo_poke_n f n r) = take (used f) (ring f) @ rec_hdr r (unat n) @ drop (used f + r) (ring f)"
    and "kfifo_shape (kfifo_poke_n f n r)" and "kfifo_poke_n f n r = f\<lparr>kf_data := kf_data (kfifo_poke_n f n r)\<rparr>"
    by simp_all
qed

text \<open>Reading it back.\<close>

lemma peek_n_val:
  assumes inv: "kfifo_inv f" and e: "kf_esize f = 1" and r: "recsize_ok r" and c: "content f = rec_hdr r n @ rest"
    and n: "n < 2 ^ (8 * r)"
  shows "unat (kfifo_peek_n f r) = n"
proof -
  have s: "kfifo_shape f" and uf: "used f \<le> fifo_size f" using inv by (simp_all add: kfifo_inv_def)
  have lr: "length (ring f) = fifo_size f" using s e by (simp add: kfifo_shape_def)
  then have "length (content f) = used f" using e uf by (simp add: content_def)
  then have u: "r \<le> used f" using c length_hdr [OF r, of n] by simp
  have b: "kfifo_peek_byte f (kf_out f + w) = content f ! unat w" if "unat w < r" for w
    using peek_byte_ring [OF s e, of w] that u uf lr e by (simp add: content_def)
  have b0: "kfifo_peek_byte f (kf_out f) = content f ! 0" using b [of 0] r by (auto simp: recsize_ok_def)
  have v: "hdr_val r (content f) = n" using hdr_val_hdr [OF r n] c by simp
  show ?thesis
  proof (cases "r = 1")
    case True
    then show ?thesis using v b0 n by (simp add: kfifo_peek_n_def hdr_val_def unsigned_ucast_eq take_bit_nat_eq_self_iff)
  next
    case False
    then have r2: "r = 2" using r by (simp add: recsize_ok_def)
    let ?x = "content f ! 0" and ?y = "content f ! 1"
    have b1: "kfifo_peek_byte f (kf_out f + 1) = ?y" using b [of 1] r2 by simp
    have "(ucast ?x :: u32) AND push_bit 8 (ucast ?y) = 0"
      by (rule bit_word_eqI) (auto simp: bit_simps dest: bit_imp_le_length)
    then have "(ucast ?x :: u32) OR push_bit 8 (ucast ?y) = ucast ?x + push_bit 8 (ucast ?y)"
      by (rule disjunctive_add_eq_or [symmetric])
    moreover have "unat ?x < 256" "unat ?y < 256" using unsigned_less [of ?x] unsigned_less [of ?y] by simp_all
    then have "unat (ucast ?x + push_bit 8 (ucast ?y) :: u32) = unat ?x + 256 * unat ?y"
      by (simp add: unat_word_ariths push_bit_eq_mult unsigned_ucast_eq take_bit_nat_eq_self)
    ultimately show ?thesis using v r2 b0 b1 by (simp add: kfifo_peek_n_def hdr_val_def)
  qed
qed

subsection \<open>Operations on records\<close>

text \<open>What storing a record leaves: its length and its bytes behind the queued ones.\<close>

lemma store_record:
  assumes s: "kfifo_shape f" and e: "kf_esize f = 1" and r: "recsize_ok r" and fit: "used f + r + unat len \<le> fifo_size f"
    and buf: "unat len \<le> length buf"
  defines "g \<equiv> kfifo_copy_in (kfifo_poke_n f len r) buf len (kf_in f + word_of_nat r)"
  shows "ring g = take (used f) (ring f) @ (rec_hdr r (unat len) @ take (unat len) buf) @ drop (used f + r + unat len) (ring f)"
    and "kfifo_shape g" and "g = f\<lparr>kf_data := kf_data g\<rparr>"
proof -
  let ?p = "kfifo_poke_n f len r"
  have fit1: "used f + r \<le> fifo_size f" using fit by simp
  note p = poke_n_ring [OF s e r fit1, of len]
  have eq: "kf_esize ?p = 1" "kf_out ?p = kf_out f" "fifo_size ?p = fifo_size f"
    using arg_cong [OF p(3), of kf_esize] arg_cong [OF p(3), of kf_out] arg_cong [OF p(3), of kf_mask] e
    by (simp_all add: fifo_size_def)
  let ?w = "word_of_nat (used f) + word_of_nat r :: u32"
  have r4: "unat (word_of_nat r :: u32) = r" using r by (auto simp: recsize_ok_def)
  have w: "unat ?w = used f + r"
    using unat_add_lt [of "word_of_nat (used f)" "word_of_nat r"] used_le [of f] r4 fit fifo_size_lt [OF s] by simp
  have pos: "kf_in f + word_of_nat r = kf_out ?p + ?w" using in_as_out [of f] eq(2) by (simp add: add.assoc)
  have b: "unat len * esz ?p \<le> length buf" "unat ?w + unat len \<le> fifo_size ?p" using buf fit eq w by simp_all
  note c = copy_in_ring [OF p(2) b(2,1), folded pos, folded g_def, unfolded w]
  have lr: "length (ring f) = fifo_size f" using s e by (simp add: kfifo_shape_def)
  have lh: "length (rec_hdr r (unat len)) = r" by (rule length_hdr [OF r])
  have "take (used f + r) (ring ?p) = take (used f) (ring f) @ rec_hdr r (unat len)"
      "drop (used f + r + unat len) (ring ?p) = drop (used f + r + unat len) (ring f)"
    using fit lr lh by (simp_all add: p(1) ac_simps)
  then show "ring g = take (used f) (ring f) @ (rec_hdr r (unat len) @ take (unat len) buf) @ drop (used f + r + unat len) (ring f)"
    using c(1) eq by simp
  show "kfifo_shape g" by (rule c(2))
  have "g = (f\<lparr>kf_data := kf_data ?p\<rparr>)\<lparr>kf_data := kf_data g\<rparr>" using c(3) p(3) by metis
  then show "g = f\<lparr>kf_data := kf_data g\<rparr>" by simp
qed

lemma record_put:
  assumes r: "recsize_ok r" and inv: "rec_inv r f" and fit: "unat len + r \<le> unat (kfifo_unused f)"
    and buf: "unat len \<le> length buf" and max: "unat len < 2 ^ (8 * r)"
    and g: "ring g = take (used f) (ring f) @ (rec_hdr r (unat len) @ take (unat len) buf) @ rest" "kfifo_shape g"
      "g = f\<lparr>kf_data := kf_data g\<rparr>"
  shows "rec_inv r (g\<lparr>kf_in := kf_in g + (len + word_of_nat r)\<rparr>)"
    and "rec_queue r (g\<lparr>kf_in := kf_in g + (len + word_of_nat r)\<rparr>) = rec_queue r f @ [take (unat len) buf]"
    and "fifo_size (g\<lparr>kf_in := kf_in g + (len + word_of_nat r)\<rparr>) = fifo_size f"
proof -
  note d = rec_invD [OF r inv]
  have un: "unat (kfifo_unused f) = fifo_size f - used f" by (rule unused_eq [OF d(3)])
  have r4: "unat (word_of_nat r :: u32) = r" using r by (auto simp: recsize_ok_def)
  have n: "unat (len + word_of_nat r) = unat len + r"
    using unat_add_lt [of len "word_of_nat r"] r4 fit un fifo_size_lt [OF d(4)] by simp
  let ?xs = "rec_hdr r (unat len) @ take (unat len) buf"
  have lx: "length ?xs = unat (len + word_of_nat r) * esz f" using n buf d(5) length_hdr [OF r, of "unat len"] by simp
  have g1: "ring g = take (used f * esz f) (ring f) @ ?xs @ rest" using g(1) d(5) by simp
  have fit': "used f + unat (len + word_of_nat r) \<le> fifo_size f" using fit un n d(3) unfolding kfifo_inv_def by linarith
  note a = advance_in [OF d(3) g(2,3) g1 lx fit']
  let ?h = "g\<lparr>kf_in := kf_in g + (len + word_of_nat r)\<rparr>"
  have c: "content ?h = rec_enc r (rec_queue r f @ [take (unat len) buf])"
    using a(2) d(1) buf by (simp add: rec_enc_append min_absorb2)
  have m: "\<forall>x \<in> set (rec_queue r f @ [take (unat len) buf]). length x < 2 ^ (8 * r)" using d(2) max by auto
  show "rec_inv r ?h" "rec_queue r ?h = rec_queue r f @ [take (unat len) buf]"
    using rec_invI [OF r a(1) _ c m] a(4) d(6) by simp_all
  show "fifo_size ?h = fifo_size f" by (rule a(3))
qed

lemma kfifo_in_r_ok:
  assumes r: "recsize_ok r" and inv: "rec_inv r f" and buf: "unat len \<le> length buf" and max: "unat len < 2 ^ (8 * r)"
    and run: "kfifo_in_r f buf len r = (n, f')"
  shows "rec_inv r f'" and "unat len + r > fifo_size f - used f \<Longrightarrow> n = 0 \<and> f' = f"
    and "unat len + r \<le> fifo_size f - used f \<Longrightarrow> n = len \<and> rec_queue r f' = rec_queue r f @ [take (unat len) buf]"
    and "fifo_size f' = fifo_size f"
proof -
  note d = rec_invD [OF r inv]
  have un: "unat (kfifo_unused f) = fifo_size f - used f" by (rule unused_eq [OF d(3)])
  show "n = 0 \<and> f' = f" if "unat len + r > fifo_size f - used f" using run that un by (simp add: kfifo_in_r_def)
  have main: "n = len \<and> rec_inv r f' \<and> fifo_size f' = fifo_size f \<and> rec_queue r f' = rec_queue r f @ [take (unat len) buf]"
    if fit: "unat len + r \<le> fifo_size f - used f"
  proof -
    have p3: "kf_in (kfifo_poke_n f len r) = kf_in f" by (simp add: kfifo_poke_n_def kfifo_poke_byte_def Let_def)
    let ?g = "kfifo_copy_in (kfifo_poke_n f len r) buf len (kf_in f + word_of_nat r)"
    have f': "f' = ?g\<lparr>kf_in := kf_in ?g + (len + word_of_nat r)\<rparr>" and n: "n = len"
      using run fit un p3 by (auto simp: kfifo_in_r_def Let_def)
    have "used f + r + unat len \<le> fifo_size f" using fit d(3) unfolding kfifo_inv_def by linarith
    note st = store_record [OF d(4,6) r this buf]
    have fu: "unat len + r \<le> unat (kfifo_unused f)" using fit un by simp
    from record_put [OF r inv fu buf max st] n f' show ?thesis by simp
  qed
  then show "n = len \<and> rec_queue r f' = rec_queue r f @ [take (unat len) buf]" if "unat len + r \<le> fifo_size f - used f"
    using that by blast
  have "n = 0 \<and> f' = f \<or> rec_inv r f' \<and> fifo_size f' = fifo_size f"
    using main \<open>unat len + r > fifo_size f - used f \<Longrightarrow> n = 0 \<and> f' = f\<close> by (meson linorder_not_le)
  then show "rec_inv r f'" "fifo_size f' = fifo_size f" using inv by auto
qed

text \<open>The oldest record in the ring.\<close>

lemma rec_empty:
  assumes r: "recsize_ok r" and inv: "rec_inv r f"
  shows "kf_in f = kf_out f \<longleftrightarrow> rec_queue r f = []" and "length (content f) = used f"
proof -
  note d = rec_invD [OF r inv]
  show l: "length (content f) = used f"
    using d(3,4,5) by (simp add: content_def kfifo_shape_def kfifo_inv_def)
  have "kf_in f = kf_out f \<longleftrightarrow> used f = 0" by (simp add: used_def unat_eq_zero)
  also have "\<dots> \<longleftrightarrow> content f = []" using l by auto
  also have "\<dots> \<longleftrightarrow> rec_queue r f = []"
    using d(1) by (cases "rec_queue r f") auto
  finally show "kf_in f = kf_out f \<longleftrightarrow> rec_queue r f = []" .
qed

lemma first_record:
  assumes r: "recsize_ok r" and inv: "rec_inv r f" and q: "rec_queue r f = x # xs"
  shows "unat (kfifo_peek_n f r) = length x" and "used f = r + length x + length (rec_enc r xs)"
    and "unat len \<le> length x \<Longrightarrow> kfifo_copy_out f len (kf_out f + word_of_nat r) = take (unat len) x"
    and "rec_inv r (f\<lparr>kf_out := kf_out f + (kfifo_peek_n f r + word_of_nat r)\<rparr>)"
    and "rec_queue r (f\<lparr>kf_out := kf_out f + (kfifo_peek_n f r + word_of_nat r)\<rparr>) = xs"
proof -
  note d = rec_invD [OF r inv]
  have c: "content f = rec_hdr r (length x) @ x @ rec_enc r xs" using d(1) q by simp
  have lh: "length (rec_hdr r (length x)) = r" by (rule length_hdr [OF r])
  show pn: "unat (kfifo_peek_n f r) = length x"
    using d(2) q by (intro peek_n_val [OF d(3,6) r c]) simp
  show u: "used f = r + length x + length (rec_enc r xs)" using rec_empty(2) [OF r inv] c lh by simp
  have uf: "used f \<le> fifo_size f" using d(3) by (simp add: kfifo_inv_def)
  have r4: "unat (word_of_nat r :: u32) = r" using r by (auto simp: recsize_ok_def)
  have cr: "content f = take (used f) (ring f)" using d(5) by (simp add: content_def)
  show "kfifo_copy_out f len (kf_out f + word_of_nat r) = take (unat len) x" if "unat len \<le> length x"
  proof -
    have "kfifo_copy_out f len (kf_out f + word_of_nat r) = take (unat len) (drop r (ring f))"
      using copy_out_ring [OF d(4), of "word_of_nat r" len] that u uf r4 d(5) by simp
    also have "\<dots> = take (unat len) (drop r (content f))" using that u by (simp add: cr drop_take min_absorb1)
    also have "\<dots> = take (unat len) x" using that lh by (simp add: c)
    finally show ?thesis .
  qed
  let ?g = "f\<lparr>kf_out := kf_out f + (kfifo_peek_n f r + word_of_nat r)\<rparr>"
  have n: "unat (kfifo_peek_n f r + word_of_nat r) = length x + r"
    using unat_add_lt [of "kfifo_peek_n f r" "word_of_nat r"] pn r4 u uf fifo_size_lt [OF d(4)] by simp
  then have nu: "unat (kfifo_peek_n f r + word_of_nat r) \<le> used f" using u by simp
  note a = advance_out [OF d(3) nu]
  have "content ?g = rec_enc r xs" using a(2) lh by (simp add: n d(5) c)
  from rec_invI [OF r a(1) _ this] d(2,6) q show "rec_inv r ?g" "rec_queue r ?g = xs" by simp_all
qed

lemma kfifo_out_r_ok:
  assumes r: "recsize_ok r" and inv: "rec_inv r f" and run: "kfifo_out_r f len r = (n, dst, f')"
  shows "rec_inv r f'" and "case rec_queue r f of
      [] \<Rightarrow> n = 0 \<and> dst = [] \<and> f' = f
    | x # xs \<Rightarrow> unat n = min (unat len) (length x) \<and> dst = take (unat len) x \<and> rec_queue r f' = xs"
proof -
  have "rec_inv r f' \<and> (case rec_queue r f of
      [] \<Rightarrow> n = 0 \<and> dst = [] \<and> f' = f
    | x # xs \<Rightarrow> unat n = min (unat len) (length x) \<and> dst = take (unat len) x \<and> rec_queue r f' = xs)"
  proof (cases "rec_queue r f")
    case Nil
    then show ?thesis using run inv rec_empty(1) [OF r inv] by (simp add: kfifo_out_r_def)
  next
    case (Cons x xs)
    note fr = first_record [OF r inv Cons]
    have ne: "kf_in f \<noteq> kf_out f" using Cons rec_empty(1) [OF r inv] by simp
    have n: "n = (if len > kfifo_peek_n f r then kfifo_peek_n f r else len)"
      and dst: "dst = kfifo_copy_out f n (kf_out f + word_of_nat r)"
      and f': "f' = f\<lparr>kf_out := kf_out f + (kfifo_peek_n f r + word_of_nat r)\<rparr>"
      using run ne by (auto simp: kfifo_out_r_def kfifo_out_copy_r_def Let_def)
    have un: "unat n = min (unat len) (length x)" using fr(1) by (auto simp: n word_less_nat_alt min_def)
    then have "dst = take (unat len) x" using fr(3) [of n] by (simp add: dst min_def split: if_splits)
    then show ?thesis using Cons un fr(4,5) by (simp add: f')
  qed
  then show "rec_inv r f'" "case rec_queue r f of
      [] \<Rightarrow> n = 0 \<and> dst = [] \<and> f' = f
    | x # xs \<Rightarrow> unat n = min (unat len) (length x) \<and> dst = take (unat len) x \<and> rec_queue r f' = xs"
    by simp_all
qed

subsection \<open>Records and user memory\<close>

lemma max_r_bounds:
  assumes "recsize_ok r"
  shows "unat (kfifo_max_r len r) = min (unat len) (2 ^ (8 * r) - 1)"
proof -
  have "unat (push_bit (8 * r) 1 - 1 :: u32) = 2 ^ (8 * r) - 1"
    using assms by (auto simp: recsize_ok_def push_bit_eq_mult)
  then show ?thesis by (auto simp: kfifo_max_r_def Let_def word_less_nat_alt min_def)
qed

lemma kfifo_from_user_r_ok:
  assumes r: "recsize_ok r" and inv: "rec_inv r f" and ok: "uaccess_ok left" and buf: "unat len \<le> length from"
    and run: "kfifo_from_user_r left f from len r = (err, copied, f')"
  shows "rec_inv r f'" and "err = - EFAULT \<or> copied = 0 \<Longrightarrow> copied = 0 \<and> (0 < len \<longrightarrow> rec_queue r f' = rec_queue r f)"
    and "copied \<noteq> 0 \<Longrightarrow> unat copied = min (unat len) (2 ^ (8 * r) - 1) \<and> rec_queue r f' = rec_queue r f @ [take (unat copied) from]"
    and "err \<in> {0, - EFAULT}"
proof -
  note d = rec_invD [OF r inv]
  let ?len = "kfifo_max_r len r"
  have un: "unat (kfifo_unused f) = fifo_size f - used f" by (rule unused_eq [OF d(3)])
  have ml: "unat ?len = min (unat len) (2 ^ (8 * r) - 1)" by (rule max_r_bounds [OF r])
  have pos: "1 < (2 :: nat) ^ (8 * r)" using r by (auto simp: recsize_ok_def)
  have main: "rec_inv r f' \<and> err \<in> {0, - EFAULT} \<and>
      (rec_queue r f' = rec_queue r f \<and> copied = 0 \<or>
       err = 0 \<and> copied = ?len \<and> rec_queue r f' = rec_queue r f @ [take (unat ?len) from])"
  proof (cases "unat ?len + r > unat (kfifo_unused f)")
    case True
    then show ?thesis using run inv by (simp add: kfifo_from_user_r_def)
  next
    case fit: False
    let ?p = "kfifo_poke_n f ?len r"
    obtain ret cp g where cu: "kfifo_copy_from_user left ?p from ?len (kf_in f + word_of_nat r) = (ret, cp, g)" using prod_cases3 by blast
    have p3: "kf_in ?p = kf_in f" by (simp add: kfifo_poke_n_def kfifo_poke_byte_def Let_def)
    have res: "(err, copied, f') = (if ret \<noteq> 0 then (- EFAULT, 0, g) else (0, cp, g\<lparr>kf_in := kf_in g + (?len + word_of_nat r)\<rparr>))"
      using run fit cu p3 by (simp add: kfifo_from_user_r_def Let_def)
    have f2: "used f + r + unat ?len \<le> fifo_size f" using fit un d(3) unfolding kfifo_inv_def by linarith
    have ps: "kfifo_shape ?p" "kf_esize ?p = 1" "fifo_size ?p = fifo_size f"
      using poke_n_ring(2) [OF d(4,6) r, of ?len] f2 d(6)
      by (simp_all add: kfifo_poke_n_def kfifo_poke_byte_def Let_def fifo_size_def)
    have lm: "unat ?len \<le> fifo_size ?p" and lf: "unat ?len * esz ?p \<le> length from" using f2 ps buf ml by simp_all
    note cf = copy_from_user_in [OF ps(1) lm ok lf cu]
    then obtain src where src: "length src = unat ?len" "g = kfifo_copy_in ?p src ?len (kf_in f + word_of_nat r)"
      "take (unat ?len - ret) src = take (unat ?len - ret) from" using ps(2) by auto
    have ls: "unat ?len \<le> length src" using src(1) by simp
    note st = store_record [OF d(4,6) r f2 ls, folded src(2)]
    show ?thesis
    proof (cases "ret = 0")
      case True
      then have "src = take (unat ?len) from" using src(1,3) by simp
      moreover have "unat ?len + r \<le> unat (kfifo_unused f)" using fit by simp
      moreover have "unat ?len < 2 ^ (8 * r)" using ml pos by simp
      ultimately have "rec_inv r f'" "rec_queue r f' = rec_queue r f @ [take (unat ?len) from]"
        using record_put [OF r inv _ ls _ st] res True by simp_all
      moreover have "copied = ?len" "err = 0" using cf(2) res True ps(2) by (auto intro: unsigned_word_eqI)
      ultimately show ?thesis by simp
    next
      case False
      have g: "used g = used f" "kf_esize g = 1" "fifo_size g = fifo_size f"
        using arg_cong [OF st(3), of kf_in] arg_cong [OF st(3), of kf_out] arg_cong [OF st(3), of kf_mask]
          arg_cong [OF st(3), of kf_esize] d(6) by (simp_all add: used_def fifo_size_def)
      have "used f \<le> length (ring f)" using d(3-5) by (simp add: kfifo_inv_def kfifo_shape_def)
      then have "content g = content f" using st(1) g d(5) by (simp add: content_def)
      moreover have "kfifo_inv g" using st(2) g d(3) by (simp add: kfifo_inv_def)
      ultimately have "rec_inv r g" "rec_queue r g = rec_queue r f" using rec_invI [OF r _ g(2), of "rec_queue r f"] d by simp_all
      then show ?thesis using res False by simp
    qed
  qed
  show "rec_inv r f'" "err \<in> {0, - EFAULT}" using main by simp_all
  show "copied = 0 \<and> (0 < len \<longrightarrow> rec_queue r f' = rec_queue r f)" if "err = - EFAULT \<or> copied = 0"
  proof (cases "rec_queue r f' = rec_queue r f \<and> copied = 0")
    case False
    then have "copied = ?len" "err = 0" using main by auto
    then have "unat ?len = 0" using that by (auto simp: EFAULT_def)
    then have "len = 0" using ml pos by (auto simp: min_def unat_eq_zero split: if_splits)
    then show ?thesis using \<open>copied = ?len\<close> \<open>unat ?len = 0\<close> by (simp add: unat_eq_zero)
  qed simp
  show "unat copied = min (unat len) (2 ^ (8 * r) - 1) \<and> rec_queue r f' = rec_queue r f @ [take (unat copied) from]" if "copied \<noteq> 0"
    using main that ml by auto
qed

lemma kfifo_to_user_r_ok:
  assumes r: "recsize_ok r" and inv: "rec_inv r f" and ok: "uaccess_ok left"
    and run: "kfifo_to_user_r left f len r = (err, copied, dst, f')"
  shows "rec_inv r f'" and "case rec_queue r f of
      [] \<Rightarrow> err = 0 \<and> copied = 0 \<and> f' = f
    | x # xs \<Rightarrow> err = - EFAULT \<and> copied = 0 \<and> f' = f \<or>
        err = 0 \<and> unat copied = min (unat len) (length x) \<and> dst = take (unat len) x \<and> rec_queue r f' = xs"
proof -
  note d = rec_invD [OF r inv]
  have "rec_inv r f' \<and> (case rec_queue r f of
      [] \<Rightarrow> err = 0 \<and> copied = 0 \<and> f' = f
    | x # xs \<Rightarrow> err = - EFAULT \<and> copied = 0 \<and> f' = f \<or>
        err = 0 \<and> unat copied = min (unat len) (length x) \<and> dst = take (unat len) x \<and> rec_queue r f' = xs)"
  proof (cases "rec_queue r f")
    case Nil
    then show ?thesis using run inv rec_empty(1) [OF r inv] by (simp add: kfifo_to_user_r_def)
  next
    case (Cons x xs)
    note fr = first_record [OF r inv Cons]
    have ne: "kf_in f \<noteq> kf_out f" using Cons rec_empty(1) [OF r inv] by simp
    define n where "n = (if len > kfifo_peek_n f r then kfifo_peek_n f r else len)"
    obtain ret cp dt where cu: "kfifo_copy_to_user left f n (kf_out f + word_of_nat r) = (dt, ret, cp)" using prod_cases3 by blast
    have res: "(err, copied, dst, f') = (if ret \<noteq> 0 then (- EFAULT, 0, dt, f)
        else (0, cp, dt, f\<lparr>kf_out := kf_out f + (kfifo_peek_n f r + word_of_nat r)\<rparr>))"
      using run ne cu by (simp add: kfifo_to_user_r_def Let_def n_def)
    have un: "unat n = min (unat len) (length x)" using fr(1) by (auto simp: n_def word_less_nat_alt min_def)
    have "unat n \<le> fifo_size f" using un fr(2) d(3) by (auto simp: kfifo_inv_def min_def)
    note ct = copy_to_user_out [OF d(4) this ok cu]
    have out: "kfifo_copy_out f n (kf_out f + word_of_nat r) = take (unat len) x"
      using fr(3) [of n] un by (simp add: min_def split: if_splits)
    show ?thesis using res ct(2,4) out un fr(4,5) inv d(5) Cons by (auto split: if_splits)
  qed
  then show "rec_inv r f'" "case rec_queue r f of
      [] \<Rightarrow> err = 0 \<and> copied = 0 \<and> f' = f
    | x # xs \<Rightarrow> err = - EFAULT \<and> copied = 0 \<and> f' = f \<or>
        err = 0 \<and> unat copied = min (unat len) (length x) \<and> dst = take (unat len) x \<and> rec_queue r f' = xs"
    by simp_all
qed

text \<open>Skipping a record, and the two routines that finish a DMA transfer.\<close>

lemma kfifo_skip_r_ok:
  assumes "recsize_ok r" and "rec_inv r f" and "rec_queue r f = x # xs"
  shows "rec_inv r (kfifo_skip_r f r)" and "rec_queue r (kfifo_skip_r f r) = xs" and "kfifo_dma_out_finish_r f r = kfifo_skip_r f r"
  using first_record(4,5) [OF assms] by (simp_all add: kfifo_skip_r_def kfifo_dma_out_finish_r_def)

subsection \<open>The stream of records\<close>

text \<open>Kernel and user transfers mixed; a reader has room for the longest record.\<close>

type_synonym rec_offer = "(byte list \<times> u32) + (uaccess \<times> byte list \<times> u32)"
type_synonym rec_ask = "u32 + (uaccess \<times> u32)"

definition rec_put :: "nat \<Rightarrow> rec_offer \<Rightarrow> kfifo \<Rightarrow> byte list list \<times> kfifo" where
  "rec_put r c f = (case c of
     Inl (buf, len) \<Rightarrow> (case kfifo_in_r f buf len r of (n, f') \<Rightarrow> (if n = 0 then [] else [take (unat n) buf], f'))
   | Inr (left, from, len) \<Rightarrow>
       (case kfifo_from_user_r left f from len r of
          (err, copied, f') \<Rightarrow> (if copied = 0 then [] else [take (unat copied) from], f')))"

definition rec_get :: "nat \<Rightarrow> rec_ask \<Rightarrow> kfifo \<Rightarrow> byte list list \<times> kfifo" where
  "rec_get r c f = (case c of
     Inl len \<Rightarrow> (case kfifo_out_r f len r of (n, dst, f') \<Rightarrow> (if kfifo_is_empty f then [] else [dst], f'))
   | Inr (left, len) \<Rightarrow>
       (case kfifo_to_user_r left f len r of
          (err, copied, dst, f') \<Rightarrow> (if kfifo_is_empty f \<or> err \<noteq> 0 then [] else [dst], f')))"

definition rec_offer_ok :: "nat \<Rightarrow> rec_offer \<Rightarrow> bool" where
  "rec_offer_ok r c \<longleftrightarrow> (case c of
     Inl (buf, len) \<Rightarrow> 0 < len \<and> unat len \<le> length buf \<and> unat len < 2 ^ (8 * r)
   | Inr (left, from, len) \<Rightarrow> uaccess_ok left \<and> 0 < len \<and> unat len \<le> length from)"

definition rec_ask_ok :: "nat \<Rightarrow> rec_ask \<Rightarrow> bool" where
  "rec_ask_ok r c \<longleftrightarrow> (case c of
     Inl len \<Rightarrow> 2 ^ (8 * r) \<le> Suc (unat len)
   | Inr (left, len) \<Rightarrow> uaccess_ok left \<and> 2 ^ (8 * r) \<le> Suc (unat len))"

lemma rec_put_law:
  assumes r: "recsize_ok r" and inv: "rec_inv r f" and c: "rec_offer_ok r c" and run: "rec_put r c f = (xs, f')"
  shows "rec_inv r f' \<and> rec_queue r f' = rec_queue r f @ xs"
proof (cases c)
  case (Inl bl)
  obtain buf len where bl: "bl = (buf, len)" by fastforce
  obtain n where n: "kfifo_in_r f buf len r = (n, f')" and xs: "xs = (if n = 0 then [] else [take (unat n) buf])"
    using run by (auto simp: rec_put_def Inl bl split: prod.splits)
  have o: "0 < len" "unat len \<le> length buf" "unat len < 2 ^ (8 * r)" using c by (simp_all add: rec_offer_ok_def Inl bl)
  note ok = kfifo_in_r_ok [OF r inv o(2,3) n]
  show ?thesis
  proof (cases "unat len + r \<le> fifo_size f - used f")
    case True
    then show ?thesis using ok(1,3) o(1) by (auto simp: xs)
  next
    case False
    then show ?thesis using ok(1,2) by (simp add: xs)
  qed
next
  case (Inr b)
  obtain left "from" len where b: "b = (left, from, len)" using prod_cases3 by blast
  obtain err copied where n: "kfifo_from_user_r left f from len r = (err, copied, f')"
    and xs: "xs = (if copied = 0 then [] else [take (unat copied) from])"
    using run by (auto simp: rec_put_def Inr b split: prod.splits)
  have o: "uaccess_ok left" "0 < len" "unat len \<le> length from" using c by (simp_all add: rec_offer_ok_def Inr b)
  note ok = kfifo_from_user_r_ok [OF r inv o(1,3) n]
  show ?thesis using ok o(2) by (cases "copied = 0") (auto simp: xs)
qed

lemma rec_get_law:
  assumes r: "recsize_ok r" and inv: "rec_inv r f" and c: "rec_ask_ok r c" and run: "rec_get r c f = (ys, f')"
  shows "rec_inv r f' \<and> rec_queue r f = ys @ rec_queue r f'"
proof -
  have e: "kfifo_is_empty f \<longleftrightarrow> rec_queue r f = []" using rec_empty(1) [OF r inv] by (simp add: kfifo_is_empty_def)
  have short: "length x \<le> n" if "rec_queue r f = x # xs" "2 ^ (8 * r) \<le> Suc n" for x xs n
    using rec_invD(2) [OF r inv] that by fastforce
  show ?thesis
  proof (cases c)
    case (Inl len)
    obtain n dst where n: "kfifo_out_r f len r = (n, dst, f')" and ys: "ys = (if kfifo_is_empty f then [] else [dst])"
      using run by (auto simp: rec_get_def Inl split: prod.splits)
    note ok = kfifo_out_r_ok [OF r inv n]
    show ?thesis using ok e ys short c by (cases "rec_queue r f") (auto simp: rec_ask_ok_def Inl)
  next
    case (Inr b)
    obtain left len where b: "b = (left, len)" by fastforce
    obtain err copied dst where n: "kfifo_to_user_r left f len r = (err, copied, dst, f')"
      and ys: "ys = (if kfifo_is_empty f \<or> err \<noteq> 0 then [] else [dst])"
      using run by (auto simp: rec_get_def Inr b split: prod.splits)
    have a: "uaccess_ok left" "2 ^ (8 * r) \<le> Suc (unat len)" using c by (simp_all add: rec_ask_ok_def Inr b)
    note ok = kfifo_to_user_r_ok [OF r inv a(1) n]
    show ?thesis using ok e ys short a(2) by (cases "rec_queue r f") (auto simp: EFAULT_def)
  qed
qed

interpretation rec1: stream "rec_inv 1" "rec_queue 1" "rec_put 1" "rec_get 1" "rec_offer_ok 1" "rec_ask_ok 1"
  by unfold_locales (rule rec_put_law rec_get_law; simp add: recsize_ok_def)+

interpretation rec2: stream "rec_inv 2" "rec_queue 2" "rec_put 2" "rec_get 2" "rec_offer_ok 2" "rec_ask_ok 2"
  by unfold_locales (rule rec_put_law rec_get_law; simp add: recsize_ok_def)+

end
