(* ===== verification/Kfifo_Props.thy ===== *)
theory Kfifo_Props
  imports Kfifo_Rec
begin

text \<open>
  The properties of the FIFO: order and completeness of plain, user and record transfers, the single
  element operations, set-up, and the scatter lists.
\<close>

subsection \<open>Scatter lists\<close>

definition paddr :: "(nat \<Rightarrow> nat) \<Rightarrow> nat \<Rightarrow> nat" where
  "paddr phys v = phys (v div PAGE_SIZE) + v mod PAGE_SIZE"

definition sg_bytes :: "sg_entry list \<Rightarrow> nat list" where
  "sg_bytes es = concat (map (\<lambda>(page, len, off). map (\<lambda>i. page + off + i) [0..<len]) es)"

lemma run_bytes:
  assumes "off < PAGE_SIZE" and "\<And>j. j \<le> m \<Longrightarrow> phys (p + j) = page + j * PAGE_SIZE" and "off + n \<le> Suc m * PAGE_SIZE"
  shows "map (\<lambda>i. page + off + i) [0..<n] = map (\<lambda>i. paddr phys (p * PAGE_SIZE + off + i)) [0..<n]"
proof (rule map_cong [OF refl])
  fix i assume "i \<in> set [0..<n]"
  then have "off + i < Suc m * PAGE_SIZE" using assms(3) by simp
  then have j: "(off + i) div PAGE_SIZE \<le> m" using less_mult_imp_div_less less_Suc_eq_le by blast
  have "(p * PAGE_SIZE + off + i) div PAGE_SIZE = p + (off + i) div PAGE_SIZE"
       "(p * PAGE_SIZE + off + i) mod PAGE_SIZE = (off + i) mod PAGE_SIZE"
    by (simp_all add: add.assoc PAGE_SIZE_def)
  then have "paddr phys (p * PAGE_SIZE + off + i) = page + ((off + i) div PAGE_SIZE * PAGE_SIZE + (off + i) mod PAGE_SIZE)"
    using assms(2) [OF j] by (simp add: paddr_def)
  then show "page + off + i = paddr phys (p * PAGE_SIZE + off + i)" by (simp only: div_mult_mod_eq)
qed

lemma map_upt_split: "map (\<lambda>i. g (a + i)) [0..<n + k] = map (\<lambda>i. g (a + i)) [0..<n] @ map (\<lambda>i. g (a + n + i)) [0..<k]"
  by (rule nth_equalityI) (auto simp: nth_append)

lemma sgl_count:
  fixes e k a b n len :: nat
  assumes "e \<le> min (a - 1) (b - 1)" and "e < min (a - 1) (b - 1) \<longrightarrow> k = len - n" and "k \<le> len - n" and "n \<le> len"
    and "0 < a" and "0 < b"
  shows "Suc e \<le> min a b \<and> (Suc e < min a b \<longrightarrow> n + k = len) \<and> n + k \<le> len"
  using assms by (auto simp: min_def split: if_splits)

lemma sgl_loop_bytes:
  assumes "off < PAGE_SIZE" and "l = m * PAGE_SIZE" and "buf div PAGE_SIZE = p + m"
    and "\<And>j. j \<le> m \<Longrightarrow> phys (p + j) = page + j * PAGE_SIZE" and "l \<le> len + off" and "0 < nents" and "0 < room"
  shows "\<exists>k \<le> len. sg_bytes (setup_sgl_loop phys buf page off l len nents room) =
      map (\<lambda>i. paddr phys (p * PAGE_SIZE + off + i)) [0..<k] \<and>
    length (setup_sgl_loop phys buf page off l len nents room) \<le> min nents room \<and>
    (length (setup_sgl_loop phys buf page off l len nents room) < min nents room \<longrightarrow> k = len)"
  using assms
proof (induction phys buf page off l len nents room arbitrary: m p rule: setup_sgl_loop.induct)
  case (1 phys buf page off l len nents room)
  let ?L = "setup_sgl_loop phys buf page off l len nents room"
  let ?b = "(buf + PAGE_SIZE) div PAGE_SIZE"
  have bq: "?b = p + Suc m" using 1(5) by (simp add: PAGE_SIZE_def)
  show ?case
  proof (cases "len \<ge> l + PAGE_SIZE - off")
    case False
    then have L: "?L = [(page, len, off)]" by (simp add: setup_sgl_loop.simps)
    have "off + len \<le> Suc m * PAGE_SIZE" using False 1(3,4) by simp
    from run_bytes [OF 1(3) 1(6) this] show ?thesis
      using 1(8,9) by (intro exI [of _ len]) (simp add: L sg_bytes_def)
  next
    case more: True
    show ?thesis
    proof (cases "page + (l + PAGE_SIZE) = phys ?b")
      case True
      then have L: "?L = setup_sgl_loop phys (buf + PAGE_SIZE) page off (l + PAGE_SIZE) len nents room"
        using more 1(3) by (subst setup_sgl_loop.simps) simp
      have cont: "phys (p + j) = page + j * PAGE_SIZE" if "j \<le> Suc m" for j
        using that 1(4,6) True bq by (cases "j = Suc m") auto
      have lm: "l + PAGE_SIZE = Suc m * PAGE_SIZE" "l + PAGE_SIZE \<le> len + off" using more 1(3,4) by simp_all
      from 1(2) [OF _ _ 1(3) lm(1) bq cont lm(2) 1(8,9)] show ?thesis unfolding L using more 1(3) True by blast
    next
      case False
      let ?n = "l + PAGE_SIZE - off"
      let ?es = "if nents = 1 \<or> room = 1 then []
        else setup_sgl_loop phys (buf + PAGE_SIZE) (phys ?b) 0 0 (len - ?n) (nents - 1) (room - 1)"
      have L: "?L = (page, ?n, off) # ?es" using more False 1(3) by (subst setup_sgl_loop.simps) simp
      have full: "off + ?n \<le> Suc m * PAGE_SIZE" using 1(3,4) by simp
      have h: "map (\<lambda>i. page + off + i) [0..<?n] = map (\<lambda>i. paddr phys (p * PAGE_SIZE + off + i)) [0..<?n]"
        by (rule run_bytes [OF 1(3) 1(6) full])
      have sg: "sg_bytes ?L = map (\<lambda>i. paddr phys (p * PAGE_SIZE + off + i)) [0..<?n] @ sg_bytes ?es"
        unfolding L by (simp add: sg_bytes_def h [unfolded comp_def])
      show ?thesis
      proof (cases "nents = 1 \<or> room = 1")
        case True
        then show ?thesis using more sg L 1(8,9) by (intro exI [of _ ?n]) (auto simp: sg_bytes_def)
      next
        case cont: False
        then have es: "?es = setup_sgl_loop phys (buf + PAGE_SIZE) (phys ?b) 0 0 (len - ?n) (nents - 1) (room - 1)" by simp
        have "\<exists>k \<le> len - ?n. sg_bytes ?es = map (\<lambda>i. paddr phys ((p + Suc m) * PAGE_SIZE + 0 + i)) [0..<k] \<and>
            length ?es \<le> min (nents - 1) (room - 1) \<and> (length ?es < min (nents - 1) (room - 1) \<longrightarrow> k = len - ?n)"
          unfolding es
        proof (rule 1(1) [where m = 0 and p = "p + Suc m"])
          show "off < PAGE_SIZE \<and> len \<ge> ?n" "page + (l + PAGE_SIZE) \<noteq> phys ?b" "\<not> (nents = 1 \<or> room = 1)"
            using 1(3) more False cont by auto
          show "phys (p + Suc m + j) = phys ?b + j * PAGE_SIZE" if "j \<le> 0" for j using that bq by simp
        qed (use 1(8,9) cont bq in \<open>simp_all add: PAGE_SIZE_def\<close>)
        then obtain k where k: "k \<le> len - ?n" "sg_bytes ?es = map (\<lambda>i. paddr phys ((p + Suc m) * PAGE_SIZE + i)) [0..<k]"
          "length ?es \<le> min (nents - 1) (room - 1)" "length ?es < min (nents - 1) (room - 1) \<longrightarrow> k = len - ?n" by auto
        have shift: "(p + Suc m) * PAGE_SIZE = p * PAGE_SIZE + off + ?n" using 1(3,4) by (simp add: distrib_right)
        have "map (\<lambda>i. paddr phys (p * PAGE_SIZE + off + i)) [0..<?n + k] =
            map (\<lambda>i. paddr phys (p * PAGE_SIZE + off + i)) [0..<?n] @ map (\<lambda>i. paddr phys ((p + Suc m) * PAGE_SIZE + i)) [0..<k]"
          unfolding shift by (rule map_upt_split)
        then have "sg_bytes ?L = map (\<lambda>i. paddr phys (p * PAGE_SIZE + off + i)) [0..<?n + k]" unfolding sg k(2) by (rule sym)
        moreover have "length ?L = Suc (length ?es)" unfolding L by (rule length_Cons)
        moreover note sgl_count [OF k(3,4,1) more 1(8,9)]
        ultimately show ?thesis by metis
      qed
    qed
  qed
qed

lemma setup_sgl_buf_bytes:
  assumes "nents \<le> room"
  shows "\<exists>k \<le> len. sg_bytes (setup_sgl_buf phys buf nents len room) = map (\<lambda>i. paddr phys (buf + i)) [0..<k] \<and>
    length (setup_sgl_buf phys buf nents len room) \<le> nents \<and>
    (length (setup_sgl_buf phys buf nents len room) < nents \<longrightarrow> k = len)"
proof (cases "nents = 0 \<or> len = 0")
  case True
  then have "setup_sgl_buf phys buf nents len room = []" by (auto simp: setup_sgl_buf_def)
  then show ?thesis using True by (intro exI [of _ 0]) (auto simp: sg_bytes_def)
next
  case False
  let ?p = "buf div PAGE_SIZE" and ?o = "buf mod PAGE_SIZE"
  have run: "setup_sgl_buf phys buf nents len room = setup_sgl_loop phys buf (phys ?p) ?o 0 len nents room"
    using False by (simp add: setup_sgl_buf_def)
  have "?o < PAGE_SIZE" by (simp add: PAGE_SIZE_def)
  moreover have "?p * PAGE_SIZE + ?o + i = buf + i" for i by simp
  ultimately show ?thesis
    using sgl_loop_bytes [of ?o 0 0 buf ?p phys "phys ?p" len nents room] assms False unfolding run
    by (simp add: min_absorb1)
qed

lemma setup_sgl_bytes:
  assumes s: "kfifo_shape f" and fit: "unat len \<le> fifo_size f" and room: "nents \<le> room"
    and p_def: "p = unat (off AND kf_mask f) * esz f" and n_def: "n = unat len * esz f"
    and es_def: "es = setup_sgl phys data f nents len off room"
  shows "\<exists>k \<le> n. sg_bytes es = map (\<lambda>i. paddr phys (data + (p + i) mod length (kf_data f))) [0..<k] \<and>
    length es \<le> nents \<and> (length es < nents \<longrightarrow> k = n)"
proof -
  let ?B = "length (kf_data f)" and ?g = "\<lambda>i. paddr phys (data + (p + i) mod length (kf_data f))"
  define l where "l = min n (?B - p)"
  have sz: "?B = fifo_size f * esz f" "0 < esz f" using s by (simp_all add: kfifo_shape_def)
  have pB: "p < ?B" using offset_lt [OF s, of off] sz by (simp add: p_def)
  have nB: "n \<le> ?B" using mult_le_mono1 [OF fit, of "esz f"] by (simp add: n_def sz)
  define e1 where "e1 = setup_sgl_buf phys (data + p) nents l room"
  define e2 where "e2 = setup_sgl_buf phys data (nents - length e1) (n - l) (room - length e1)"
  have es: "es = e1 @ e2"
    unfolding es_def setup_sgl_def kfifo_span_eq [OF s fit] by (simp add: e1_def e2_def l_def p_def n_def Let_def)
  obtain k1 where k1: "k1 \<le> l" "sg_bytes e1 = map (\<lambda>i. paddr phys (data + p + i)) [0..<k1]" "length e1 \<le> nents"
      "length e1 < nents \<longrightarrow> k1 = l"
    using setup_sgl_buf_bytes [OF room, of l phys "data + p"] by (auto simp: e1_def)
  have "nents - length e1 \<le> room - length e1" using room by simp
  then obtain k2 where k2: "k2 \<le> n - l" "sg_bytes e2 = map (\<lambda>i. paddr phys (data + i)) [0..<k2]" "length e2 \<le> nents - length e1"
      "length e2 < nents - length e1 \<longrightarrow> k2 = n - l"
    using setup_sgl_buf_bytes [of "nents - length e1" "room - length e1" "n - l" phys data] by (auto simp: e2_def)
  have "(p + i) mod ?B = p + i" if "i < k1" for i using that k1(1) pB by (intro mod_less) (auto simp: l_def)
  then have b1: "sg_bytes e1 = map ?g [0..<k1]" unfolding k1(2) by (intro map_cong [OF refl]) (simp add: add.assoc)
  show ?thesis
  proof (cases "length e1 < nents")
    case False
    then have "e2 = []" using k2(3) by simp
    then show ?thesis using b1 k1(1,3) False es by (intro exI [of _ k1]) (auto simp: l_def)
  next
    case True
    then have kl: "k1 = l" using k1(4) by simp
    have wrap: "(p + (l + i)) mod ?B = i" if "i < k2" for i
    proof -
      have "l = ?B - p" using that k2(1) by (auto simp: l_def min_def split: if_splits)
      then have "p + (l + i) = ?B + i" using pB by simp
      moreover have "i < ?B" using that k2(1) nB by simp
      ultimately show ?thesis by (simp only: mod_add_self1 mod_less)
    qed
    have "sg_bytes e2 = map (\<lambda>i. ?g (l + i)) [0..<k2]" unfolding k2(2) by (rule map_cong [OF refl]) (use wrap in simp)
    then have "sg_bytes es = map ?g [0..<l + k2]"
      using b1 kl map_upt_split [of ?g 0 l k2] by (simp add: es sg_bytes_def)
    moreover have "l \<le> n" by (simp add: l_def)
    ultimately show ?thesis using k2 True k1(3) by (intro exI [of _ "l + k2"]) (auto simp: es)
  qed
qed

subsection \<open>Properties\<close>

text \<open>A FIFO of four bytes whose indices are about to wrap.\<close>

definition demo_fifo :: kfifo where
  "demo_fifo = \<lparr>kf_in = - 1, kf_out = - 2, kf_mask = 3, kf_esize = 1, kf_data = [9, 8, 7, 6]\<rparr>"

lemma demo_fifo_inv: "kfifo_inv demo_fifo"
  unfolding kfifo_inv_def kfifo_shape_def
  by (intro conjI exI [of _ 2]) (simp_all add: demo_fifo_def fifo_size_def used_def mask_eq_exp_minus_1)

text \<open>
  C10. Any interleaving of \<^verbatim>\<open>__kfifo_in\<close> and \<^verbatim>\<open>__kfifo_out\<close>, of any lengths and past any number of wraps of
  the two 32-bit indices: the bytes queued at the start followed by the bytes accepted are the bytes
  delivered followed by the bytes still queued, and the invariant is kept.
\<close>

theorem kfifo_fifo_order:
  assumes "kfifo_inv f" and "stream_run byte_put byte_get ops f = (ins, outs, f')"
    and "\<forall>op \<in> set ops. case op of Inl c \<Rightarrow> unat (snd c) * unat (kf_esize f) \<le> length (fst c) | Inr _ \<Rightarrow> True"
  shows "kfifo_inv f' \<and> content f @ ins = outs @ content f'"
  using plain.run_order [OF assms(2), of "esz f"] assms(1,3) by (simp add: sized_inv_def)

theorem kfifo_fifo_order_witness:
  "\<exists>ins outs f'. stream_run byte_put byte_get [Inl ([1, 2, 3], 3), Inr 2, Inl ([4, 5], 2), Inr 9] demo_fifo = (ins, outs, f') \<and>
     kfifo_inv f' \<and> content demo_fifo @ ins = outs @ content f'"
proof -
  let ?ops = "[Inl ([1, 2, 3], 3), Inr 2, Inl ([4, 5], 2), Inr 9] :: (byte list \<times> u32 + u32) list"
  obtain ins outs f' where run: "stream_run byte_put byte_get ?ops demo_fifo = (ins, outs, f')" using prod_cases3 by blast
  have "kfifo_inv f' \<and> content demo_fifo @ ins = outs @ content f'"
    by (rule kfifo_fifo_order [OF demo_fifo_inv run]) (simp add: demo_fifo_def)
  with run show ?thesis by blast
qed

text \<open>
  C11. \<^verbatim>\<open>__kfifo_in\<close> accepts exactly as many elements as are offered and fit, and \<^verbatim>\<open>__kfifo_out\<close> and
  \<^verbatim>\<open>__kfifo_out_peek\<close> deliver exactly as many as are asked for and queued, the oldest first.
\<close>

theorem kfifo_transfer_exact:
  assumes "kfifo_inv f" and "unat len * unat (kf_esize f) \<le> length buf"
  shows "unat (fst (kfifo_in f buf len)) = min (unat len) (fifo_size f - used f) \<and>
    unat (fst (kfifo_out f len)) = min (unat len) (used f) \<and>
    fst (snd (kfifo_out f len)) = take (min (unat len) (used f) * unat (kf_esize f)) (content f) \<and>
    kfifo_out_peek f len = (fst (kfifo_out f len), fst (snd (kfifo_out f len)))"
proof -
  obtain n g where i: "kfifo_in f buf len = (n, g)" by fastforce
  obtain m dst h where o: "kfifo_out f len = (m, dst, h)" using prod_cases3 by blast
  note ok = kfifo_out_ok [OF assms(1) o]
  have "dst = take (min (unat len) (used f) * esz f) (content f)" using ok(2,3,4) by simp
  then show ?thesis using kfifo_in_ok(3) [OF assms i] ok(3,7) by (simp add: i o)
qed

theorem kfifo_transfer_exact_witness:
  "unat (fst (kfifo_in demo_fifo [1, 2, 3, 4] 4)) = min 4 (fifo_size demo_fifo - used demo_fifo) \<and>
   fst (snd (kfifo_out demo_fifo 4)) = take (min 4 (used demo_fifo) * 1) (content demo_fifo)"
  using kfifo_transfer_exact [OF demo_fifo_inv, of 4 "[1, 2, 3, 4]"] by (simp add: demo_fifo_def)

text \<open>
  C12. The same for transfers from and to user memory when every copy may stop at any byte: whatever faults
  occur, exactly the bytes reported as copied are queued or removed, so no byte is lost, repeated or
  reordered, and the routine returns 0 or -EFAULT.
\<close>

theorem kfifo_user_order:
  assumes "kfifo_inv f" and "stream_run user_put user_get ops f = (ins, outs, f')"
    and "\<forall>op \<in> set ops. case op of Inl (left, from, len) \<Rightarrow> uaccess_ok left \<and> len \<le> length from | Inr (left, len) \<Rightarrow> uaccess_ok left"
  shows "kfifo_inv f' \<and> content f @ ins = outs @ content f'"
  by (rule user.run_order [OF assms(2,1)]) (use assms(3) in \<open>auto split: sum.splits\<close>)

theorem kfifo_user_order_witness:
  "\<exists>ins outs f'. stream_run user_put user_get [Inl (\<lambda>o' n. n div 2, [1, 2, 3], 3), Inr (\<lambda>o' n. n - 1, 2)] demo_fifo = (ins, outs, f') \<and>
     kfifo_inv f' \<and> content demo_fifo @ ins = outs @ content f'"
proof -
  let ?ops = "[Inl (\<lambda>o' n. n div 2, [1, 2, 3], 3), Inr (\<lambda>o' n. n - 1, 2)] :: (uaccess \<times> byte list \<times> nat + uaccess \<times> nat) list"
  obtain ins outs f' where run: "stream_run user_put user_get ?ops demo_fifo = (ins, outs, f')" using prod_cases3 by blast
  have "kfifo_inv f' \<and> content demo_fifo @ ins = outs @ content f'"
    by (rule kfifo_user_order [OF demo_fifo_inv run]) (simp add: uaccess_ok_def)
  with run show ?thesis by blast
qed



text \<open>
  C14. The macros \<^verbatim>\<open>kfifo_put\<close> and \<^verbatim>\<open>kfifo_get\<close>, which store and load one element by index, are
  equivalent to \<^verbatim>\<open>__kfifo_in\<close> and \<^verbatim>\<open>__kfifo_out\<close> for one element, in result, data and new state.
\<close>

theorem kfifo_put_get_equiv:
  assumes "kfifo_inv f" and "length val = unat (kf_esize f)"
  shows "kfifo_put f val = kfifo_in f val 1 \<and> kfifo_get f = kfifo_out f 1"
  using kfifo_put_in [OF assms] kfifo_get_out [OF assms(1)] by simp

theorem kfifo_put_get_equiv_witness: "kfifo_put demo_fifo [5] = kfifo_in demo_fifo [5] 1 \<and> kfifo_get demo_fifo = kfifo_out demo_fifo 1"
  by (rule kfifo_put_get_equiv [OF demo_fifo_inv]) (simp add: demo_fifo_def)

text \<open>
  C15. The scatter list \<^verbatim>\<open>__kfifo_dma_out_prepare\<close> builds describes the physical addresses of the
  oldest queued bytes in order, over the wrap of the buffer and over pages that are not physically
  adjacent; it uses at most the given number of entries and is complete unless it used all of them.
\<close>

theorem kfifo_dma_out_bytes:
  assumes "kfifo_inv f" and "nents \<le> room"
  shows "\<exists>k \<le> min (unat len) (used f) * unat (kf_esize f).
    sg_bytes (kfifo_dma_out_prepare phys data f nents len room) =
      map (\<lambda>i. paddr phys (data + (unat (kf_out f AND kf_mask f) * unat (kf_esize f) + i) mod length (kf_data f))) [0..<k] \<and>
    length (kfifo_dma_out_prepare phys data f nents len room) \<le> nents \<and>
    (length (kfifo_dma_out_prepare phys data f nents len room) < nents \<longrightarrow>
      k = min (unat len) (used f) * unat (kf_esize f))"
proof -
  let ?n = "if len > kf_in f - kf_out f then kf_in f - kf_out f else len"
  have n: "unat ?n = min (unat len) (used f)" by (auto simp: word_less_nat_alt min_def used_def)
  have "kfifo_shape f" "unat ?n \<le> fifo_size f" using assms(1) n by (auto simp: kfifo_inv_def)
  from setup_sgl_bytes [OF this assms(2) refl refl refl, where off = "kf_out f" and phys = phys and data = data] show ?thesis
    unfolding n by (simp add: kfifo_dma_out_prepare_def Let_def)
qed

theorem kfifo_dma_out_bytes_witness:
  "\<exists>k \<le> min 4 (used demo_fifo) * 1. sg_bytes (kfifo_dma_out_prepare (\<lambda>p. p * 8192) 4095 demo_fifo 8 4 8) =
      map (\<lambda>i. paddr (\<lambda>p. p * 8192) (4095 + (2 + i) mod 4)) [0..<k]"
  using kfifo_dma_out_bytes [OF demo_fifo_inv, of 8 8 4 "\<lambda>p. p * 8192" 4095] by (auto simp: demo_fifo_def)

subsection \<open>Setting up\<close>






end
