(* ===== verification/Tasks.thy ===== *)
theory Tasks
  imports Kernel_Base
begin

text \<open>
  What the sleeping locks share: the sleep states of a task and the signal test of
  \<^verbatim>\<open>include/linux/sched.h\<close>, and the contract of a transition system with an invariant. A step of such a
  system is one critical section of one task, under the lock's own spinlock.
\<close>

datatype sleep_state = TASK_INTERRUPTIBLE | TASK_UNINTERRUPTIBLE | TASK_KILLABLE

record task_signals =
  sig_pending :: bool
  fatal_pending :: bool

definition signal_pending_state :: "sleep_state \<Rightarrow> task_signals \<Rightarrow> bool" where
  "signal_pending_state state p =
     (if state = TASK_UNINTERRUPTIBLE then False
      else if \<not> sig_pending p then False
      else state = TASK_INTERRUPTIBLE \<or> fatal_pending p)"

definition MAX_SCHEDULE_TIMEOUT :: int where "MAX_SCHEDULE_TIMEOUT = 2 ^ 63 - 1"

definition ETIME :: int where "ETIME = 62"
definition ERESTARTSYS :: int where "ERESTARTSYS = 512"

subsection \<open>Transition systems\<close>

inductive reach :: "('s \<Rightarrow> bool) \<Rightarrow> ('s \<Rightarrow> 's \<Rightarrow> bool) \<Rightarrow> 's \<Rightarrow> bool" for init step where
  Init: "init s \<Longrightarrow> reach init step s"
| Step: "reach init step s \<Longrightarrow> step s t \<Longrightarrow> reach init step t"

locale invariant_system =
  fixes init :: "'s \<Rightarrow> bool" and step :: "'s \<Rightarrow> 's \<Rightarrow> bool" and inv :: "'s \<Rightarrow> bool"
  assumes init_inv: "init s \<Longrightarrow> inv s"
    and step_inv: "step s t \<Longrightarrow> inv s \<Longrightarrow> inv t"
begin

lemma reach_inv: "reach init step s \<Longrightarrow> inv s"
  by (induction rule: reach.induct) (auto intro: init_inv step_inv)

end

subsection \<open>Wait lists\<close>

lemma distinct_remove1_iff: "distinct xs \<Longrightarrow> x \<in> set (remove1 y xs) \<longleftrightarrow> x \<in> set xs \<and> x \<noteq> y"
  by auto

end
