(* ===== verification/Semaphore.thy ===== *)
theory Semaphore
  imports Tasks
begin

text \<open>
  The counting semaphore of \<^verbatim>\<open>kernel/locking/semaphore.c\<close>. A call that has to wait is cut where it drops the
  spinlock to sleep: the first section queues the task, each later one is a wake-up, for whatever reason.
\<close>

subsection \<open>The semaphore\<close>

text \<open>The flags \<^verbatim>\<open>up\<close> of the queued \<^verbatim>\<open>struct semaphore_waiter\<close>s are kept by task: a task waits in one call at a time.\<close>

record semaphore =
  sem_count :: nat
  sem_wait :: "nat list"
  sem_up :: "nat \<Rightarrow> bool"

datatype down_result = Acquired | Sleeping | Failed int

definition sema_init :: "nat \<Rightarrow> semaphore" where
  "sema_init n = \<lparr>sem_count = n, sem_wait = [], sem_up = (\<lambda>_. False)\<rparr>"

text \<open>The head of the loop of \<^verbatim>\<open>__down_common\<close>.\<close>

definition down_loop :: "nat \<Rightarrow> bool \<Rightarrow> int \<Rightarrow> semaphore \<Rightarrow> down_result \<times> semaphore" where
  "down_loop t signalled timeout s =
     (if signalled then (Failed (- EINTR), s\<lparr>sem_wait := remove1 t (sem_wait s)\<rparr>)
      else if timeout \<le> 0 then (Failed (- ETIME), s\<lparr>sem_wait := remove1 t (sem_wait s)\<rparr>)
      else (Sleeping, s))"

definition down_common :: "nat \<Rightarrow> sleep_state \<Rightarrow> task_signals \<Rightarrow> int \<Rightarrow> semaphore \<Rightarrow> down_result \<times> semaphore" where
  "down_common t state sig timeout s =
     down_loop t (signal_pending_state state sig) timeout
       (s\<lparr>sem_wait := sem_wait s @ [t], sem_up := (sem_up s)(t := False)\<rparr>)"

text \<open>The part of the loop after \<^verbatim>\<open>schedule_timeout\<close>, up to the next sleep.\<close>

definition down_resume :: "nat \<Rightarrow> sleep_state \<Rightarrow> task_signals \<Rightarrow> int \<Rightarrow> semaphore \<Rightarrow> down_result \<times> semaphore" where
  "down_resume t state sig timeout s =
     (if sem_up s t then (Acquired, s) else down_loop t (signal_pending_state state sig) timeout s)"

definition down :: "nat \<Rightarrow> task_signals \<Rightarrow> semaphore \<Rightarrow> down_result \<times> semaphore" where
  "down t sig s =
     (if sem_count s > 0 then (Acquired, s\<lparr>sem_count := sem_count s - 1\<rparr>)
      else down_common t TASK_UNINTERRUPTIBLE sig MAX_SCHEDULE_TIMEOUT s)"

definition down_interruptible :: "nat \<Rightarrow> task_signals \<Rightarrow> semaphore \<Rightarrow> down_result \<times> semaphore" where
  "down_interruptible t sig s =
     (if sem_count s > 0 then (Acquired, s\<lparr>sem_count := sem_count s - 1\<rparr>)
      else down_common t TASK_INTERRUPTIBLE sig MAX_SCHEDULE_TIMEOUT s)"

definition down_killable :: "nat \<Rightarrow> task_signals \<Rightarrow> semaphore \<Rightarrow> down_result \<times> semaphore" where
  "down_killable t sig s =
     (if sem_count s > 0 then (Acquired, s\<lparr>sem_count := sem_count s - 1\<rparr>)
      else down_common t TASK_KILLABLE sig MAX_SCHEDULE_TIMEOUT s)"

definition down_timeout :: "nat \<Rightarrow> task_signals \<Rightarrow> int \<Rightarrow> semaphore \<Rightarrow> down_result \<times> semaphore" where
  "down_timeout t sig timeout s =
     (if sem_count s > 0 then (Acquired, s\<lparr>sem_count := sem_count s - 1\<rparr>)
      else down_common t TASK_UNINTERRUPTIBLE sig timeout s)"

definition down_trylock :: "semaphore \<Rightarrow> int \<times> semaphore" where
  "down_trylock s =
     (let c = s32 (u32 (int (sem_count s) - 1))
      in (if c < 0 then 1 else 0, if c \<ge> 0 then s\<lparr>sem_count := u32 c\<rparr> else s))"

definition up_waiter :: "semaphore \<Rightarrow> semaphore" where
  "up_waiter s = s\<lparr>sem_wait := tl (sem_wait s), sem_up := (sem_up s)(hd (sem_wait s) := True)\<rparr>"

definition up :: "semaphore \<Rightarrow> semaphore" where
  "up s = (if sem_wait s = [] then s\<lparr>sem_count := (sem_count s + 1) mod 2 ^ 32\<rparr> else up_waiter s)"

subsection \<open>Tasks using a semaphore\<close>

datatype down_kind = Down | Down_interruptible | Down_killable | Down_timeout

fun kind_state :: "down_kind \<Rightarrow> sleep_state" where
  "kind_state Down = TASK_UNINTERRUPTIBLE"
| "kind_state Down_interruptible = TASK_INTERRUPTIBLE"
| "kind_state Down_killable = TASK_KILLABLE"
| "kind_state Down_timeout = TASK_UNINTERRUPTIBLE"

fun down_call :: "down_kind \<Rightarrow> nat \<Rightarrow> task_signals \<Rightarrow> int \<Rightarrow> semaphore \<Rightarrow> down_result \<times> semaphore" where
  "down_call Down t sig timeout s = down t sig s"
| "down_call Down_interruptible t sig timeout s = down_interruptible t sig s"
| "down_call Down_killable t sig timeout s = down_killable t sig s"
| "down_call Down_timeout t sig timeout s = down_timeout t sig timeout s"

text \<open>
  The system: the semaphore, the call each sleeping task is in, and how many acquisitions and releases
  have been completed.
\<close>

record sem_sys =
  sys_sem :: semaphore
  sys_call :: "nat \<Rightarrow> down_kind option"
  sys_downs :: nat
  sys_ups :: nat

fun finish :: "nat \<Rightarrow> down_kind \<Rightarrow> down_result \<times> semaphore \<Rightarrow> sem_sys \<Rightarrow> sem_sys" where
  "finish t k (Acquired, s) y = y\<lparr>sys_sem := s, sys_call := (sys_call y)(t := None), sys_downs := Suc (sys_downs y)\<rparr>"
| "finish t k (Sleeping, s) y = y\<lparr>sys_sem := s, sys_call := (sys_call y)(t := Some k)\<rparr>"
| "finish t k (Failed e, s) y = y\<lparr>sys_sem := s, sys_call := (sys_call y)(t := None)\<rparr>"

text \<open>Without a time limit \<^verbatim>\<open>schedule_timeout\<close> returns what it was given.\<close>

inductive sem_step :: "sem_sys \<Rightarrow> sem_sys \<Rightarrow> bool" where
  Call: "sys_call y t = None \<Longrightarrow> sem_step y (finish t k (down_call k t sig timeout (sys_sem y)) y)"
| Resume: "sys_call y t = Some k \<Longrightarrow> k \<noteq> Down_timeout \<longrightarrow> timeout = MAX_SCHEDULE_TIMEOUT \<Longrightarrow>
    sem_step y (finish t k (down_resume t (kind_state k) sig timeout (sys_sem y)) y)"
| Trylock: "down_trylock (sys_sem y) = (r, s) \<Longrightarrow>
    sem_step y (y\<lparr>sys_sem := s, sys_downs := if r = 0 then Suc (sys_downs y) else sys_downs y\<rparr>)"
| Up: "sem_step y (y\<lparr>sys_sem := up (sys_sem y), sys_ups := Suc (sys_ups y)\<rparr>)"

definition sem_start :: "nat \<Rightarrow> sem_sys \<Rightarrow> bool" where
  "sem_start n y \<longleftrightarrow> y = \<lparr>sys_sem = sema_init n, sys_call = (\<lambda>_. None), sys_downs = 0, sys_ups = 0\<rparr>"

subsection \<open>Invariant\<close>

definition granted :: "sem_sys \<Rightarrow> nat set" where
  "granted y = {t. sys_call y t \<noteq> None \<and> sem_up (sys_sem y) t}"

definition sem_shape :: "sem_sys \<Rightarrow> bool" where
  "sem_shape y \<longleftrightarrow> distinct (sem_wait (sys_sem y)) \<and> finite {t. sys_call y t \<noteq> None} \<and>
     (\<forall>t. t \<in> set (sem_wait (sys_sem y)) \<longleftrightarrow> sys_call y t \<noteq> None \<and> \<not> sem_up (sys_sem y) t) \<and>
     (sem_wait (sys_sem y) \<noteq> [] \<longrightarrow> sem_count (sys_sem y) = 0)"

text \<open>Every unit is in the counter, handed to a waiter that has not run yet, or acquired.\<close>

definition sem_balance :: "nat \<Rightarrow> sem_sys \<Rightarrow> bool" where
  "sem_balance n y \<longleftrightarrow> (n + sys_ups y < 2 ^ 31 \<longrightarrow>
     sem_count (sys_sem y) + card (granted y) + sys_downs y = n + sys_ups y)"

definition sem_inv :: "nat \<Rightarrow> sem_sys \<Rightarrow> bool" where
  "sem_inv n y \<longleftrightarrow> sem_shape y \<and> sem_balance n y"

lemma finite_granted: "sem_shape y \<Longrightarrow> finite (granted y)"
  by (auto simp: sem_shape_def granted_def intro: finite_subset [rotated])

lemma sem_shapeD:
  assumes "sem_shape y"
  shows "distinct (sem_wait (sys_sem y))" and "finite {t. sys_call y t \<noteq> None}"
    and "\<And>t. t \<in> set (sem_wait (sys_sem y)) \<longleftrightarrow> sys_call y t \<noteq> None \<and> \<not> sem_up (sys_sem y) t"
    and "sem_wait (sys_sem y) \<noteq> [] \<Longrightarrow> sem_count (sys_sem y) = 0"
  using assms by (auto simp: sem_shape_def)

text \<open>One call, from its first section to its return or its first sleep.\<close>

lemma down_call_cases:
  assumes "sem_shape y" and "sys_call y t = None"
  shows "down_call k t sig timeout (sys_sem y) =
      (if sem_count (sys_sem y) > 0 then (Acquired, sys_sem y\<lparr>sem_count := sem_count (sys_sem y) - 1\<rparr>)
       else down_common t (kind_state k) sig (if k = Down_timeout then timeout else MAX_SCHEDULE_TIMEOUT) (sys_sem y))"
  by (cases k) (simp_all add: down_def down_interruptible_def down_killable_def down_timeout_def)

lemma finite_call_upd: "finite {t. c t \<noteq> None} \<Longrightarrow> finite {t. (c(u := v)) t \<noteq> None}"
  by (rule finite_subset [of _ "insert u {t. c t \<noteq> None}"]) auto

lemma sem_call_inv:
  assumes inv: "sem_inv n y" and out: "sys_call y t = None"
  shows "sem_inv n (finish t k (down_call k t sig timeout (sys_sem y)) y)"
proof -
  let ?s = "sys_sem y"
  have sh: "sem_shape y" and bal: "sem_balance n y" using inv by (simp_all add: sem_inv_def)
  note d = sem_shapeD [OF sh]
  have tw: "t \<notin> set (sem_wait ?s)" using d(3) out by simp
  have g: "t \<notin> granted y" using out by (simp add: granted_def)
  show ?thesis
  proof (cases "sem_count ?s > 0")
    case True
    then have w: "sem_wait ?s = []" using d(4) by auto
    let ?y = "finish t k (Acquired, ?s\<lparr>sem_count := sem_count ?s - 1\<rparr>) y"
    have gr: "granted ?y = granted y" using out by (auto simp: granted_def)
    have "sem_shape ?y" using sh out w finite_call_upd [OF d(2), of t None] by (auto simp: sem_shape_def fun_upd_def)
    moreover have "sem_balance n ?y" using bal True unfolding sem_balance_def gr by auto
    ultimately show ?thesis using down_call_cases [OF sh out] True by (simp add: sem_inv_def)
  next
    case False
    then have c0: "sem_count ?s = 0" by simp
    let ?q = "?s\<lparr>sem_wait := sem_wait ?s @ [t], sem_up := (sem_up ?s)(t := False)\<rparr>"
    have rm: "remove1 t (sem_wait ?s @ [t]) = sem_wait ?s" using tw by (simp add: remove1_append)
    have res: "down_call k t sig timeout ?s \<in> {(Sleeping, ?q)} \<union> range (\<lambda>e. (Failed e, ?q\<lparr>sem_wait := sem_wait ?s\<rparr>))"
      using down_call_cases [OF sh out] False rm by (auto simp: down_common_def down_loop_def)
    have sl: "sem_inv n (finish t k (Sleeping, ?q) y)"
    proof -
      let ?y = "finish t k (Sleeping, ?q) y"
      have "granted ?y = granted y" using out by (auto simp: granted_def)
      moreover have "sem_shape ?y"
        using sh tw c0 finite_call_upd [OF d(2), of t "Some k"] by (auto simp: sem_shape_def fun_upd_def)
      ultimately show ?thesis using bal by (simp add: sem_inv_def sem_balance_def)
    qed
    have fl: "sem_inv n (finish t k (Failed e, ?q\<lparr>sem_wait := sem_wait ?s\<rparr>) y)" for e
    proof -
      let ?y = "finish t k (Failed e, ?q\<lparr>sem_wait := sem_wait ?s\<rparr>) y"
      have "granted ?y = granted y" using out by (auto simp: granted_def)
      moreover have "sem_shape ?y"
        using sh out finite_call_upd [OF d(2), of t None] by (auto simp: sem_shape_def fun_upd_def)
      ultimately show ?thesis using bal by (simp add: sem_inv_def sem_balance_def)
    qed
    show ?thesis using res sl fl by auto
  qed
qed

lemma sem_resume_inv:
  assumes inv: "sem_inv n y" and call: "sys_call y t = Some k"
  shows "sem_inv n (finish t k (down_resume t state sig timeout (sys_sem y)) y)"
proof -
  let ?s = "sys_sem y"
  have sh: "sem_shape y" and bal: "sem_balance n y" using inv by (simp_all add: sem_inv_def)
  note d = sem_shapeD [OF sh]
  show ?thesis
  proof (cases "sem_up ?s t")
    case True
    let ?y = "finish t k (Acquired, ?s) y"
    have "granted ?y = granted y - {t}" "t \<in> granted y" using True call by (auto simp: granted_def)
    then have "Suc (card (granted ?y)) = card (granted y)"
      using card_Suc_Diff1 [OF finite_granted [OF sh], of t] by simp
    moreover have "sem_shape ?y" using sh True finite_call_upd [OF d(2), of t None] by (auto simp: sem_shape_def fun_upd_def)
    ultimately have "sem_inv n ?y" using bal by (auto simp: sem_inv_def sem_balance_def)
    then show ?thesis using True by (simp add: down_resume_def)
  next
    case False
    let ?q = "?s\<lparr>sem_wait := remove1 t (sem_wait ?s)\<rparr>"
    have res: "down_resume t state sig timeout ?s \<in> {(Sleeping, ?s)} \<union> range (\<lambda>e. (Failed e, ?q))"
      using False by (auto simp: down_resume_def down_loop_def)
    have "finish t k (Sleeping, ?s) y = y" using call by (simp add: fun_upd_idem)
    then have sl: "sem_inv n (finish t k (Sleeping, ?s) y)" using inv by simp
    have fl: "sem_inv n (finish t k (Failed e, ?q) y)" for e
    proof -
      let ?y = "finish t k (Failed e, ?q) y"
      have "granted ?y = granted y" using False by (auto simp: granted_def)
      moreover have "sem_shape ?y"
        using sh finite_call_upd [OF d(2), of t None] d(1)
        by (auto simp: sem_shape_def fun_upd_def distinct_remove1_iff dest: in_set_remove1 [THEN iffD1])
      ultimately show ?thesis using bal by (simp add: sem_inv_def sem_balance_def)
    qed
    show ?thesis using res sl fl by auto
  qed
qed

lemma sem_up_inv:
  assumes inv: "sem_inv n y"
  shows "sem_inv n (y\<lparr>sys_sem := up (sys_sem y), sys_ups := Suc (sys_ups y)\<rparr>)"
proof -
  let ?s = "sys_sem y" and ?y = "y\<lparr>sys_sem := up (sys_sem y), sys_ups := Suc (sys_ups y)\<rparr>"
  have sh: "sem_shape y" and bal: "sem_balance n y" using inv by (simp_all add: sem_inv_def)
  note d = sem_shapeD [OF sh]
  show ?thesis
  proof (cases "sem_wait ?s")
    case Nil
    have gr: "granted ?y = granted y" using Nil by (simp add: granted_def up_def)
    have "sem_shape ?y" using sh Nil by (simp add: sem_shape_def up_def)
    moreover have "sem_balance n ?y"
      unfolding sem_balance_def gr using bal Nil by (auto simp: sem_balance_def up_def)
    ultimately show ?thesis by (simp add: sem_inv_def)
  next
    case (Cons t ts)
    have t: "sys_call y t \<noteq> None" "\<not> sem_up ?s t" "t \<notin> set ts" "distinct ts" using d(1) d(3) [of t] Cons by auto
    have c0: "sem_count ?s = 0" using d(4) Cons by simp
    have gr: "granted ?y = insert t (granted y)" "t \<notin> granted y" using Cons t by (auto simp: granted_def up_def up_waiter_def)
    have "card (granted ?y) = Suc (card (granted y))" using gr finite_granted [OF sh] by simp
    then have "sem_balance n ?y" using bal Cons by (auto simp: sem_balance_def up_def up_waiter_def)
    moreover have "sem_shape ?y"
      using sh Cons t c0 by (auto simp: sem_shape_def up_def up_waiter_def)
    ultimately show ?thesis by (simp add: sem_inv_def)
  qed
qed

lemma sem_trylock_inv:
  assumes inv: "sem_inv n y" and run: "down_trylock (sys_sem y) = (r, s)"
  shows "sem_inv n (y\<lparr>sys_sem := s, sys_downs := if r = 0 then Suc (sys_downs y) else sys_downs y\<rparr>)"
proof -
  let ?s = "sys_sem y" and ?c = "s32 (u32 (int (sem_count (sys_sem y)) - 1))"
  let ?y = "y\<lparr>sys_sem := s, sys_downs := if r = 0 then Suc (sys_downs y) else sys_downs y\<rparr>"
  have sh: "sem_shape y" and bal: "sem_balance n y" using inv by (simp_all add: sem_inv_def)
  note d = sem_shapeD [OF sh]
  have r: "r = (if ?c < 0 then 1 else 0)" and s: "s = (if ?c \<ge> 0 then ?s\<lparr>sem_count := u32 ?c\<rparr> else ?s)"
    using run by (auto simp: down_trylock_def Let_def)
  have gr: "granted ?y = granted y" by (simp add: granted_def s)
  have "sem_wait ?s \<noteq> [] \<Longrightarrow> s = ?s" using d(4) s by (simp add: s32_u32)
  then have "sem_shape ?y" using sh by (cases "sem_wait ?s = []") (auto simp: sem_shape_def s)
  moreover have "sem_balance n ?y"
    unfolding sem_balance_def
  proof
    assume b: "n + sys_ups ?y < 2 ^ 31"
    then have e: "sem_count ?s + card (granted y) + sys_downs y = n + sys_ups y" using bal by (simp add: sem_balance_def)
    then have lt: "int (sem_count ?s) < 2 ^ 31" using b by simp
    then have c: "?c = int (sem_count ?s) - 1" by (intro s32_u32) auto
    have "u32 (int (sem_count ?s) - 1) = sem_count ?s - 1" if "sem_count ?s \<noteq> 0"
      using that lt by (simp add: u32_def nat_diff_distrib)
    then show "sem_count (sys_sem ?y) + card (granted ?y) + sys_downs ?y = n + sys_ups ?y"
      unfolding gr using e s [unfolded c] r [unfolded c] by auto
  qed
  ultimately show ?thesis by (simp add: sem_inv_def)
qed

lemma sem_step_inv: "sem_step y z \<Longrightarrow> sem_inv n y \<Longrightarrow> sem_inv n z"
proof (induction rule: sem_step.induct)
  case (Trylock y r s)
  then show ?case by (intro sem_trylock_inv)
qed (auto intro: sem_call_inv sem_resume_inv sem_up_inv simp del: finish.simps)

lemma sem_start_inv: "sem_start n y \<Longrightarrow> sem_inv n y"
  by (simp add: sem_start_def sem_inv_def sem_shape_def sem_balance_def sema_init_def granted_def)

interpretation semsys: invariant_system "sem_start n" sem_step "sem_inv n" for n
  by unfold_locales (auto intro: sem_start_inv sem_step_inv)

subsection \<open>Waking in order\<close>

lemma up_funpow:
  assumes "k \<le> length (sem_wait s)" and "distinct (sem_wait s)"
  shows "sem_wait ((up ^^ k) s) = drop k (sem_wait s)"
    and "sem_up ((up ^^ k) s) = (\<lambda>t. t \<in> set (take k (sem_wait s)) \<or> sem_up s t)"
    and "sem_count ((up ^^ k) s) = sem_count s"
  using assms(1)
proof (induction k)
  case (Suc k)
  {
    case 1
    then have "drop k (sem_wait s) \<noteq> []" by simp
    then show ?case using Suc.IH(1) 1 by (simp add: up_def up_waiter_def drop_Suc tl_drop)
  next
    case 2
    then have ne: "drop k (sem_wait s) \<noteq> []" and hd: "hd (drop k (sem_wait s)) = sem_wait s ! k" by (simp_all add: hd_drop_conv_nth)
    have "set (take (Suc k) (sem_wait s)) = insert (sem_wait s ! k) (set (take k (sem_wait s)))"
      using 2 by (simp add: take_Suc_conv_app_nth)
    then show ?case using Suc.IH(1,2) 2 ne hd by (auto simp: up_def up_waiter_def fun_eq_iff)
  next
    case 3
    then have "drop k (sem_wait s) \<noteq> []" by simp
    then show ?case using Suc.IH(1,3) 3 by (simp add: up_def up_waiter_def)
  }
qed auto

end
