(* ===== verification/Rwsem.thy ===== *)
theory Rwsem
  imports Tasks
begin

text \<open>
  The reader/writer semaphore of \<^verbatim>\<open>kernel/locking/rwsem-spinlock.c\<close>. Readers are handed the lock by the task
  that releases it; writers are only woken and have to take it themselves, so that a running writer can
  take it first. The counter is an unbounded integer, as there are fewer tasks than \<open>2 ^ 31\<close>.
\<close>

subsection \<open>The lock\<close>

datatype rwsem_waiter_type = RWSEM_WAITING_FOR_WRITE | RWSEM_WAITING_FOR_READ

text \<open>
  \<open>rw_null t\<close>: the field \<^verbatim>\<open>task\<close> of the waiter of task \<open>t\<close> has been cleared, which hands it the lock.
  \<open>rw_run t\<close>: the task is runnable, not asleep in \<^verbatim>\<open>schedule()\<close>.
\<close>

record rw_semaphore =
  rw_count :: int
  rw_wait :: "(nat \<times> rwsem_waiter_type) list"
  rw_null :: "nat \<Rightarrow> bool"
  rw_run :: "nat \<Rightarrow> bool"

definition init_rwsem :: "rw_semaphore \<Rightarrow> rw_semaphore" where
  "init_rwsem s = s\<lparr>rw_count := 0, rw_wait := []\<rparr>"

text \<open>\<open>got\<close>: whether \<^verbatim>\<open>raw_spin_trylock_irqsave\<close> got the spinlock.\<close>

definition rwsem_is_locked :: "bool \<Rightarrow> rw_semaphore \<Rightarrow> bool" where
  "rwsem_is_locked got s = (if got then rw_count s \<noteq> 0 else True)"

definition wake_up_process :: "nat \<Rightarrow> rw_semaphore \<Rightarrow> rw_semaphore" where
  "wake_up_process t s = s\<lparr>rw_run := (rw_run s)(t := True)\<rparr>"

definition task_sleeps :: "nat \<Rightarrow> rw_semaphore \<Rightarrow> rw_semaphore" where
  "task_sleeps t s = s\<lparr>rw_run := (rw_run s)(t := False)\<rparr>"

text \<open>The loop of \<^verbatim>\<open>__rwsem_do_wake\<close> that hands the lock to the readers at the front of the queue.\<close>

fun rwsem_grant :: "(nat \<times> rwsem_waiter_type) list \<Rightarrow> int \<Rightarrow> rw_semaphore \<Rightarrow> int \<times> rw_semaphore" where
  "rwsem_grant [] woken s = (woken, s)"
| "rwsem_grant (w # ws) woken s =
     (let s1 = wake_up_process (fst w) (s\<lparr>rw_wait := ws, rw_null := (rw_null s)(fst w := True)\<rparr>)
      in if ws = [] then (woken + 1, s1)
         else if snd (hd ws) \<noteq> RWSEM_WAITING_FOR_WRITE then rwsem_grant ws (woken + 1) s1
         else (woken + 1, s1))"

definition rwsem_do_wake :: "bool \<Rightarrow> rw_semaphore \<Rightarrow> rw_semaphore" where
  "rwsem_do_wake wakewrite s =
     (let waiter = hd (rw_wait s)
      in if snd waiter = RWSEM_WAITING_FOR_WRITE then
           if wakewrite then wake_up_process (fst waiter) s else s
         else case rwsem_grant (rw_wait s) 0 s of (woken, s1) \<Rightarrow> s1\<lparr>rw_count := rw_count s1 + woken\<rparr>)"

definition rwsem_wake_one_writer :: "rw_semaphore \<Rightarrow> rw_semaphore" where
  "rwsem_wake_one_writer s = wake_up_process (fst (hd (rw_wait s))) s"

text \<open>The results say whether the lock was taken; otherwise the task is in its waiting loop.\<close>

definition down_read_trylock :: "rw_semaphore \<Rightarrow> bool \<times> rw_semaphore" where
  "down_read_trylock s =
     (if rw_count s \<ge> 0 \<and> rw_wait s = [] then (True, s\<lparr>rw_count := rw_count s + 1\<rparr>) else (False, s))"

definition down_read :: "nat \<Rightarrow> rw_semaphore \<Rightarrow> bool \<times> rw_semaphore" where
  "down_read t s =
     (if rw_count s \<ge> 0 \<and> rw_wait s = [] then (True, s\<lparr>rw_count := rw_count s + 1\<rparr>)
      else (False, task_sleeps t (s\<lparr>rw_wait := rw_wait s @ [(t, RWSEM_WAITING_FOR_READ)],
                                    rw_null := (rw_null s)(t := False)\<rparr>)))"

text \<open>One turn of a reader's waiting loop, after \<^verbatim>\<open>schedule()\<close>.\<close>

definition down_read_resume :: "nat \<Rightarrow> rw_semaphore \<Rightarrow> bool \<times> rw_semaphore" where
  "down_read_resume t s =
     (let s1 = task_sleeps t s in if rw_null s1 t then (True, wake_up_process t s1) else (False, s1))"

definition down_write_trylock :: "rw_semaphore \<Rightarrow> bool \<times> rw_semaphore" where
  "down_write_trylock s = (if rw_count s = 0 then (True, s\<lparr>rw_count := -1\<rparr>) else (False, s))"

text \<open>One turn of a writer's waiting loop.\<close>

definition down_write_loop :: "nat \<Rightarrow> rw_semaphore \<Rightarrow> bool \<times> rw_semaphore" where
  "down_write_loop t s =
     (if rw_count s = 0
      then (True, s\<lparr>rw_count := -1, rw_wait := remove1 (t, RWSEM_WAITING_FOR_WRITE) (rw_wait s)\<rparr>)
      else (False, task_sleeps t s))"

definition down_write :: "nat \<Rightarrow> rw_semaphore \<Rightarrow> bool \<times> rw_semaphore" where
  "down_write t s = down_write_loop t (s\<lparr>rw_wait := rw_wait s @ [(t, RWSEM_WAITING_FOR_WRITE)]\<rparr>)"

definition up_read :: "rw_semaphore \<Rightarrow> rw_semaphore" where
  "up_read s =
     (let s1 = s\<lparr>rw_count := rw_count s - 1\<rparr>
      in if rw_count s1 = 0 \<and> rw_wait s1 \<noteq> [] then rwsem_wake_one_writer s1 else s1)"

definition up_write :: "rw_semaphore \<Rightarrow> rw_semaphore" where
  "up_write s =
     (let s1 = s\<lparr>rw_count := 0\<rparr> in if rw_wait s1 \<noteq> [] then rwsem_do_wake True s1 else s1)"

definition downgrade_write :: "rw_semaphore \<Rightarrow> rw_semaphore" where
  "downgrade_write s =
     (let s1 = s\<lparr>rw_count := 1\<rparr> in if rw_wait s1 \<noteq> [] then rwsem_do_wake False s1 else s1)"

subsection \<open>Tasks using the lock\<close>

datatype rw_stat = Free | Reading | Writing | WaitRead | WaitWrite

record rw_sys =
  rw_sem :: rw_semaphore
  rw_stat :: "nat \<Rightarrow> rw_stat"

definition becomes :: "nat \<Rightarrow> rw_stat \<Rightarrow> rw_semaphore \<Rightarrow> rw_sys \<Rightarrow> rw_sys" where
  "becomes t st s y = y\<lparr>rw_sem := s, rw_stat := (rw_stat y)(t := st)\<rparr>"

text \<open>A waiting task runs its loop only when it is runnable; it may also be woken for no reason.\<close>

inductive rw_step :: "rw_sys \<Rightarrow> rw_sys \<Rightarrow> bool" where
  Read: "rw_stat y t = Free \<Longrightarrow> down_read t (rw_sem y) = (got, s) \<Longrightarrow>
    rw_step y (becomes t (if got then Reading else WaitRead) s y)"
| Read_resume: "rw_stat y t = WaitRead \<Longrightarrow> rw_run (rw_sem y) t \<Longrightarrow> down_read_resume t (rw_sem y) = (got, s) \<Longrightarrow>
    rw_step y (becomes t (if got then Reading else WaitRead) s y)"
| Read_try: "rw_stat y t = Free \<Longrightarrow> down_read_trylock (rw_sem y) = (got, s) \<Longrightarrow>
    rw_step y (becomes t (if got then Reading else Free) s y)"
| Write: "rw_stat y t = Free \<Longrightarrow> down_write t (rw_sem y) = (got, s) \<Longrightarrow>
    rw_step y (becomes t (if got then Writing else WaitWrite) s y)"
| Write_resume: "rw_stat y t = WaitWrite \<Longrightarrow> rw_run (rw_sem y) t \<Longrightarrow> down_write_loop t (rw_sem y) = (got, s) \<Longrightarrow>
    rw_step y (becomes t (if got then Writing else WaitWrite) s y)"
| Write_try: "rw_stat y t = Free \<Longrightarrow> down_write_trylock (rw_sem y) = (got, s) \<Longrightarrow>
    rw_step y (becomes t (if got then Writing else Free) s y)"
| Read_unlock: "rw_stat y t = Reading \<Longrightarrow> rw_step y (becomes t Free (up_read (rw_sem y)) y)"
| Write_unlock: "rw_stat y t = Writing \<Longrightarrow> rw_step y (becomes t Free (up_write (rw_sem y)) y)"
| Downgrade: "rw_stat y t = Writing \<Longrightarrow> rw_step y (becomes t Reading (downgrade_write (rw_sem y)) y)"
| Spurious: "rw_step y (y\<lparr>rw_sem := wake_up_process t (rw_sem y)\<rparr>)"

definition rw_start :: "rw_sys \<Rightarrow> bool" where
  "rw_start y \<longleftrightarrow> (\<exists>s. rw_sem y = init_rwsem s) \<and> (\<forall>t. rw_stat y t = Free)"

subsection \<open>Invariant\<close>

text \<open>The readers that have the lock, including those that have not noticed yet, and the writers.\<close>

definition readers :: "rw_sys \<Rightarrow> nat set" where
  "readers y = {t. rw_stat y t = Reading \<or> rw_stat y t = WaitRead \<and> rw_null (rw_sem y) t}"

definition writers :: "rw_sys \<Rightarrow> nat set" where
  "writers y = {t. rw_stat y t = Writing}"

definition rw_queue_ok :: "rw_sys \<Rightarrow> bool" where
  "rw_queue_ok y \<longleftrightarrow> distinct (map fst (rw_wait (rw_sem y))) \<and>
     (\<forall>t. (t, RWSEM_WAITING_FOR_READ) \<in> set (rw_wait (rw_sem y)) \<longleftrightarrow> rw_stat y t = WaitRead \<and> \<not> rw_null (rw_sem y) t) \<and>
     (\<forall>t. (t, RWSEM_WAITING_FOR_WRITE) \<in> set (rw_wait (rw_sem y)) \<longleftrightarrow> rw_stat y t = WaitWrite)"

definition rw_count_ok :: "rw_sys \<Rightarrow> bool" where
  "rw_count_ok y \<longleftrightarrow> finite (readers y) \<and>
     (if rw_count (rw_sem y) = -1 then readers y = {} \<and> (\<exists>t. writers y = {t})
      else writers y = {} \<and> rw_count (rw_sem y) = int (card (readers y)))"

text \<open>Nobody is forgotten: a free lock has its first waiter, a writer, awake; granted readers are awake.\<close>

definition rw_awake :: "rw_sys \<Rightarrow> bool" where
  "rw_awake y \<longleftrightarrow>
     (rw_count (rw_sem y) \<ge> 0 \<and> rw_wait (rw_sem y) \<noteq> [] \<longrightarrow> snd (hd (rw_wait (rw_sem y))) = RWSEM_WAITING_FOR_WRITE) \<and>
     (rw_count (rw_sem y) = 0 \<and> rw_wait (rw_sem y) \<noteq> [] \<longrightarrow> rw_run (rw_sem y) (fst (hd (rw_wait (rw_sem y))))) \<and>
     (\<forall>t. rw_stat y t = WaitRead \<and> rw_null (rw_sem y) t \<longrightarrow> rw_run (rw_sem y) t)"

definition rw_inv :: "rw_sys \<Rightarrow> bool" where
  "rw_inv y \<longleftrightarrow> rw_queue_ok y \<and> rw_count_ok y \<and> rw_awake y"

lemmas rw_op_defs = becomes_def wake_up_process_def task_sleeps_def
lemmas rw_inv_defs = rw_inv_def rw_queue_ok_def rw_count_ok_def rw_awake_def readers_def writers_def

lemma rw_invD:
  assumes "rw_inv y"
  shows "distinct (map fst (rw_wait (rw_sem y)))"
    and "\<And>t. (t, RWSEM_WAITING_FOR_READ) \<in> set (rw_wait (rw_sem y)) \<longleftrightarrow> rw_stat y t = WaitRead \<and> \<not> rw_null (rw_sem y) t"
    and "\<And>t. (t, RWSEM_WAITING_FOR_WRITE) \<in> set (rw_wait (rw_sem y)) \<longleftrightarrow> rw_stat y t = WaitWrite"
    and "finite (readers y)"
    and "rw_count (rw_sem y) = -1 \<Longrightarrow> readers y = {} \<and> (\<exists>t. writers y = {t})"
    and "rw_count (rw_sem y) \<noteq> -1 \<Longrightarrow> writers y = {} \<and> rw_count (rw_sem y) = int (card (readers y))"
  using assms by (auto simp: rw_inv_def rw_queue_ok_def rw_count_ok_def split: if_splits)

lemma rw_awakeD:
  assumes "rw_inv y"
  shows "rw_count (rw_sem y) \<ge> 0 \<Longrightarrow> rw_wait (rw_sem y) \<noteq> [] \<Longrightarrow> snd (hd (rw_wait (rw_sem y))) = RWSEM_WAITING_FOR_WRITE"
    and "rw_count (rw_sem y) = 0 \<Longrightarrow> rw_wait (rw_sem y) \<noteq> [] \<Longrightarrow> rw_run (rw_sem y) (fst (hd (rw_wait (rw_sem y))))"
    and "\<And>t. rw_stat y t = WaitRead \<Longrightarrow> rw_null (rw_sem y) t \<Longrightarrow> rw_run (rw_sem y) t"
  using assms by (auto simp: rw_inv_def rw_awake_def)

lemma rw_not_queued: "rw_inv y \<Longrightarrow> rw_stat y t \<noteq> WaitRead \<Longrightarrow> rw_stat y t \<noteq> WaitWrite \<Longrightarrow> t \<notin> fst ` set (rw_wait (rw_sem y))"
proof
  assume i: "rw_inv y" and t: "rw_stat y t \<noteq> WaitRead" "rw_stat y t \<noteq> WaitWrite" and "t \<in> fst ` set (rw_wait (rw_sem y))"
  then obtain k where "(t, k) \<in> set (rw_wait (rw_sem y))" by force
  then show False using rw_invD(2,3) [OF i, of t] t by (cases k) auto
qed

lemma sole_writer:
  assumes "rw_inv y" and "rw_stat y t = Writing"
  shows "rw_count (rw_sem y) = -1" and "writers y = {t}" and "readers y = {}"
proof -
  have t: "t \<in> writers y" using assms(2) by (simp add: writers_def)
  then show c: "rw_count (rw_sem y) = -1" using rw_invD(6) [OF assms(1)] by auto
  obtain u where "writers y = {u}" using rw_invD(5) [OF assms(1) c] by blast
  then show "writers y = {t}" using t by simp
  show "readers y = {}" using rw_invD(5) [OF assms(1) c] by blast
qed

lemma distinct_map_remove1: "distinct (map f xs) \<Longrightarrow> distinct (map f (remove1 x xs))"
  by (auto simp: distinct_map distinct_remove1 intro: inj_on_diff)

text \<open>Taking a read lock, or joining the queue.\<close>

lemma rw_read_got:
  assumes inv: "rw_inv y" and t: "rw_stat y t = Free" and c: "rw_count (rw_sem y) \<ge> 0" "rw_wait (rw_sem y) = []"
  shows "rw_inv (becomes t Reading ((rw_sem y)\<lparr>rw_count := rw_count (rw_sem y) + 1\<rparr>) y)"
proof -
  let ?y = "becomes t Reading ((rw_sem y)\<lparr>rw_count := rw_count (rw_sem y) + 1\<rparr>) y"
  note d = rw_invD [OF inv]
  have n: "t \<notin> readers y" "readers ?y = insert t (readers y)" "writers ?y = writers y"
    using t by (auto simp: readers_def writers_def becomes_def)
  have "rw_count_ok ?y" using d(4) d(6) c(1) n by (simp add: rw_count_ok_def becomes_def)
  moreover have "rw_queue_ok ?y" using d(2,3) c(2) t by (auto simp: rw_queue_ok_def becomes_def)
  moreover have "rw_awake ?y" using rw_awakeD(3) [OF inv] c(2) by (simp add: rw_awake_def becomes_def)
  ultimately show ?thesis by (simp add: rw_inv_def)
qed

lemma rw_read_wait:
  assumes inv: "rw_inv y" and t: "rw_stat y t = Free" and c: "\<not> (rw_count (rw_sem y) \<ge> 0 \<and> rw_wait (rw_sem y) = [])"
  shows "rw_inv (becomes t WaitRead (task_sleeps t ((rw_sem y)\<lparr>rw_wait := rw_wait (rw_sem y) @ [(t, RWSEM_WAITING_FOR_READ)],
    rw_null := (rw_null (rw_sem y))(t := False)\<rparr>)) y)" (is "rw_inv ?y")
proof -
  note d = rw_invD [OF inv]
  have nq: "t \<notin> fst ` set (rw_wait (rw_sem y))" using rw_not_queued [OF inv] t by simp
  have n: "readers ?y = readers y" "writers ?y = writers y" using t by (auto simp: readers_def writers_def rw_op_defs)
  have "rw_count_ok ?y" using inv n by (simp add: rw_inv_def rw_count_ok_def rw_op_defs)
  moreover have "rw_queue_ok ?y" using d(1,2,3) nq t by (auto simp: rw_queue_ok_def rw_op_defs)
  moreover have "rw_awake ?y"
  proof (cases "rw_wait (rw_sem y)")
    case Nil
    then show ?thesis using c rw_awakeD(3) [OF inv] by (auto simp: rw_awake_def rw_op_defs)
  next
    case (Cons w ws)
    then have "fst w \<noteq> t" using nq by auto
    then show ?thesis using Cons rw_awakeD [OF inv] by (auto simp: rw_awake_def rw_op_defs)
  qed
  ultimately show ?thesis by (simp add: rw_inv_def)
qed

lemma rw_read_resume:
  assumes inv: "rw_inv y" and t: "rw_stat y t = WaitRead" and run: "down_read_resume t (rw_sem y) = (got, s)"
  shows "rw_inv (becomes t (if got then Reading else WaitRead) s y)" (is "rw_inv ?y")
proof -
  note d = rw_invD [OF inv]
  have got: "got = rw_null (rw_sem y) t" and s: "s = (rw_sem y)\<lparr>rw_run := (rw_run (rw_sem y))(t := got)\<rparr>"
    using run by (auto simp: down_read_resume_def Let_def rw_op_defs split: if_splits)
  have n: "readers ?y = readers y" "writers ?y = writers y" using t by (auto simp: readers_def writers_def becomes_def s got)
  have "rw_count_ok ?y" using inv n by (simp add: rw_inv_def rw_count_ok_def becomes_def s)
  moreover have "rw_queue_ok ?y" using d(1,2,3) t got by (auto simp: rw_queue_ok_def becomes_def s)
  moreover have "rw_awake ?y"
  proof -
    have "fst (hd (rw_wait (rw_sem y))) \<noteq> t" if "rw_wait (rw_sem y) \<noteq> []" "rw_count (rw_sem y) = 0"
    proof
      assume "fst (hd (rw_wait (rw_sem y))) = t"
      then have "hd (rw_wait (rw_sem y)) = (t, RWSEM_WAITING_FOR_WRITE)" using rw_awakeD(1) [OF inv] that by (simp add: prod_eq_iff)
      then show False using d(3) [of t] t that(1) list.set_sel(1) by fastforce
    qed
    then show ?thesis using rw_awakeD [OF inv] t got by (auto simp: rw_awake_def becomes_def s)
  qed
  ultimately show ?thesis by (simp add: rw_inv_def)
qed

text \<open>Taking the write lock.\<close>

lemma rw_write_got:
  assumes inv: "rw_inv y" and c: "rw_count (rw_sem y) = 0" and t: "rw_stat y t = Free \<or> rw_stat y t = WaitWrite"
  shows "rw_inv (becomes t Writing ((rw_sem y)\<lparr>rw_count := -1,
    rw_wait := remove1 (t, RWSEM_WAITING_FOR_WRITE) (rw_wait (rw_sem y))\<rparr>) y)" (is "rw_inv ?y")
proof -
  note d = rw_invD [OF inv]
  have e: "writers y = {}" "readers y = {}" using d(4,6) c by simp_all
  have n: "readers ?y = readers y" "writers ?y = {t}" using t e(1) by (auto simp: readers_def writers_def becomes_def)
  have "rw_count_ok ?y" using e n by (simp add: rw_count_ok_def becomes_def)
  moreover have "rw_queue_ok ?y"
  proof -
    have "distinct (rw_wait (rw_sem y))" using d(1) by (simp add: distinct_map)
    moreover have "distinct (map fst (remove1 (t, RWSEM_WAITING_FOR_WRITE) (rw_wait (rw_sem y))))"
      using d(1) by (rule distinct_map_remove1)
    ultimately show ?thesis using d(2,3) t by (auto simp: rw_queue_ok_def becomes_def)
  qed
  moreover have "rw_awake ?y" using rw_awakeD(3) [OF inv] by (auto simp: rw_awake_def becomes_def)
  ultimately show ?thesis by (simp add: rw_inv_def)
qed

lemma rw_write_wait:
  assumes inv: "rw_inv y" and t: "rw_stat y t = Free" and c: "rw_count (rw_sem y) \<noteq> 0"
  shows "rw_inv (becomes t WaitWrite (task_sleeps t ((rw_sem y)\<lparr>rw_wait := rw_wait (rw_sem y) @ [(t, RWSEM_WAITING_FOR_WRITE)]\<rparr>)) y)"
    (is "rw_inv ?y")
proof -
  note d = rw_invD [OF inv]
  have nq: "t \<notin> fst ` set (rw_wait (rw_sem y))" using rw_not_queued [OF inv] t by simp
  have n: "readers ?y = readers y" "writers ?y = writers y" using t by (auto simp: readers_def writers_def rw_op_defs)
  have "rw_count_ok ?y" using inv n by (simp add: rw_inv_def rw_count_ok_def rw_op_defs)
  moreover have "rw_queue_ok ?y" using d(1,2,3) nq t by (auto simp: rw_queue_ok_def rw_op_defs)
  moreover have "rw_awake ?y" using c rw_awakeD [OF inv] by (cases "rw_wait (rw_sem y)") (auto simp: rw_awake_def rw_op_defs)
  ultimately show ?thesis by (simp add: rw_inv_def)
qed

lemma rw_write_sleep:
  assumes inv: "rw_inv y" and t: "rw_stat y t = WaitWrite" and c: "rw_count (rw_sem y) \<noteq> 0"
  shows "rw_inv (becomes t WaitWrite (task_sleeps t (rw_sem y)) y)" (is "rw_inv ?y")
proof -
  have n: "readers ?y = readers y" "writers ?y = writers y" using t by (auto simp: readers_def writers_def rw_op_defs)
  have "rw_count_ok ?y" using inv n by (simp add: rw_inv_def rw_count_ok_def rw_op_defs)
  moreover have "rw_queue_ok ?y" using inv t by (auto simp: rw_inv_def rw_queue_ok_def rw_op_defs)
  moreover have "rw_awake ?y" using c rw_awakeD [OF inv] t by (auto simp: rw_awake_def rw_op_defs)
  ultimately show ?thesis by (simp add: rw_inv_def)
qed

text \<open>Releasing a read lock: the last reader wakes the writer in front.\<close>

lemma rw_read_unlock:
  assumes inv: "rw_inv y" and t: "rw_stat y t = Reading"
  shows "rw_inv (becomes t Free (up_read (rw_sem y)) y)" (is "rw_inv ?y")
proof -
  note d = rw_invD [OF inv]
  have tr: "t \<in> readers y" using t by (simp add: readers_def)
  then have c: "rw_count (rw_sem y) \<noteq> -1" using d(5) by auto
  have s: "rw_count (rw_sem ?y) = rw_count (rw_sem y) - 1" "rw_wait (rw_sem ?y) = rw_wait (rw_sem y)"
      "rw_null (rw_sem ?y) = rw_null (rw_sem y)" "rw_stat ?y = (rw_stat y)(t := Free)"
      "rw_run (rw_sem ?y) u = (if rw_count (rw_sem y) = 1 \<and> rw_wait (rw_sem y) \<noteq> [] \<and> u = fst (hd (rw_wait (rw_sem y)))
        then True else rw_run (rw_sem y) u)" for u
    by (auto simp: becomes_def up_read_def rwsem_wake_one_writer_def wake_up_process_def Let_def)
  have n: "readers ?y = readers y - {t}" "writers ?y = writers y" using t by (auto simp: readers_def writers_def s)
  have pos: "0 < card (readers y)" using tr d(4) card_gt_0_iff by blast
  have "card (readers ?y) = card (readers y) - 1" using n(1) tr d(4) by simp
  then have "rw_count_ok ?y" using d(4,6) c n pos tr by (auto simp: rw_count_ok_def s(1) of_nat_diff)
  moreover have "rw_queue_ok ?y" using d(1,2,3) t by (auto simp: rw_queue_ok_def s)
  moreover have "rw_awake ?y" using rw_awakeD [OF inv] d(6) c by (auto simp: rw_awake_def s)
  ultimately show ?thesis by (simp add: rw_inv_def)
qed

text \<open>The loop that grants: exactly the readers before the first writer.\<close>

abbreviation is_reader :: "nat \<times> rwsem_waiter_type \<Rightarrow> bool" where
  "is_reader w \<equiv> snd w = RWSEM_WAITING_FOR_READ"

lemma rwsem_grant_eq:
  assumes "ws \<noteq> []" and "is_reader (hd ws)" and "rwsem_grant ws k s = (k', s')"
  shows "k' = k + int (length (takeWhile is_reader ws)) \<and> rw_wait s' = dropWhile is_reader ws \<and> rw_count s' = rw_count s \<and>
    (\<forall>t. rw_null s' t \<longleftrightarrow> rw_null s t \<or> t \<in> fst ` set (takeWhile is_reader ws)) \<and>
    (\<forall>t. rw_run s' t \<longleftrightarrow> rw_run s t \<or> t \<in> fst ` set (takeWhile is_reader ws))"
  using assms
proof (induction ws k s arbitrary: rule: rwsem_grant.induct)
  case (2 w ws k s)
  let ?s1 = "wake_up_process (fst w) (s\<lparr>rw_wait := ws, rw_null := (rw_null s)(fst w := True)\<rparr>)"
  have w: "is_reader w" using 2(3) by simp
  show ?case
  proof (cases "ws = []")
    case True
    then show ?thesis using 2(4) w by (auto simp: wake_up_process_def Let_def)
  next
    case ne: False
    show ?thesis
    proof (cases "is_reader (hd ws)")
      case True
      then have r: "snd (hd ws) \<noteq> RWSEM_WAITING_FOR_WRITE" by simp
      then have run: "rwsem_grant ws (k + 1) ?s1 = (k', s')" using 2(4) ne by (simp add: Let_def)
      from 2(1) [OF refl ne r ne True run] show ?thesis using w by (auto simp: wake_up_process_def)
    next
      case False
      then have "snd (hd ws) = RWSEM_WAITING_FOR_WRITE" by (cases "snd (hd ws)") auto
      then have "k' = k + 1" "s' = ?s1" using 2(4) ne by (simp_all add: Let_def)
      moreover have "takeWhile is_reader ws = []" "dropWhile is_reader ws = ws" using ne False by (cases ws; simp)+
      ultimately show ?thesis using w by (auto simp: wake_up_process_def)
    qed
  qed
qed simp

text \<open>
  The writer gives the lock away: either keeps none of it (\<open>b = 0\<close>) or keeps a read lock (\<open>b = 1\<close>). A
  queue that starts with a writer stays; a queue that starts with readers loses them to the lock.
\<close>

lemma rw_handover_readers:
  assumes inv: "rw_inv y" and t: "rw_stat y t = Writing" and ne: "rw_wait (rw_sem y) \<noteq> []" and hd: "is_reader (hd (rw_wait (rw_sem y)))"
    and st: "st = Free \<and> b = 0 \<or> st = Reading \<and> b = 1"
    and run: "rwsem_grant (rw_wait (rw_sem y)) 0 ((rw_sem y)\<lparr>rw_count := int b\<rparr>) = (woken, s)"
  shows "rw_inv (becomes t st (s\<lparr>rw_count := rw_count s + woken\<rparr>) y)" (is "rw_inv ?y")
proof -
  note d = rw_invD [OF inv]
  let ?w = "rw_wait (rw_sem y)"
  define G where "G = fst ` set (takeWhile is_reader ?w)"
  note g = rwsem_grant_eq [OF ne hd run]
  have wr: "writers y = {t}" "readers y = {}" using sole_writer [OF inv t] by simp_all
  have s: "rw_count (rw_sem ?y) = int b + int (length (takeWhile is_reader ?w))" "rw_wait (rw_sem ?y) = dropWhile is_reader ?w"
      "\<And>u. rw_null (rw_sem ?y) u \<longleftrightarrow> rw_null (rw_sem y) u \<or> u \<in> G" "\<And>u. rw_run (rw_sem ?y) u \<longleftrightarrow> rw_run (rw_sem y) u \<or> u \<in> G"
      "rw_stat ?y = (rw_stat y)(t := st)"
    using g by (simp_all add: becomes_def G_def)
  have sp: "?w = takeWhile is_reader ?w @ dropWhile is_reader ?w" by simp
  have dis: "distinct (map fst (takeWhile is_reader ?w) @ map fst (dropWhile is_reader ?w))" using d(1) by (metis map_append sp)
  have Gd: "u \<notin> G" if "(u, k) \<in> set (dropWhile is_reader ?w)" for u k using dis that by (force simp: G_def)
  have GW: "rw_stat y u = WaitRead \<and> \<not> rw_null (rw_sem y) u" if "u \<in> G" for u
  proof -
    obtain k where "(u, k) \<in> set (takeWhile is_reader ?w)" using \<open>u \<in> G\<close> by (auto simp: G_def)
    then have "(u, RWSEM_WAITING_FOR_READ) \<in> set ?w" using set_takeWhileD by fastforce
    then show ?thesis using d(2) by simp
  qed
  have tG: "t \<notin> G" using GW t by fastforce
  have cG: "card G = length (takeWhile is_reader ?w)"
    using dis distinct_card [of "map fst (takeWhile is_reader ?w)"] by (simp add: G_def)
  have pos: "0 < length (takeWhile is_reader ?w)" using ne hd by (cases ?w) auto
  have n: "readers ?y = (if b = 1 then insert t G else G)" "writers ?y = {}"
    using wr st GW t by (auto simp: readers_def writers_def s split: if_splits)
  have fin: "finite G" by (simp add: G_def)
  have "rw_count_ok ?y" using n cG fin tG st pos by (auto simp: rw_count_ok_def s(1))
  moreover have "rw_queue_ok ?y"
  proof -
    have "(u, RWSEM_WAITING_FOR_READ) \<in> set (dropWhile is_reader ?w) \<longleftrightarrow> rw_stat ?y u = WaitRead \<and> \<not> rw_null (rw_sem ?y) u" for u
    proof
      assume m: "(u, RWSEM_WAITING_FOR_READ) \<in> set (dropWhile is_reader ?w)"
      then have "rw_stat y u = WaitRead \<and> \<not> rw_null (rw_sem y) u" using d(2) [of u] set_dropWhileD by fastforce
      then show "rw_stat ?y u = WaitRead \<and> \<not> rw_null (rw_sem ?y) u" using Gd [OF m] t by (auto simp: s)
    next
      assume m: "rw_stat ?y u = WaitRead \<and> \<not> rw_null (rw_sem ?y) u"
      then have "(u, RWSEM_WAITING_FOR_READ) \<in> set ?w" "u \<notin> G" using d(2) st by (auto simp: s split: if_splits)
      moreover from this have "(u, RWSEM_WAITING_FOR_READ) \<notin> set (takeWhile is_reader ?w)" by (force simp: G_def)
      ultimately show "(u, RWSEM_WAITING_FOR_READ) \<in> set (dropWhile is_reader ?w)" by (metis Un_iff set_append sp)
    qed
    moreover have "(u, RWSEM_WAITING_FOR_WRITE) \<in> set (dropWhile is_reader ?w) \<longleftrightarrow> rw_stat ?y u = WaitWrite" for u
    proof -
      have "(u, RWSEM_WAITING_FOR_WRITE) \<notin> set (takeWhile is_reader ?w)" using set_takeWhileD by fastforce
      then have "(u, RWSEM_WAITING_FOR_WRITE) \<in> set (dropWhile is_reader ?w) \<longleftrightarrow> (u, RWSEM_WAITING_FOR_WRITE) \<in> set ?w"
        by (metis Un_iff set_append sp)
      then show ?thesis using d(3) st t by (auto simp: s)
    qed
    ultimately show ?thesis using dis by (simp add: rw_queue_ok_def s(2))
  qed
  moreover have "rw_awake ?y"
  proof -
    have "snd (hd (dropWhile is_reader ?w)) = RWSEM_WAITING_FOR_WRITE" if "dropWhile is_reader ?w \<noteq> []"
      using hd_dropWhile [OF that] by (cases "snd (hd (dropWhile is_reader ?w))") auto
    then show ?thesis using pos rw_awakeD(3) [OF inv] st by (auto simp: rw_awake_def s split: if_splits)
  qed
  ultimately show ?thesis by (simp add: rw_inv_def)
qed

lemma rw_handover:
  assumes inv: "rw_inv y" and t: "rw_stat y t = Writing"
    and st: "st = Free \<and> b = (0 :: nat) \<and> ww \<or> st = Reading \<and> b = 1 \<and> \<not> ww"
    and s: "s = (let s1 = (rw_sem y)\<lparr>rw_count := int b\<rparr> in if rw_wait s1 \<noteq> [] then rwsem_do_wake ww s1 else s1)"
  shows "rw_inv (becomes t st s y)"
proof (cases "rw_wait (rw_sem y) \<noteq> [] \<and> is_reader (hd (rw_wait (rw_sem y)))")
  case True
  obtain woken s2 where g: "rwsem_grant (rw_wait (rw_sem y)) 0 ((rw_sem y)\<lparr>rw_count := int b\<rparr>) = (woken, s2)" by fastforce
  have "s = s2\<lparr>rw_count := rw_count s2 + woken\<rparr>" using s g True by (simp add: Let_def rwsem_do_wake_def)
  moreover have "st = Free \<and> b = 0 \<or> st = Reading \<and> b = 1" using st by blast
  ultimately show ?thesis using rw_handover_readers [OF inv t _ _ _ g] True by simp
next
  case False
  note d = rw_invD [OF inv]
  let ?y = "becomes t st s y" and ?w = "rw_wait (rw_sem y)"
  have hdw: "snd (hd ?w) = RWSEM_WAITING_FOR_WRITE" if "?w \<noteq> []" using False that by (cases "snd (hd ?w)") auto
  have f: "rw_count (rw_sem ?y) = int b" "rw_wait (rw_sem ?y) = ?w" "rw_null (rw_sem ?y) = rw_null (rw_sem y)" "rw_stat ?y = (rw_stat y)(t := st)"
      "\<And>u. rw_run (rw_sem ?y) u \<longleftrightarrow> rw_run (rw_sem y) u \<or> ww \<and> ?w \<noteq> [] \<and> u = fst (hd ?w)"
    using s hdw by (auto simp: becomes_def Let_def rwsem_do_wake_def wake_up_process_def)
  have wr: "writers y = {t}" "readers y = {}" using sole_writer [OF inv t] by simp_all
  have n: "readers ?y = (if b = 1 then {t} else {})" "writers ?y = {}"
    using wr st by (auto simp: readers_def writers_def f split: if_splits)
  have "rw_count_ok ?y" using n st by (auto simp: rw_count_ok_def f(1))
  moreover have "rw_queue_ok ?y" using d(1,2,3) t st by (auto simp: rw_queue_ok_def f)
  moreover have "rw_awake ?y" using rw_awakeD(3) [OF inv] hdw st by (auto simp: rw_awake_def f split: if_splits)
  ultimately show ?thesis by (simp add: rw_inv_def)
qed

lemma rw_step_inv: "rw_step y z \<Longrightarrow> rw_inv y \<Longrightarrow> rw_inv z"
proof (induction rule: rw_step.induct)
  case (Read y t got s)
  then show ?case using rw_read_got rw_read_wait by (auto simp: down_read_def split: if_splits)
next
  case (Read_resume y t got s)
  then show ?case by (intro rw_read_resume)
next
  case (Read_try y t got s)
  have "becomes t Free (rw_sem y) y = y" using Read_try.hyps(1) by (simp add: becomes_def fun_upd_idem)
  then show ?case using Read_try rw_read_got by (auto simp: down_read_trylock_def split: if_splits)
next
  case (Write y t got s)
  have "t \<notin> fst ` set (rw_wait (rw_sem y))" using rw_not_queued [OF Write.prems] Write.hyps(1) by simp
  then have "(t, RWSEM_WAITING_FOR_WRITE) \<notin> set (rw_wait (rw_sem y))" by force
  then have "remove1 (t, RWSEM_WAITING_FOR_WRITE) (rw_wait (rw_sem y) @ [(t, RWSEM_WAITING_FOR_WRITE)]) =
      remove1 (t, RWSEM_WAITING_FOR_WRITE) (rw_wait (rw_sem y))"
    by (simp add: remove1_append remove1_idem)
  then show ?case using Write rw_write_got [OF Write.prems _ disjI1] rw_write_wait [OF Write.prems]
    by (auto simp: down_write_def down_write_loop_def split: if_splits)
next
  case (Write_resume y t got s)
  then show ?case using rw_write_got [OF Write_resume.prems _ disjI2] rw_write_sleep [OF Write_resume.prems]
    by (auto simp: down_write_loop_def split: if_splits)
next
  case (Write_try y t got s)
  have "t \<notin> fst ` set (rw_wait (rw_sem y))" using rw_not_queued [OF Write_try.prems] Write_try.hyps(1) by simp
  then have "(t, RWSEM_WAITING_FOR_WRITE) \<notin> set (rw_wait (rw_sem y))" by force
  then have "remove1 (t, RWSEM_WAITING_FOR_WRITE) (rw_wait (rw_sem y)) = rw_wait (rw_sem y)" by (simp add: remove1_idem)
  moreover have "becomes t Free (rw_sem y) y = y" using Write_try.hyps(1) by (simp add: becomes_def fun_upd_idem)
  ultimately show ?case using Write_try rw_write_got [OF Write_try.prems _ disjI1, of t]
    by (auto simp: down_write_trylock_def split: if_splits)
next
  case (Read_unlock y t)
  then show ?case by (intro rw_read_unlock)
next
  case (Write_unlock y t)
  then show ?case by (intro rw_handover [where b = 0 and ww = True]) (simp_all add: up_write_def)
next
  case (Downgrade y t)
  then show ?case by (intro rw_handover [where b = 1 and ww = False]) (simp_all add: downgrade_write_def)
next
  case (Spurious y t)
  then show ?case by (auto simp: rw_inv_defs wake_up_process_def)
qed

lemma rw_start_inv: "rw_start y \<Longrightarrow> rw_inv y"
  by (auto simp: rw_start_def rw_inv_defs init_rwsem_def)

interpretation rwsys: invariant_system rw_start rw_step rw_inv
  by unfold_locales (auto intro: rw_start_inv rw_step_inv)

end
