(* ===== verification/Completion.thy ===== *)
theory Completion
  imports Tasks
begin

text \<open>
  Completions of \<^verbatim>\<open>kernel/sched/completion.c\<close>, with the wake-up loop of \<^verbatim>\<open>kernel/sched/wait.c\<close> they use. A
  waiting call is cut where it drops the lock in \<^verbatim>\<open>action(timeout)\<close>.
\<close>

subsection \<open>The completion\<close>

text \<open>\<open>comp_run t\<close>: the task is runnable. All waiters here are exclusive.\<close>

record completion =
  comp_done :: nat
  comp_wait :: "nat list"
  comp_run :: "nat \<Rightarrow> bool"

text \<open>\<^verbatim>\<open>__wake_up_common\<close>: waking a task that runs already does not count.\<close>

fun wake_up_common :: "nat list \<Rightarrow> int \<Rightarrow> (nat \<Rightarrow> bool) \<Rightarrow> nat \<Rightarrow> bool" where
  "wake_up_common [] nr run = run"
| "wake_up_common (t # ts) nr run =
     (if \<not> run t then
        if nr - 1 = 0 then run(t := True) else wake_up_common ts (nr - 1) (run(t := True))
      else wake_up_common ts nr run)"

definition init_completion :: "completion \<Rightarrow> completion" where
  "init_completion x = x\<lparr>comp_done := 0, comp_wait := []\<rparr>"

definition reinit_completion :: "completion \<Rightarrow> completion" where
  "reinit_completion x = x\<lparr>comp_done := 0\<rparr>"

definition complete :: "completion \<Rightarrow> completion" where
  "complete x = x\<lparr>comp_done := (comp_done x + 1) mod 2 ^ 32, comp_run := wake_up_common (comp_wait x) 1 (comp_run x)\<rparr>"

definition complete_all :: "completion \<Rightarrow> completion" where
  "complete_all x = x\<lparr>comp_done := (comp_done x + (2 ^ 32 - 1) div 2) mod 2 ^ 32,
     comp_run := wake_up_common (comp_wait x) 0 (comp_run x)\<rparr>"

datatype wait_result = Waiting | Returned int

text \<open>The parts of \<^verbatim>\<open>do_wait_for_common\<close>: after the loop, at the head of the loop, after \<^verbatim>\<open>action\<close>, and the entry.\<close>

definition wait_exit :: "nat \<Rightarrow> int \<Rightarrow> completion \<Rightarrow> wait_result \<times> completion" where
  "wait_exit t timeout x =
     (let x1 = x\<lparr>comp_wait := remove1 t (comp_wait x)\<rparr>
      in if comp_done x1 = 0 then (Returned timeout, x1)
         else (Returned (if timeout \<noteq> 0 then timeout else 1), x1\<lparr>comp_done := comp_done x1 - 1\<rparr>))"

definition wait_head :: "nat \<Rightarrow> sleep_state \<Rightarrow> task_signals \<Rightarrow> completion \<Rightarrow> wait_result \<times> completion" where
  "wait_head t state sig x =
     (if signal_pending_state state sig then wait_exit t (- ERESTARTSYS) x
      else (Waiting, x\<lparr>comp_run := (comp_run x)(t := False)\<rparr>))"

definition wait_resume :: "nat \<Rightarrow> sleep_state \<Rightarrow> task_signals \<Rightarrow> int \<Rightarrow> completion \<Rightarrow> wait_result \<times> completion" where
  "wait_resume t state sig timeout x =
     (if comp_done x = 0 \<and> timeout \<noteq> 0 then wait_head t state sig x else wait_exit t timeout x)"

definition wait_for_common :: "nat \<Rightarrow> sleep_state \<Rightarrow> task_signals \<Rightarrow> int \<Rightarrow> completion \<Rightarrow> wait_result \<times> completion" where
  "wait_for_common t state sig timeout x =
     (if comp_done x = 0 then wait_head t state sig (x\<lparr>comp_wait := comp_wait x @ [t]\<rparr>)
      else (Returned (if timeout \<noteq> 0 then timeout else 1), x\<lparr>comp_done := comp_done x - 1\<rparr>))"

definition try_wait_for_completion :: "completion \<Rightarrow> bool \<times> completion" where
  "try_wait_for_completion x =
     (if comp_done x = 0 then (False, x) else (True, x\<lparr>comp_done := comp_done x - 1\<rparr>))"

definition completion_done :: "completion \<Rightarrow> bool" where
  "completion_done x \<longleftrightarrow> comp_done x \<noteq> 0"

text \<open>
  The public calls, by sleep state, with or without a time limit. The interruptible and killable ones
  without a limit turn every result but \<^verbatim>\<open>-ERESTARTSYS\<close> into zero.
\<close>

fun return_with :: "(int \<Rightarrow> int) \<Rightarrow> wait_result \<times> completion \<Rightarrow> wait_result \<times> completion" where
  "return_with f (Waiting, x) = (Waiting, x)"
| "return_with f (Returned r, x) = (Returned (f r), x)"

definition killable_result :: "int \<Rightarrow> int" where
  "killable_result t = (if t = - ERESTARTSYS then t else 0)"

definition wait_for_completion :: "nat \<Rightarrow> task_signals \<Rightarrow> completion \<Rightarrow> wait_result \<times> completion" where
  "wait_for_completion t sig x = wait_for_common t TASK_UNINTERRUPTIBLE sig MAX_SCHEDULE_TIMEOUT x"

definition wait_for_completion_timeout :: "nat \<Rightarrow> task_signals \<Rightarrow> int \<Rightarrow> completion \<Rightarrow> wait_result \<times> completion" where
  "wait_for_completion_timeout t sig timeout x = wait_for_common t TASK_UNINTERRUPTIBLE sig timeout x"

text \<open>The calls that account the wait as I/O differ in \<^verbatim>\<open>io_schedule_timeout\<close> only.\<close>

definition wait_for_completion_io :: "nat \<Rightarrow> task_signals \<Rightarrow> completion \<Rightarrow> wait_result \<times> completion" where
  "wait_for_completion_io t sig x = wait_for_common t TASK_UNINTERRUPTIBLE sig MAX_SCHEDULE_TIMEOUT x"

definition wait_for_completion_io_timeout :: "nat \<Rightarrow> task_signals \<Rightarrow> int \<Rightarrow> completion \<Rightarrow> wait_result \<times> completion" where
  "wait_for_completion_io_timeout t sig timeout x = wait_for_common t TASK_UNINTERRUPTIBLE sig timeout x"

definition wait_for_completion_interruptible :: "nat \<Rightarrow> task_signals \<Rightarrow> completion \<Rightarrow> wait_result \<times> completion" where
  "wait_for_completion_interruptible t sig x =
     return_with killable_result (wait_for_common t TASK_INTERRUPTIBLE sig MAX_SCHEDULE_TIMEOUT x)"

definition wait_for_completion_interruptible_timeout :: "nat \<Rightarrow> task_signals \<Rightarrow> int \<Rightarrow> completion \<Rightarrow> wait_result \<times> completion" where
  "wait_for_completion_interruptible_timeout t sig timeout x = wait_for_common t TASK_INTERRUPTIBLE sig timeout x"

definition wait_for_completion_killable :: "nat \<Rightarrow> task_signals \<Rightarrow> completion \<Rightarrow> wait_result \<times> completion" where
  "wait_for_completion_killable t sig x =
     return_with killable_result (wait_for_common t TASK_KILLABLE sig MAX_SCHEDULE_TIMEOUT x)"

definition wait_for_completion_killable_timeout :: "nat \<Rightarrow> task_signals \<Rightarrow> int \<Rightarrow> completion \<Rightarrow> wait_result \<times> completion" where
  "wait_for_completion_killable_timeout t sig timeout x = wait_for_common t TASK_KILLABLE sig timeout x"

subsection \<open>Tasks using a completion\<close>

record comp_sys =
  cs_comp :: completion
  cs_call :: "nat \<Rightarrow> (sleep_state \<times> bool) option"
  cs_signalled :: nat
  cs_consumed :: nat

text \<open>A call is kept with its sleep state and whether it has a time limit.\<close>

definition wait_call :: "sleep_state \<Rightarrow> bool \<Rightarrow> nat \<Rightarrow> task_signals \<Rightarrow> int \<Rightarrow> completion \<Rightarrow> wait_result \<times> completion" where
  "wait_call state limit t sig timeout x =
     (case (state, limit) of
        (TASK_UNINTERRUPTIBLE, False) \<Rightarrow> wait_for_completion t sig x
      | (TASK_UNINTERRUPTIBLE, True) \<Rightarrow> wait_for_completion_timeout t sig timeout x
      | (TASK_INTERRUPTIBLE, False) \<Rightarrow> wait_for_completion_interruptible t sig x
      | (TASK_INTERRUPTIBLE, True) \<Rightarrow> wait_for_completion_interruptible_timeout t sig timeout x
      | (TASK_KILLABLE, False) \<Rightarrow> wait_for_completion_killable t sig x
      | (TASK_KILLABLE, True) \<Rightarrow> wait_for_completion_killable_timeout t sig timeout x)"

fun wait_finish :: "nat \<Rightarrow> sleep_state \<times> bool \<Rightarrow> wait_result \<times> completion \<Rightarrow> comp_sys \<Rightarrow> comp_sys" where
  "wait_finish t c (Waiting, x) y = y\<lparr>cs_comp := x, cs_call := (cs_call y)(t := Some c)\<rparr>"
| "wait_finish t c (Returned r, x) y =
     y\<lparr>cs_comp := x, cs_call := (cs_call y)(t := None),
       cs_consumed := cs_consumed y + (comp_done (cs_comp y) - comp_done x)\<rparr>"

inductive comp_step :: "comp_sys \<Rightarrow> comp_sys \<Rightarrow> bool" where
  Wait: "cs_call y t = None \<Longrightarrow> comp_step y (wait_finish t (st, lim) (wait_call st lim t sig timeout (cs_comp y)) y)"
| Resume: "cs_call y t = Some (st, lim) \<Longrightarrow> comp_run (cs_comp y) t \<Longrightarrow> \<not> lim \<longrightarrow> timeout = MAX_SCHEDULE_TIMEOUT \<Longrightarrow>
    comp_step y (wait_finish t (st, lim) (wait_resume t st sig timeout (cs_comp y)) y)"
| Complete: "comp_step y (y\<lparr>cs_comp := complete (cs_comp y), cs_signalled := cs_signalled y + 1\<rparr>)"
| Complete_all: "comp_step y (y\<lparr>cs_comp := complete_all (cs_comp y), cs_signalled := cs_signalled y + (2 ^ 32 - 1) div 2\<rparr>)"
| Try: "try_wait_for_completion (cs_comp y) = (got, x) \<Longrightarrow>
    comp_step y (y\<lparr>cs_comp := x, cs_consumed := if got then Suc (cs_consumed y) else cs_consumed y\<rparr>)"
| Spurious: "comp_step y (y\<lparr>cs_comp := (cs_comp y)\<lparr>comp_run := (comp_run (cs_comp y))(t := True)\<rparr>\<rparr>)"

definition comp_start :: "comp_sys \<Rightarrow> bool" where
  "comp_start y \<longleftrightarrow> (\<exists>x. cs_comp y = init_completion x) \<and> (\<forall>t. cs_call y t = None) \<and> cs_signalled y = 0 \<and> cs_consumed y = 0"

subsection \<open>Invariant\<close>

definition awake :: "completion \<Rightarrow> nat list" where
  "awake x = filter (comp_run x) (comp_wait x)"

definition comp_inv :: "comp_sys \<Rightarrow> bool" where
  "comp_inv y \<longleftrightarrow> distinct (comp_wait (cs_comp y)) \<and> (\<forall>t. t \<in> set (comp_wait (cs_comp y)) \<longleftrightarrow> cs_call y t \<noteq> None) \<and>
     min (comp_done (cs_comp y)) (length (comp_wait (cs_comp y))) \<le> length (awake (cs_comp y)) \<and>
     (cs_signalled y < 2 ^ 32 \<longrightarrow> comp_done (cs_comp y) + cs_consumed y = cs_signalled y)"

lemma wake_mono: "run t \<Longrightarrow> wake_up_common ts nr run t"
  by (induction ts nr run rule: wake_up_common.induct) auto

lemma wake_all: "t \<in> set ts \<Longrightarrow> nr \<le> 0 \<Longrightarrow> wake_up_common ts nr run t"
  by (induction ts nr run rule: wake_up_common.induct) (auto intro: wake_mono)

lemma wake_one:
  assumes "distinct ts"
  shows "min (Suc (length (filter run ts))) (length ts) \<le> length (filter (wake_up_common ts 1 run) ts)"
  using assms
proof (induction ts)
  case (Cons t ts)
  show ?case
  proof (cases "run t")
    case True
    then have "wake_up_common (t # ts) 1 run = wake_up_common ts 1 run" by simp
    then show ?thesis using Cons True wake_mono [of run t ts 1] by simp
  next
    case False
    then have w: "wake_up_common (t # ts) 1 run = run(t := True)" by simp
    have "filter (run(t := True)) ts = filter run ts" using Cons.prems by (intro filter_cong) auto
    then show ?thesis using False unfolding w by (simp del: fun_upd_apply add: fun_upd_same)
  qed
qed simp

text \<open>Leaving the queue, by success, signal or time-out.\<close>

lemma length_filter_remove1: "distinct xs \<Longrightarrow> x \<in> set xs \<Longrightarrow> length (filter P (remove1 x xs)) = length (filter P xs) - (if P x then 1 else 0)"
proof (induction xs)
  case (Cons a xs)
  have "P x \<Longrightarrow> x \<in> set xs \<Longrightarrow> 0 < length (filter P xs)" by (auto simp: filter_empty_conv)
  then show ?case using Cons by auto
qed simp

lemma comp_exit_inv:
  assumes inv: "comp_inv y" and t: "cs_call y t = Some c" and r: "comp_run (cs_comp y) t \<or> comp_done (cs_comp y) = 0"
  shows "comp_inv (wait_finish t c (wait_exit t timeout (cs_comp y)) y)"
proof -
  let ?x = "cs_comp y"
  have d: "distinct (comp_wait ?x)" "\<And>u. u \<in> set (comp_wait ?x) \<longleftrightarrow> cs_call y u \<noteq> None"
      "min (comp_done ?x) (length (comp_wait ?x)) \<le> length (awake ?x)"
      "cs_signalled y < 2 ^ 32 \<longrightarrow> comp_done ?x + cs_consumed y = cs_signalled y"
    using inv by (auto simp: comp_inv_def)
  have tw: "t \<in> set (comp_wait ?x)" using d(2) t by simp
  have l: "length (remove1 t (comp_wait ?x)) = length (comp_wait ?x) - 1" using tw by (simp add: length_remove1)
  have a: "length (filter (comp_run ?x) (remove1 t (comp_wait ?x))) = length (awake ?x) - (if comp_run ?x t then 1 else 0)"
    using length_filter_remove1 [OF d(1) tw] by (simp add: awake_def)
  show ?thesis
  proof (cases "comp_done ?x = 0")
    case True
    then show ?thesis using d(1,2,4) by (auto simp: wait_exit_def Let_def comp_inv_def)
  next
    case False
    let ?z = "?x\<lparr>comp_wait := remove1 t (comp_wait ?x), comp_done := comp_done ?x - 1\<rparr>"
    have res: "wait_finish t c (wait_exit t timeout ?x) y =
        y\<lparr>cs_comp := ?z, cs_call := (cs_call y)(t := None), cs_consumed := cs_consumed y + 1\<rparr>"
      using False by (simp add: wait_exit_def Let_def)
    have "min (comp_done ?x - 1) (length (comp_wait ?x) - 1) \<le> length (awake ?x) - 1" using d(3) by simp
    then have "min (comp_done ?z) (length (comp_wait ?z)) \<le> length (awake ?z)"
      unfolding awake_def [of ?z] using l a r False by simp
    then show ?thesis unfolding res using d(1,2,4) False by (auto simp: comp_inv_def)
  qed
qed

lemma comp_sleep_inv:
  assumes inv: "comp_inv y" and t: "cs_call y t = Some c" and z: "comp_done (cs_comp y) = 0"
  shows "comp_inv (wait_finish t c (wait_head t st sig (cs_comp y)) y)"
proof (cases "signal_pending_state st sig")
  case True
  then show ?thesis using comp_exit_inv [OF inv t, of "- ERESTARTSYS"] z by (simp add: wait_head_def)
next
  case False
  then show ?thesis using inv t z by (auto simp: wait_head_def comp_inv_def)
qed

text \<open>Enqueueing with nothing done keeps the invariant, so a new call is a call that sits in the queue already.\<close>

lemma comp_enqueue_inv:
  assumes inv: "comp_inv y" and t: "cs_call y t = None" and z: "comp_done (cs_comp y) = 0"
  shows "comp_inv (y\<lparr>cs_comp := (cs_comp y)\<lparr>comp_wait := comp_wait (cs_comp y) @ [t]\<rparr>, cs_call := (cs_call y)(t := Some c)\<rparr>)"
  using assms by (auto simp: comp_inv_def)

lemma wait_finish_return [simp]: "wait_finish t c (return_with f p) y = wait_finish t c p y"
  by (cases "(f, p)" rule: return_with.cases) auto

lemma wait_call_common:
  "\<exists>timeout'. wait_finish t c (wait_call st lim t sig timeout x) y = wait_finish t c (wait_for_common t st sig timeout' x) y"
  by (cases st; cases lim)
    (auto simp: wait_call_def wait_for_completion_def wait_for_completion_timeout_def wait_for_completion_interruptible_def
      wait_for_completion_interruptible_timeout_def wait_for_completion_killable_def wait_for_completion_killable_timeout_def)

lemma wait_finish_enqueued:
  assumes "comp_done (cs_comp y) = 0" "comp_done x = 0"
  shows "wait_finish t c (wait_head t st sig x) y = wait_finish t c (wait_head t st sig x) (y\<lparr>cs_comp := x, cs_call := (cs_call y)(t := Some c)\<rparr>)"
  using assms by (auto simp: wait_head_def wait_exit_def Let_def)

lemma comp_wait_inv:
  assumes inv: "comp_inv y" and t: "cs_call y t = None"
  shows "comp_inv (wait_finish t c (wait_for_common t st sig timeout (cs_comp y)) y)"
proof (cases "comp_done (cs_comp y) = 0")
  case True
  let ?x = "(cs_comp y)\<lparr>comp_wait := comp_wait (cs_comp y) @ [t]\<rparr>"
  have "comp_inv (wait_finish t c (wait_head t st sig ?x) (y\<lparr>cs_comp := ?x, cs_call := (cs_call y)(t := Some c)\<rparr>))"
    using comp_sleep_inv [OF comp_enqueue_inv [OF inv t True, of c], of t c st sig] True by simp
  then show ?thesis using True wait_finish_enqueued [OF True, of ?x t c st sig] by (simp add: wait_for_common_def)
next
  case False
  then show ?thesis using inv t by (auto simp: wait_for_common_def comp_inv_def awake_def)
qed

lemma comp_resume_inv:
  assumes "comp_inv y" "cs_call y t = Some c" "comp_run (cs_comp y) t"
  shows "comp_inv (wait_finish t c (wait_resume t st sig timeout (cs_comp y)) y)"
  using comp_sleep_inv [OF assms(1,2)] comp_exit_inv [OF assms(1,2)] assms(3) by (simp add: wait_resume_def)

lemma comp_complete_inv:
  assumes "comp_inv y"
  shows "comp_inv (y\<lparr>cs_comp := complete (cs_comp y), cs_signalled := cs_signalled y + 1\<rparr>)"
proof -
  let ?x = "cs_comp y"
  have d: "distinct (comp_wait ?x)" and m: "min (comp_done ?x) (length (comp_wait ?x)) \<le> length (filter (comp_run ?x) (comp_wait ?x))"
    using assms by (auto simp: comp_inv_def awake_def)
  have "min (Suc (comp_done ?x)) (length (comp_wait ?x)) \<le> length (filter (comp_run (complete ?x)) (comp_wait ?x))"
    using wake_one [OF d, of "comp_run ?x"] m by (simp add: complete_def)
  moreover have "comp_done (complete ?x) \<le> Suc (comp_done ?x)" by (simp add: complete_def)
  ultimately have "min (comp_done (complete ?x)) (length (comp_wait ?x)) \<le> length (filter (comp_run (complete ?x)) (comp_wait ?x))"
    by linarith
  then show ?thesis using assms by (auto simp: comp_inv_def awake_def complete_def)
qed

lemma comp_complete_all_inv:
  assumes "comp_inv y"
  shows "comp_inv (y\<lparr>cs_comp := complete_all (cs_comp y), cs_signalled := cs_signalled y + (2 ^ 32 - 1) div 2\<rparr>)"
proof -
  have "awake (complete_all (cs_comp y)) = comp_wait (cs_comp y)"
    by (auto simp: awake_def complete_all_def intro!: filter_True wake_all)
  then show ?thesis using assms by (auto simp: comp_inv_def complete_all_def)
qed

lemma comp_try_inv:
  assumes "comp_inv y" "try_wait_for_completion (cs_comp y) = (got, x)"
  shows "comp_inv (y\<lparr>cs_comp := x, cs_consumed := if got then Suc (cs_consumed y) else cs_consumed y\<rparr>)"
  using assms by (auto simp: comp_inv_def awake_def try_wait_for_completion_def split: if_splits)

lemma comp_spurious_inv:
  assumes "comp_inv y"
  shows "comp_inv (y\<lparr>cs_comp := (cs_comp y)\<lparr>comp_run := (comp_run (cs_comp y))(t := True)\<rparr>\<rparr>)"
proof -
  let ?x = "cs_comp y"
  have "length (filter (comp_run ?x) xs) \<le> length (filter ((comp_run ?x)(t := True)) xs)" for xs
    by (induction xs) auto
  moreover have "awake (?x\<lparr>comp_run := (comp_run ?x)(t := True)\<rparr>) = filter ((comp_run ?x)(t := True)) (comp_wait ?x)"
    by (simp add: awake_def)
  ultimately have "length (awake ?x) \<le> length (awake (?x\<lparr>comp_run := (comp_run ?x)(t := True)\<rparr>))" 
    by (simp only: awake_def [of ?x])
  then show ?thesis using assms by (auto simp: comp_inv_def)
qed

lemma comp_step_inv: "comp_inv y \<Longrightarrow> comp_step y y' \<Longrightarrow> comp_inv y'"
proof (erule comp_step.cases, goal_cases)
  case (1 y1 t st lim sig timeout)
  obtain t' where "wait_finish t (st, lim) (wait_call st lim t sig timeout (cs_comp y)) y = wait_finish t (st, lim) (wait_for_common t st sig t' (cs_comp y)) y"
    using wait_call_common by blast
  then show ?case using 1 comp_wait_inv [of y t "(st, lim)" st sig t'] by simp
qed (simp_all only: comp_resume_inv comp_complete_inv comp_complete_all_inv comp_try_inv comp_spurious_inv)

interpretation compsys: invariant_system comp_start comp_step comp_inv
proof
  show "comp_inv y" if "comp_start y" for y
    using that by (auto simp: comp_start_def comp_inv_def init_completion_def awake_def)
  show "comp_inv y'" if "comp_inv y" "comp_step y y'" for y y' using that by (rule comp_step_inv)
qed

subsection \<open>A completed event is delivered\<close>

lemma awake_waiter_returns:
  assumes "comp_inv y" and d: "0 < comp_done (cs_comp y)" and w: "comp_wait (cs_comp y) \<noteq> []"
  shows "\<exists>t \<in> set (comp_wait (cs_comp y)). comp_run (cs_comp y) t"
proof -
  have "0 < min (comp_done (cs_comp y)) (length (comp_wait (cs_comp y)))" using d w by simp
  then have "0 < length (awake (cs_comp y))" using assms(1) unfolding comp_inv_def by linarith
  then have "awake (cs_comp y) \<noteq> []" by simp
  then show ?thesis unfolding awake_def filter_empty_conv by blast
qed

end
