(* ===== verification/Lock_Props.thy ===== *)
theory Lock_Props
  imports Semaphore Rwsem Completion
begin

text \<open>
  What the sleeping locks promise to any set of tasks that use them, in every interleaving: units are
  neither lost nor invented, exclusion, and no lost wake-up.
\<close>

subsection \<open>Counting semaphore\<close>

text \<open>
  C19: of a semaphore started with \<open>n\<close> units and released \<open>u\<close> times in all (\<open>n + u < 2 ^ 31\<close>), in every reachable state
  the acquisitions, the units in the counter and the units handed to woken waiters add up to \<open>n + u\<close>, also after interrupted and timed-out
  calls; so there are never more acquisitions than units, and tasks wait only when the counter is zero.
\<close>

theorem semaphore_units:
  assumes "reach (sem_start n) sem_step y" and "n + sys_ups y < 2 ^ 31"
  shows "sem_count (sys_sem y) + card (granted y) + sys_downs y = n + sys_ups y \<and>
    (sem_wait (sys_sem y) \<noteq> [] \<longrightarrow> sem_count (sys_sem y) = 0)"
  using semsys.reach_inv [OF assms(1)] assms(2) by (simp add: sem_inv_def sem_balance_def sem_shape_def)


text \<open>Two tasks queue on a semaphore with no unit.\<close>

definition two_waiting :: sem_sys where
  "two_waiting = (let sig = \<lparr>sig_pending = False, fatal_pending = False\<rparr>;
     y0 = \<lparr>sys_sem = sema_init 0, sys_call = (\<lambda>_. None), sys_downs = 0, sys_ups = 0\<rparr>;
     y1 = finish 7 Down (down_call Down 7 sig 0 (sys_sem y0)) y0
   in finish 9 Down_timeout (down_call Down_timeout 9 sig 5 (sys_sem y1)) y1)"

lemma two_waiting_reach: "reach (sem_start 0) sem_step two_waiting"
proof -
  let ?sig = "\<lparr>sig_pending = False, fatal_pending = False\<rparr>"
  let ?y0 = "\<lparr>sys_sem = sema_init 0, sys_call = (\<lambda>_. None), sys_downs = 0, sys_ups = 0\<rparr>"
  let ?y1 = "finish 7 Down (down_call Down 7 ?sig 0 (sys_sem ?y0)) ?y0"
  have "reach (sem_start 0) sem_step ?y0" by (rule reach.Init) (simp add: sem_start_def)
  then have r1: "reach (sem_start 0) sem_step ?y1" by (rule reach.Step) (rule sem_step.Call, simp)
  have "sys_call ?y1 9 = None"
    by (simp add: sema_init_def down_def down_common_def down_loop_def signal_pending_state_def MAX_SCHEDULE_TIMEOUT_def)
  then have "sem_step ?y1 two_waiting" unfolding two_waiting_def Let_def by (rule sem_step.Call)
  with r1 show ?thesis by (rule reach.Step)
qed

lemma two_waiting_eq:
  "two_waiting = \<lparr>sys_sem = \<lparr>sem_count = 0, sem_wait = [7, 9], sem_up = (\<lambda>_. False)\<rparr>,
     sys_call = (\<lambda>_. None)(7 := Some Down, 9 := Some Down_timeout), sys_downs = 0, sys_ups = 0\<rparr>"
  by (auto simp: two_waiting_def Let_def sema_init_def down_def down_timeout_def down_common_def down_loop_def
      signal_pending_state_def MAX_SCHEDULE_TIMEOUT_def fun_eq_iff)

theorem semaphore_units_witness:
  "card (granted two_waiting) = 0 \<and> sem_wait (sys_sem two_waiting) = [7, 9]"
  using semaphore_units [OF two_waiting_reach] by (simp add: two_waiting_eq)


subsection \<open>Reader/writer semaphore\<close>

text \<open>
  C17: in every reachable state a writer has the lock alone, and the counter is \<open>-1\<close> when a writer has the lock and otherwise
  the number of readers, counting the readers it was handed to that have not run yet.
\<close>

theorem rwsem_exclusion:
  assumes "reach rw_start rw_step y"
  shows "(rw_stat y t = Writing \<and> t \<noteq> u \<longrightarrow> rw_stat y u \<noteq> Writing \<and> rw_stat y u \<noteq> Reading) \<and>
    rw_count (rw_sem y) = (if writers y = {} then int (card (readers y)) else -1)"
proof -
  have i: "rw_inv y" using assms by (rule rwsys.reach_inv)
  have "u \<notin> writers y \<and> u \<notin> readers y" if "rw_stat y t = Writing" "t \<noteq> u" using sole_writer [OF i that(1)] that(2) by simp
  moreover have "rw_count (rw_sem y) = (if writers y = {} then int (card (readers y)) else -1)"
    using rw_invD(5,6) [OF i] by (cases "rw_count (rw_sem y) = -1") auto
  ultimately show ?thesis by (auto simp: readers_def writers_def)
qed

text \<open>
  C18: no wake-up is lost. In every reachable state where nobody has the lock and somebody is queued, the first in the queue is a
  writer that is runnable and takes the lock when it runs; and a reader that was handed the lock is runnable and returns when it runs.
\<close>

theorem rwsem_wakeup:
  assumes "reach rw_start rw_step y"
  shows "(readers y = {} \<and> writers y = {} \<and> rw_wait (rw_sem y) \<noteq> [] \<longrightarrow>
      (\<exists>t. hd (rw_wait (rw_sem y)) = (t, RWSEM_WAITING_FOR_WRITE) \<and> rw_stat y t = WaitWrite \<and> rw_run (rw_sem y) t \<and>
        fst (down_write_loop t (rw_sem y)))) \<and>
    (\<forall>t. rw_stat y t = WaitRead \<and> t \<in> readers y \<longrightarrow> rw_run (rw_sem y) t \<and> fst (down_read_resume t (rw_sem y)))"
proof -
  have i: "rw_inv y" using assms by (rule rwsys.reach_inv)
  have "\<exists>t. hd (rw_wait (rw_sem y)) = (t, RWSEM_WAITING_FOR_WRITE) \<and> rw_stat y t = WaitWrite \<and> rw_run (rw_sem y) t \<and>
      fst (down_write_loop t (rw_sem y))"
    if h: "readers y = {}" "writers y = {}" "rw_wait (rw_sem y) \<noteq> []"
  proof -
    have c: "rw_count (rw_sem y) = 0" using rw_invD(5,6) [OF i] h by (cases "rw_count (rw_sem y) = -1") auto
    obtain t k where tk: "hd (rw_wait (rw_sem y)) = (t, k)" by fastforce
    then have k: "k = RWSEM_WAITING_FOR_WRITE" "rw_run (rw_sem y) t" using rw_awakeD(1,2) [OF i] c h(3) by auto
    have "(t, RWSEM_WAITING_FOR_WRITE) \<in> set (rw_wait (rw_sem y))" using hd_in_set [OF h(3)] tk k by simp
    then have "rw_stat y t = WaitWrite" using rw_invD(3) [OF i] by blast
    then show ?thesis using tk k c by (simp add: down_write_loop_def)
  qed
  moreover have "rw_run (rw_sem y) t \<and> fst (down_read_resume t (rw_sem y))" if "rw_stat y t = WaitRead" "t \<in> readers y" for t
    using rw_awakeD(3) [OF i] that by (simp add: readers_def down_read_resume_def task_sleeps_def wake_up_process_def)
  ultimately show ?thesis by blast
qed

text \<open>A writer and a reader queue behind a reader, which then releases the lock.\<close>

definition rw_queued :: rw_sys where
  "rw_queued =
     (let y0 = \<lparr>rw_sem = init_rwsem \<lparr>rw_count = 0, rw_wait = [], rw_null = (\<lambda>_. False), rw_run = (\<lambda>_. True)\<rparr>, rw_stat = (\<lambda>_. Free)\<rparr>;
        y1 = becomes 1 Reading (snd (down_read 1 (rw_sem y0))) y0;
        y2 = becomes 2 WaitWrite (snd (down_write 2 (rw_sem y1))) y1
      in becomes 3 WaitRead (snd (down_read 3 (rw_sem y2))) y2)"

lemma rw_queued_eq:
  "rw_queued = \<lparr>rw_sem = \<lparr>rw_count = 1, rw_wait = [(2, RWSEM_WAITING_FOR_WRITE), (3, RWSEM_WAITING_FOR_READ)],
     rw_null = (\<lambda>_. False), rw_run = (\<lambda>_. True)(2 := False, 3 := False)\<rparr>,
     rw_stat = (\<lambda>_. Free)(1 := Reading, 2 := WaitWrite, 3 := WaitRead)\<rparr>"
  by (auto simp: rw_queued_def Let_def init_rwsem_def down_read_def down_write_def down_write_loop_def becomes_def task_sleeps_def)

lemma rw_queued_reach: "reach rw_start rw_step rw_queued"
proof -
  let ?y0 = "\<lparr>rw_sem = init_rwsem \<lparr>rw_count = 0, rw_wait = [], rw_null = (\<lambda>_. False), rw_run = (\<lambda>_. True)\<rparr>, rw_stat = (\<lambda>_. Free)\<rparr>"
  let ?y1 = "becomes 1 Reading (snd (down_read 1 (rw_sem ?y0))) ?y0"
  let ?y2 = "becomes 2 WaitWrite (snd (down_write 2 (rw_sem ?y1))) ?y1"
  have r0: "reach rw_start rw_step ?y0" by (rule reach.Init) (auto simp: rw_start_def)
  have "rw_step ?y0 ?y1"
    using rw_step.Read [of ?y0 1 True "snd (down_read 1 (rw_sem ?y0))"] by (simp add: down_read_def init_rwsem_def)
  note r1 = reach.Step [OF r0 this]
  have "rw_step ?y1 ?y2"
    using rw_step.Write [of ?y1 2 False "snd (down_write 2 (rw_sem ?y1))"]
    by (simp add: down_write_def down_write_loop_def down_read_def init_rwsem_def becomes_def)
  note r2 = reach.Step [OF r1 this]
  have "rw_step ?y2 rw_queued"
    using rw_step.Read [of ?y2 3 False "snd (down_read 3 (rw_sem ?y2))"]
    by (simp add: rw_queued_def Let_def down_write_def down_write_loop_def down_read_def init_rwsem_def becomes_def task_sleeps_def)
  from reach.Step [OF r2 this] show ?thesis .
qed

definition rw_released :: rw_sys where
  "rw_released = becomes 1 Free (up_read (rw_sem rw_queued)) rw_queued"

lemma rw_released_reach: "reach rw_start rw_step rw_released"
  unfolding rw_released_def by (rule reach.Step [OF rw_queued_reach rw_step.Read_unlock]) (simp add: rw_queued_eq)

lemma rw_released_eq:
  "rw_released = \<lparr>rw_sem = \<lparr>rw_count = 0, rw_wait = [(2, RWSEM_WAITING_FOR_WRITE), (3, RWSEM_WAITING_FOR_READ)],
     rw_null = (\<lambda>_. False), rw_run = (\<lambda>_. True)(3 := False)\<rparr>,
     rw_stat = (\<lambda>_. Free)(2 := WaitWrite, 3 := WaitRead)\<rparr>"
  by (auto simp: rw_released_def rw_queued_eq becomes_def up_read_def rwsem_wake_one_writer_def wake_up_process_def fun_eq_iff)

theorem rwsem_exclusion_witness: "rw_count (rw_sem rw_queued) = int (card (readers rw_queued)) \<and> 1 \<in> readers rw_queued"
proof -
  have "writers rw_queued = {}" by (auto simp: writers_def rw_queued_eq)
  then show ?thesis using rwsem_exclusion [OF rw_queued_reach] by (simp add: readers_def rw_queued_eq)
qed

theorem rwsem_wakeup_witness: "\<exists>t. hd (rw_wait (rw_sem rw_released)) = (t, RWSEM_WAITING_FOR_WRITE) \<and> fst (down_write_loop t (rw_sem rw_released))"
proof -
  have "readers rw_released = {} \<and> writers rw_released = {} \<and> rw_wait (rw_sem rw_released) \<noteq> []"
    by (auto simp: readers_def writers_def rw_released_eq)
  then show ?thesis using rwsem_wakeup [OF rw_released_reach] by blast
qed

subsection \<open>Completions\<close>









end
