(* ===== verification/Spec2Isabelle.thy ===== *)
theory Spec2Isabelle
  imports Memblock_Props Buddy_Props Kfifo_Props Lock_Props
begin

text \<open>
  A verification library for parts of the Linux kernel tree under \<^verbatim>\<open>src/\<close>.

  \<^bold>\<open>The parts.\<close> \<^verbatim>\<open>Kernel_Base\<close> is the prelude.
\<close>

end
